(* ===== verification/Prelude.thy ===== *)
theory Prelude
  imports Main "HOL-Library.Word" "HOL-Library.Multiset"
begin

text \<open>
  Shared vocabulary of the development: the machine integers of the Rust sources, results with
  the \<open>?\<close> operator, \<open>for\<close> loops that may return early, half-open integer ranges, Rust's
  \<open>HashMap\<close> used as a grouping structure, and the list and multiset lemmas that the component
  theories rely on.

  The target is 64 bit, so \<open>usize\<close> and \<open>u64\<close> are both \<open>64 word\<close>; arithmetic wraps, as it
  does in the \<open>production\<close> profile that the README builds (it inherits \<open>release\<close>, where
  overflow checks are off). \<open>i64\<close>, the only integer type SQLite stores, is an \<open>int\<close> that
  comes from the cast \<open>as_i64\<close>, i.e. two's complement.
\<close>

unbundle bit_operations_syntax

section \<open>Machine integers\<close>

type_synonym u8 = "8 word"
type_synonym u32 = "32 word"
type_synonym u64 = "64 word"
type_synonym usize = "64 word"
type_synonym i64 = int
type_synonym bytes = "u8 list"

text \<open>The casts \<open>x as i64\<close> of a \<open>u64\<close> and \<open>x as usize\<close> of an \<open>i64\<close>.\<close>

definition as_i64 :: "u64 \<Rightarrow> i64" where
  "as_i64 w = sint w"

definition as_usize :: "i64 \<Rightarrow> usize" where
  "as_usize i = word_of_int i"

text \<open>\<open>(a..b)\<close> collected into a vector: the half-open range of unsigned integers.\<close>

definition range_u64 :: "u64 \<Rightarrow> u64 \<Rightarrow> u64 list" where
  "range_u64 a b = map word_of_nat [unat a ..< unat b]"

text \<open>The 256 values of an index of type \<open>u8\<close>, in ascending order.\<close>

definition all_u8 :: "u8 list" where
  "all_u8 = map word_of_nat [0 ..< 256]"

section \<open>Results, the question mark operator, loops with early return\<close>

text \<open>\<open>Result<'a, 'e>\<close> is the sum \<open>'e + 'a\<close>; \<open>bindE\<close> is the operator \<open>?\<close>.\<close>

definition bindE :: "'e + 'a \<Rightarrow> ('a \<Rightarrow> 'e + 'b) \<Rightarrow> 'e + 'b" where
  "bindE r f = (case r of Inl e \<Rightarrow> Inl e | Inr x \<Rightarrow> f x)"

definition map_err :: "('e \<Rightarrow> 'f) \<Rightarrow> 'e + 'a \<Rightarrow> 'f + 'a" where
  "map_err g r = (case r of Inl e \<Rightarrow> Inl (g e) | Inr x \<Rightarrow> Inr x)"

definition ok_or :: "'e \<Rightarrow> 'a option \<Rightarrow> 'e + 'a" where
  "ok_or e v = (case v of None \<Rightarrow> Inl e | Some x \<Rightarrow> Inr x)"

text \<open>A \<open>for\<close> loop over \<open>xs\<close> whose body may leave the function through \<open>?\<close>.\<close>

fun foldE :: "('s \<Rightarrow> 'x \<Rightarrow> 'e + 's) \<Rightarrow> 's \<Rightarrow> 'x list \<Rightarrow> 'e + 's" where
  "foldE f s [] = Inr s"
| "foldE f s (x # xs) = (case f s x of Inl e \<Rightarrow> Inl e | Inr s' \<Rightarrow> foldE f s' xs)"

section \<open>HashMap as a grouping structure\<close>

text \<open>
  \<open>m.entry(k).or_default().push(v)\<close> on a hash map whose values are vectors. The association
  list keeps one entry per key; the order in which Rust iterates over a map is not specified,
  so every loop over such a map goes through a parameter that permutes the entries.
\<close>

fun entry_push :: "'k \<Rightarrow> 'v \<Rightarrow> ('k \<times> 'v list) list \<Rightarrow> ('k \<times> 'v list) list" where
  "entry_push k v [] = [(k, [v])]"
| "entry_push k v ((k', vs) # m) =
     (if k = k' then (k', vs @ [v]) # m else (k', vs) # entry_push k v m)"

text \<open>What a hash map guarantees of its iteration order: each entry is visited exactly once.\<close>

definition visits_each_once :: "('a list \<Rightarrow> 'a list) \<Rightarrow> bool" where
  "visits_each_once ord \<longleftrightarrow> (\<forall>m. mset (ord m) = mset m)"

text \<open>The values pushed under a key, in the order they were pushed.\<close>

definition group_of :: "('k \<times> 'v) list \<Rightarrow> 'k \<Rightarrow> 'v list" where
  "group_of kvs k = map snd (filter (\<lambda>kv. fst kv = k) kvs)"

section \<open>Collections of rules\<close>

named_theorems result_simps "evaluation of results and of the question mark operator"
named_theorems cast_simps "casts between u64, usize and i64 on values in range"

section \<open>Lemmas: casts and ranges\<close>

lemma unat_bound_u64: "unat (w :: u64) < 2 ^ 64"
  using unsigned_less [of w, where ?'a = nat] by simp

lemma unat_bound_u8: "unat (w :: u8) < 256"
  using unsigned_less [of w, where ?'a = nat] by simp

lemma as_i64_small [cast_simps]:
  assumes "unat w < 2 ^ 63"
  shows "as_i64 w = int (unat w)"
proof -
  have "int (unat w) < int (2 ^ 63)"
    using assms by (simp only: of_nat_less_iff)
  then have "signed_take_bit 63 (uint w) = uint w"
    by (intro signed_take_bit_int_eq_self) (auto intro: order_trans [OF _ uint_ge_0])
  then show ?thesis by (simp add: as_i64_def sint_uint)
qed

lemma as_usize_as_i64 [simp]: "as_usize (as_i64 w) = w"
  by (simp add: as_usize_def as_i64_def)

lemma as_i64_inject [simp]: "as_i64 v = as_i64 w \<longleftrightarrow> v = w"
  by (metis as_usize_as_i64)

lemma as_usize_int [simp]: "as_usize (int n) = word_of_nat n"
  by (simp add: as_usize_def)

lemma unat_word_of_nat_u64 [simp]: "n < 2 ^ 64 \<Longrightarrow> unat (word_of_nat n :: u64) = n"
  by (simp add: unat_of_nat)

lemma as_i64_word_of_nat [cast_simps]: "n < 2 ^ 63 \<Longrightarrow> as_i64 (word_of_nat n) = int n"
  by (subst as_i64_small) simp_all

lemma unat_add_u64: "unat a + unat b < 2 ^ 64 \<Longrightarrow> unat (a + b :: u64) = unat a + unat b"
  by (rule unat_add_lem [THEN iffD1]) simp

lemma unat_sub_word_of_nat:
  assumes "n \<le> unat (w :: u64)"
  shows "unat (w - word_of_nat n) = unat w - n"
proof -
  have "unat (word_of_nat n :: u64) = n"
    using assms unat_bound_u64 [of w] by (intro unat_word_of_nat_u64) simp
  then show ?thesis
    using assms by (simp add: unat_sub word_le_nat_alt)
qed

lemma length_range_u64 [simp]: "length (range_u64 a b) = unat b - unat a"
  by (simp add: range_u64_def)

lemma inj_on_word_of_nat_u64: "A \<subseteq> {..< 2 ^ 64} \<Longrightarrow> inj_on (word_of_nat :: nat \<Rightarrow> u64) A"
  by (rule inj_on_inverseI [where g = unat]) (auto simp del: power_numeral)

lemma distinct_range_u64 [simp]: "distinct (range_u64 a b)"
proof -
  have "{unat a ..< unat b} \<subseteq> {..< 2 ^ 64}"
    using unat_bound_u64 [of b] by auto
  then show ?thesis
    by (simp add: range_u64_def distinct_map inj_on_word_of_nat_u64)
qed

lemma map_unat_range_u64 [simp]: "map unat (range_u64 a b) = [unat a ..< unat b]"
proof -
  have "unat (word_of_nat n :: u64) = n" if "n \<in> {unat a ..< unat b}" for n
    using that unat_bound_u64 [of b] by (intro unat_word_of_nat_u64) auto
  then show ?thesis by (auto simp: range_u64_def intro!: map_idI)
qed

lemma set_all_u8 [simp]: "set all_u8 = UNIV"
proof -
  have "w \<in> set all_u8" for w :: u8
    using unat_bound_u8 [of w] by (auto simp: all_u8_def image_iff intro!: bexI [of _ "unat w"])
  then show ?thesis by blast
qed

lemma distinct_all_u8 [simp]: "distinct all_u8"
proof -
  have "unat (word_of_nat n :: u8) = n" if "n < 256" for n
    using that by (simp add: unat_of_nat)
  then have "inj_on (word_of_nat :: nat \<Rightarrow> u8) {0 ..< 256}"
    by (intro inj_on_inverseI [where g = unat]) auto
  then show ?thesis by (simp add: all_u8_def distinct_map)
qed

section \<open>Lemmas: results and loops\<close>

lemma bindE_simps [simp, result_simps]:
  "bindE (Inl e) f = Inl e" "bindE (Inr x) f = f x"
  by (simp_all add: bindE_def)

lemma map_err_simps [simp, result_simps]:
  "map_err g (Inl e) = Inl (g e)" "map_err g (Inr x) = Inr x"
  by (simp_all add: map_err_def)

lemma ok_or_simps [simp, result_simps]:
  "ok_or e None = Inl e" "ok_or e (Some x) = Inr x"
  by (simp_all add: ok_or_def)

lemma bindE_eq_Inr [result_simps]: "bindE r f = Inr y \<longleftrightarrow> (\<exists>x. r = Inr x \<and> f x = Inr y)"
  by (cases r) simp_all

lemma bindE_eq_Inl [result_simps]:
  "bindE r f = Inl e \<longleftrightarrow> r = Inl e \<or> (\<exists>x. r = Inr x \<and> f x = Inl e)"
  by (cases r) simp_all

lemma bindE_cong [fundef_cong]:
  "r = r' \<Longrightarrow> (\<And>x. r' = Inr x \<Longrightarrow> f x = g x) \<Longrightarrow> bindE r f = bindE r' g"
  by (cases r') simp_all

lemma foldE_append: "foldE f s (xs @ ys) = bindE (foldE f s xs) (\<lambda>s'. foldE f s' ys)"
  by (induction xs arbitrary: s) (auto split: sum.splits)

lemma foldE_map: "foldE f s (map g xs) = foldE (\<lambda>s x. f s (g x)) s xs"
  by (induction xs arbitrary: s) (auto split: sum.splits)

text \<open>A loop whose body never fails is a fold.\<close>

lemma foldE_total: "(\<And>s x. x \<in> set xs \<Longrightarrow> f s x = Inr (g x s)) \<Longrightarrow> foldE f s xs = Inr (fold g xs s)"
  by (induction xs arbitrary: s) simp_all

text \<open>A loop invariant is preserved up to the point where the loop is left.\<close>

lemma foldE_invariant:
  assumes "foldE f s xs = Inr s'" and "I s"
    and "\<And>s x s'. x \<in> set xs \<Longrightarrow> I s \<Longrightarrow> f s x = Inr s' \<Longrightarrow> I s'"
  shows "I s'"
  using assms
proof (induction xs arbitrary: s)
  case (Cons x xs)
  from Cons.prems(1) obtain s1 where "f s x = Inr s1" and rest: "foldE f s1 xs = Inr s'"
    by (auto split: sum.splits)
  then have "I s1" using Cons.prems(2,3) by auto
  then show ?case using Cons.IH [OF rest] Cons.prems(3) by auto
qed simp

text \<open>A loop whose body succeeds under an invariant that it keeps runs to its end.\<close>

lemma foldE_ex:
  assumes "I s" and "\<And>s x. x \<in> set xs \<Longrightarrow> I s \<Longrightarrow> \<exists>s'. f s x = Inr s' \<and> I s'"
  shows "\<exists>s'. foldE f s xs = Inr s' \<and> I s'"
  using assms
proof (induction xs arbitrary: s)
  case (Cons x xs)
  then obtain s1 where "f s x = Inr s1" "I s1" by (meson list.set_intros(1))
  then show ?case using Cons.IH [of s1] Cons.prems(2) by auto
qed simp

section \<open>Lemmas: grouping\<close>

lemma group_of_simps [simp]:
  "group_of [] k = []"
  "group_of ((k', v) # kvs) k = (if k' = k then v # group_of kvs k else group_of kvs k)"
  by (simp_all add: group_of_def)

lemma group_of_append [simp]: "group_of (xs @ ys) k = group_of xs k @ group_of ys k"
  by (simp add: group_of_def)

lemma keys_entry_push [simp]: "fst ` set (entry_push k v m) = insert k (fst ` set m)"
  by (induction k v m rule: entry_push.induct) auto

lemma distinct_entry_push: "distinct (map fst m) \<Longrightarrow> distinct (map fst (entry_push k v m))"
proof (induction k v m rule: entry_push.induct)
  case (2 k v k' vs m)
  then show ?case
    using keys_entry_push [of k v m] by (auto simp del: keys_entry_push)
qed simp

lemma map_of_entry_push:
  "map_of (entry_push k v m) k' =
     (if k' = k then Some ((case map_of m k of None \<Rightarrow> [] | Some vs \<Rightarrow> vs) @ [v]) else map_of m k')"
  by (induction k v m rule: entry_push.induct) auto

definition push_all :: "('k \<times> 'v) list \<Rightarrow> ('k \<times> 'v list) list \<Rightarrow> ('k \<times> 'v list) list" where
  "push_all kvs m = fold (\<lambda>(k, v). entry_push k v) kvs m"

lemma push_all_simps [simp]:
  "push_all [] m = m" "push_all ((k, v) # kvs) m = push_all kvs (entry_push k v m)"
  by (simp_all add: push_all_def)

lemma distinct_push_all: "distinct (map fst m) \<Longrightarrow> distinct (map fst (push_all kvs m))"
  by (induction kvs arbitrary: m) (auto simp: distinct_entry_push)

lemma map_of_push_all:
  "map_of (push_all kvs m) k =
     (if group_of kvs k = [] then map_of m k
      else Some ((case map_of m k of None \<Rightarrow> [] | Some vs \<Rightarrow> vs) @ group_of kvs k))"
  by (induction kvs arbitrary: m) (auto simp: map_of_entry_push)

text \<open>What a grouping map holds, in whatever order it is iterated over.\<close>

lemma push_all_entries:
  "set (push_all kvs []) = {(k, group_of kvs k) |k. group_of kvs k \<noteq> []}"
proof -
  have "distinct (map fst (push_all kvs []))"
    by (rule distinct_push_all) simp
  then have "(k, vs) \<in> set (push_all kvs []) \<longleftrightarrow> map_of (push_all kvs []) k = Some vs" for k vs
    by (simp add: map_of_eq_Some_iff)
  then show ?thesis
    by (auto simp: map_of_push_all split: if_splits)
qed

lemma visits_each_once_props:
  assumes "visits_each_once ord"
  shows "mset (ord m) = mset m" "set (ord m) = set m" "length (ord m) = length m"
proof -
  show ms: "mset (ord m) = mset m"
    using assms by (simp add: visits_each_once_def)
  show "set (ord m) = set m" "length (ord m) = length m"
    using mset_eq_setD [OF ms] mset_eq_length [OF ms] by simp_all
qed

lemma visits_each_once_distinct:
  assumes "visits_each_once ord"
  shows "distinct (map f (ord m)) \<longleftrightarrow> distinct (map f m)"
proof -
  have "mset (map f (ord m)) = mset (map f m)"
    by (simp add: visits_each_once_props(1) [OF assms])
  then show ?thesis by (rule mset_eq_imp_distinct_iff)
qed

lemma visits_each_once_Nil_iff:
  assumes "visits_each_once ord"
  shows "ord m = [] \<longleftrightarrow> m = []"
  using visits_each_once_props(3) [OF assms, of m] by auto

section \<open>Lemmas: index lists and multisets\<close>

text \<open>Selecting the positions of a distinct list of indices, whatever their order.\<close>

lemma mset_filter_indices:
  assumes "distinct is"
  shows "mset (filter (\<lambda>i. i \<in> set is) [0 ..< n]) = mset (filter (\<lambda>i. i < n) is)"
  using assms by (intro set_eq_iff_mset_eq_distinct [THEN iffD1]) auto

lemma mset_filter_cong: "mset xs = mset ys \<Longrightarrow> mset (filter P xs) = mset (filter P ys)"
  by (simp add: mset_filter)

text \<open>A list that has, as a multiset, the images of \<open>ys\<close> is the image of a rearrangement of \<open>ys\<close>.\<close>

lemma mset_eq_mset_map_ex:
  "mset xs = mset (map f ys) \<Longrightarrow> \<exists>zs. xs = map f zs \<and> mset zs = mset ys"
proof (induction xs arbitrary: ys)
  case (Cons x xs)
  then have "x \<in> f ` set ys"
    by (metis list.set_intros(1) list.set_map mset_eq_setD)
  then obtain y where y: "y \<in> set ys" "x = f y" by blast
  have "mset (map f ys) = add_mset (f y) (mset (map f (remove1 y ys)))"
    using y(1) by (metis mset_map mset_remove1 image_mset_add_mset insert_DiffM set_mset_mset)
  with Cons.prems y(2) have "mset xs = mset (map f (remove1 y ys))"
    by simp
  then obtain zs where "xs = map f zs" "mset zs = mset (remove1 y ys)"
    using Cons.IH by blast
  then show ?case
    using y by (intro exI [of _ "y # zs"]) simp
qed simp

lemma filter_upt_less: "filter (\<lambda>j. j < n) [a ..< b] = [a ..< min b n]"
proof (induction b)
  case (Suc b)
  then show ?case
    by (cases "b < n") (auto simp: min_def le_less_Suc_eq)
qed simp

lemma map_nth_range: "map ((!) xs) (filter (\<lambda>j. j < length xs) [a ..< a + n]) = take n (drop a xs)"
  unfolding filter_upt_less
  by (rule nth_equalityI) (auto simp: nth_upt [of _ _ "min (a + n) (length xs)"] less_diff_conv add.commute)

lemma as_i64_eq_int_iff:
  assumes "n < 2 ^ 63"
  shows "as_i64 u = int n \<longleftrightarrow> unat u = n"
proof -
  have "as_i64 u = int n \<longleftrightarrow> as_i64 u = as_i64 (word_of_nat n)"
    using assms by (simp add: as_i64_word_of_nat)
  also have "\<dots> \<longleftrightarrow> unat u = n"
    using assms by (simp add: word_unat_eq_iff)
  finally show ?thesis .
qed

text \<open>When a predicate holds on a prefix, splitting by it keeps the order.\<close>

lemma filter_prefix_partition:
  "sorted_wrt (\<lambda>x y. P y \<longrightarrow> P x) xs \<Longrightarrow> filter P xs @ filter (\<lambda>x. \<not> P x) xs = xs"
proof (induction xs)
  case (Cons x xs)
  then show ?case
    by (cases "P x") (auto simp: filter_empty_conv filter_id_conv)
qed simp

lemma sorted_mset_unique: "sorted xs \<Longrightarrow> sorted ys \<Longrightarrow> mset xs = mset ys \<Longrightarrow> xs = (ys :: 'a :: linorder list)"
  by (metis properties_for_sort)

text \<open>Listing the elements with a property first keeps an ascending order only in one case.\<close>

lemma filter_first_ascending_iff:
  fixes xs :: "'a :: linorder list"
  assumes "sorted_wrt (<) xs" and "mset ys = mset (filter (\<lambda>x. \<not> P x) xs)"
  shows "filter P xs @ ys = xs \<longleftrightarrow> sorted ys \<and> (\<forall>x \<in> set xs. \<forall>y \<in> set xs. x < y \<and> P y \<longrightarrow> P x)"
proof
  assume eq: "filter P xs @ ys = xs"
  have "sorted (filter P xs @ ys)"
    unfolding eq using assms(1) by (rule strict_sorted_imp_sorted)
  then have ys: "sorted ys" "\<forall>y \<in> set (filter P xs). \<forall>x \<in> set ys. y \<le> x"
    by (simp_all add: sorted_append)
  have "P x" if "x \<in> set xs" "y \<in> set xs" "x < y" "P y" for x y
  proof (rule ccontr)
    assume "\<not> P x"
    then have "x \<in> set ys" using that(1) mset_eq_setD [OF assms(2)] by simp
    then show False using ys(2) that(2-4) by force
  qed
  with ys(1) show "sorted ys \<and> (\<forall>x \<in> set xs. \<forall>y \<in> set xs. x < y \<and> P y \<longrightarrow> P x)" by blast
next
  assume *: "sorted ys \<and> (\<forall>x \<in> set xs. \<forall>y \<in> set xs. x < y \<and> P y \<longrightarrow> P x)"
  have "sorted xs" using assms(1) by (rule strict_sorted_imp_sorted)
  then have "sorted (filter (\<lambda>x. \<not> P x) xs)" by (rule sorted_filter [where f = id, simplified])
  then have "ys = filter (\<lambda>x. \<not> P x) xs"
    using * assms(2) by (blast intro: sorted_mset_unique)
  moreover have "sorted_wrt (\<lambda>x y. P y \<longrightarrow> P x) xs"
    using assms(1) by (rule sorted_wrt_mono_rel [rotated]) (use * in blast)
  ultimately show "filter P xs @ ys = xs" by (simp add: filter_prefix_partition)
qed

end
