(* ===== verification/Ledger_Types.thy ===== *)
theory Ledger_Types
  imports Prelude
begin

text \<open>
  The data the components exchange: the error values (\<open>src/errors.rs\<close>), the rows of the two
  tables (\<open>src/types.rs\<close>), and the checkpoint and the responses of the ledger protocol. The
  latter are declared in \<open>pallet_manta_pay\<close>, outside this repository: the records have the
  fields the sources read and write, and the note types stay type variables (\<open>'u\<close> for
  \<open>Utxo\<close>, \<open>'n\<close> for \<open>FullIncomingNote\<close>, \<open>'o\<close> for \<open>OutgoingNote\<close>).

  A \<open>NullifierCommitment\<close> is \<open>[u8; 32]\<close>: a byte list of length 32. The receiver index of a
  checkpoint is an array of 256 \<open>usize\<close>, one per shard, and the sources index it by a \<open>u8\<close>: a
  total function on \<open>u8\<close>.

  The SCALE codec and the base64 encoder are third-party code; they are a parameter, the record
  \<open>codec\<close>, and what the sources rely on is the locale \<open>scale_codec\<close>.
\<close>

section \<open>Constants\<close>

text \<open>The constants of \<open>src/constants.rs\<close>, and the limits of one request (\<open>src/indexer/mod.rs\<close>).\<close>

definition MANTA_PAY_KEY_PREFIX :: string where
  "MANTA_PAY_KEY_PREFIX = ''MantaPay''"

definition MANTA_PAY_STORAGE_SHARDS_NAME :: string where
  "MANTA_PAY_STORAGE_SHARDS_NAME = ''Shards''"

definition MANTA_PAY_STORAGE_NULLIFIER_NAME :: string where
  "MANTA_PAY_STORAGE_NULLIFIER_NAME = ''NullifierSetInsertionOrder''"

definition MEGABYTE :: u32 where
  "MEGABYTE = 1024 * 1024"

definition PULL_LEDGER_DIFF_METHODS :: string where
  "PULL_LEDGER_DIFF_METHODS = ''mantaPay_pull_ledger_diff''"

definition MAX_SENDERS :: u64 where
  "MAX_SENDERS = 1024 * 4"

definition MAX_RECEIVERS :: u64 where
  "MAX_RECEIVERS = 1024 * 4"

section \<open>Errors\<close>

datatype sqlx_error = RowNotFound | SqlxOther string

datatype jsonrpsee_error = Custom string | ParseError string | RpcOther string

datatype indexer_error =
    RequestTimeOut
  | FullNodeIsDown
  | DbFetchError sqlx_error
  | BadUtxo
  | DecodedError string
  | JsonRpseeError jsonrpsee_error
  | WrongConfig
  | RpcMethodNotExists
  | WrongLittleEndianArray
  | Unknown

text \<open>
  \<open>anyhow::Error\<close>: any of the errors that \<open>?\<close> converts. \<open>Panic\<close> is the unwinding of a
  failed assertion, an \<open>unwrap\<close> or an index out of range.
\<close>

datatype anyhow_error =
    Indexer indexer_error
  | Sqlx sqlx_error
  | Jsonrpsee jsonrpsee_error
  | CodecError string
  | Bail string
  | Other string
  | Panic string

text \<open>
  The messages of \<open>IndexerError\<close>; the text of a wrapped foreign error is printed by its own crate,
  hence the two parameters.
\<close>

fun indexer_error_to_string ::
  "(sqlx_error \<Rightarrow> string) \<Rightarrow> (jsonrpsee_error \<Rightarrow> string) \<Rightarrow> indexer_error \<Rightarrow> string" where
  "indexer_error_to_string f g RequestTimeOut = ''The result is timeout.''"
| "indexer_error_to_string f g FullNodeIsDown = ''Seems full node doesn't work.''"
| "indexer_error_to_string f g (DbFetchError e) =
     ''Failed to fetch data from db due to: '' @ f e @ ''.''"
| "indexer_error_to_string f g BadUtxo = ''Failed to convert utxo.''"
| "indexer_error_to_string f g (DecodedError s) =
     ''Failed to decode as codec format, type =  '' @ s"
| "indexer_error_to_string f g (JsonRpseeError e) = ''Jsonrpsee Error: '' @ g e @ ''.''"
| "indexer_error_to_string f g WrongConfig = ''Wrong config file(config.toml).''"
| "indexer_error_to_string f g RpcMethodNotExists = ''This rpc method doesn't exist.''"
| "indexer_error_to_string f g WrongLittleEndianArray = ''Wrong little endian array for u128.''"
| "indexer_error_to_string f g Unknown = ''Unknown error.''"

section \<open>Rows, checkpoints and responses\<close>

record shard =
  shard_index :: u8
  utxo_index :: i64
  utxo :: bytes
  full_incoming_note :: bytes

record nullifier =
  idx :: i64
  nullifier_commitment :: bytes
  outgoing_note :: bytes

type_synonym receiver_index_array = "u8 \<Rightarrow> usize"

record checkpoint =
  receiver_index :: receiver_index_array
  sender_index :: usize

text \<open>\<open>Checkpoint::default()\<close>.\<close>

definition checkpoint_default :: checkpoint where
  "checkpoint_default = \<lparr>receiver_index = (\<lambda>_. 0), sender_index = 0\<rparr>"

type_synonym ('u, 'n) receiver_chunk = "('u \<times> 'n) list"
type_synonym 'o sender_chunk = "(bytes \<times> 'o) list"

record ('u, 'n, 'o) pull_response =
  should_continue :: bool
  receivers :: "('u, 'n) receiver_chunk"
  senders :: "'o sender_chunk"
  senders_receivers_total :: bytes

record dense_pull_response =
  dense_should_continue :: bool
  dense_receivers :: string
  dense_senders :: string
  dense_senders_receivers_total :: bytes
  next_checkpoint :: "checkpoint option"

section \<open>The codec\<close>

text \<open>
  One pair of functions per type that the sources encode or decode. A decoder reads a value from
  the front of a slice; the sources never look at what is left of the slice, so it returns the
  value only. The decoders of whole chunks and of base64 run in the client; they state what a
  dense response carries.
\<close>

record ('u, 'n, 'o) codec =
  utxo_encode :: "'u \<Rightarrow> bytes"
  utxo_decode :: "bytes \<Rightarrow> 'u option"
  note_encode :: "'n \<Rightarrow> bytes"
  note_decode :: "bytes \<Rightarrow> 'n option"
  commitment_encode :: "bytes \<Rightarrow> bytes"
  commitment_decode :: "bytes \<Rightarrow> bytes option"
  outgoing_encode :: "'o \<Rightarrow> bytes"
  outgoing_decode :: "bytes \<Rightarrow> 'o option"
  receiver_encode :: "'u \<times> 'n \<Rightarrow> bytes"
  receiver_decode :: "bytes \<Rightarrow> ('u \<times> 'n) option"
  sender_encode :: "bytes \<times> 'o \<Rightarrow> bytes"
  sender_decode :: "bytes \<Rightarrow> (bytes \<times> 'o) option"
  receivers_encode :: "('u, 'n) receiver_chunk \<Rightarrow> bytes"
  receivers_decode :: "bytes \<Rightarrow> ('u, 'n) receiver_chunk option"
  senders_encode :: "'o sender_chunk \<Rightarrow> bytes"
  senders_decode :: "bytes \<Rightarrow> 'o sender_chunk option"
  base64_encode :: "bytes \<Rightarrow> string"
  base64_decode :: "string \<Rightarrow> bytes option"

text \<open>A well-formed sender: its commitment has the 32 bytes of its type.\<close>

definition sender_wf :: "bytes \<times> 'o \<Rightarrow> bool" where
  "sender_wf s \<longleftrightarrow> length (fst s) = 32"

text \<open>
  Documented behaviour of SCALE and base64: decoding inverts encoding, and an array of bytes
  encodes as its bytes.
\<close>

locale scale_codec =
  fixes cd :: "('u, 'n, 'o) codec"
  assumes utxo_roundtrip [simp]: "utxo_decode cd (utxo_encode cd u) = Some u"
    and note_roundtrip [simp]: "note_decode cd (note_encode cd n) = Some n"
    and commitment_bytes: "length k = 32 \<Longrightarrow> commitment_encode cd k = k"
    and commitment_roundtrip: "length k = 32 \<Longrightarrow> commitment_decode cd (commitment_encode cd k) = Some k"
    and outgoing_roundtrip [simp]: "outgoing_decode cd (outgoing_encode cd v) = Some v"
    and receiver_roundtrip [simp]: "receiver_decode cd (receiver_encode cd r) = Some r"
    and sender_roundtrip: "sender_wf s \<Longrightarrow> sender_decode cd (sender_encode cd s) = Some s"
    and receivers_roundtrip [simp]: "receivers_decode cd (receivers_encode cd rs) = Some rs"
    and senders_roundtrip:
      "list_all sender_wf ss \<Longrightarrow> senders_decode cd (senders_encode cd ss) = Some ss"
    and base64_roundtrip [simp]: "base64_decode cd (base64_encode cd bs) = Some bs"

text \<open>
  A concrete codec for one-byte notes, with which the theorems about parameters are applied to
  concrete inputs. A tuple is the concatenation of its components, as in SCALE; a chunk of
  receivers is the concatenation of its two-byte elements, a chunk of senders that of its
  33-byte elements.
\<close>

fun bytes_to_receivers :: "bytes \<Rightarrow> (u8, u8) receiver_chunk option" where
  "bytes_to_receivers [] = Some []"
| "bytes_to_receivers [b] = None"
| "bytes_to_receivers (a # b # bs) = map_option (Cons (a, b)) (bytes_to_receivers bs)"

function bytes_to_senders :: "bytes \<Rightarrow> u8 sender_chunk option" where
  "bytes_to_senders bs =
     (if bs = [] then Some []
      else if length bs < 33 then None
      else map_option (Cons (take 32 bs, bs ! 32)) (bytes_to_senders (drop 33 bs)))"
  by pat_completeness auto
termination
  by (relation "measure length") auto

declare bytes_to_senders.simps [simp del]

definition byte_codec :: "(u8, u8, u8) codec" where
  "byte_codec = \<lparr>
     utxo_encode = (\<lambda>u. [u]),
     utxo_decode = (\<lambda>bs. case bs of [] \<Rightarrow> None | b # _ \<Rightarrow> Some b),
     note_encode = (\<lambda>n. [n]),
     note_decode = (\<lambda>bs. case bs of [] \<Rightarrow> None | b # _ \<Rightarrow> Some b),
     commitment_encode = (\<lambda>k. k),
     commitment_decode = (\<lambda>bs. if length bs < 32 then None else Some (take 32 bs)),
     outgoing_encode = (\<lambda>n. [n]),
     outgoing_decode = (\<lambda>bs. case bs of [] \<Rightarrow> None | b # _ \<Rightarrow> Some b),
     receiver_encode = (\<lambda>(u, n). [u, n]),
     receiver_decode = (\<lambda>bs. case bs of u # n # _ \<Rightarrow> Some (u, n) | _ \<Rightarrow> None),
     sender_encode = (\<lambda>(k, v). k @ [v]),
     sender_decode = (\<lambda>bs. if length bs < 33 then None else Some (take 32 bs, bs ! 32)),
     receivers_encode = (\<lambda>rs. concat (map (\<lambda>(u, n). [u, n]) rs)),
     receivers_decode = bytes_to_receivers,
     senders_encode = (\<lambda>ss. concat (map (\<lambda>(k, v). k @ [v]) ss)),
     senders_decode = bytes_to_senders,
     base64_encode = map (\<lambda>b. char_of (unat b)),
     base64_decode = (\<lambda>s. Some (map (\<lambda>c. word_of_nat (of_char c)) s)) \<rparr>"

lemma bytes_to_receivers_concat:
  "bytes_to_receivers (concat (map (\<lambda>(u, n). [u, n]) rs)) = Some rs"
  by (induction rs) auto

lemma bytes_to_senders_concat:
  "list_all sender_wf ss \<Longrightarrow> bytes_to_senders (concat (map (\<lambda>(k, v). k @ [v]) ss)) = Some ss"
proof (induction ss)
  case Nil
  then show ?case by (simp add: bytes_to_senders.simps)
next
  case (Cons s ss)
  obtain k v where s: "s = (k, v)" by (cases s)
  with Cons.prems have "length k = 32" by (simp add: sender_wf_def)
  then show ?case
    using Cons s by (subst bytes_to_senders.simps) (simp add: nth_append)
qed

lemma word_of_nat_unat_mod_256 [simp]: "word_of_nat (unat b mod 256) = (b :: u8)"
  using unat_bound_u8 [of b] by simp

interpretation one_byte: scale_codec byte_codec
  by unfold_locales
    (auto simp: byte_codec_def sender_wf_def bytes_to_receivers_concat bytes_to_senders_concat
      nth_append comp_def)

end
