(* ===== verification/Cache.thy ===== *)
theory Cache
  imports Ledger_Types
begin

text \<open>
  \<open>src/indexer/cache.rs\<close>: the 64-bit keys of the ledger cache, the batch operations on the
  process-wide LRU cache and on its sharded variant.

  The \<open>lru\<close> crate is third-party code: its operations are the parameter \<open>lru_ops\<close> over an
  abstract cache state \<open>'c\<close>, and its documented behaviour is the locale \<open>lru_crate\<close>, in terms
  of \<open>peek\<close> (a lookup that does not touch the recency order). A later entry may evict any other
  entry, so nothing is assumed about which entries survive. The mutex around a cache makes each
  batch operation one atomic step; the step takes the cache and returns it.

  The contract that the rest of the indexer relies on is the locale \<open>batch_cache\<close>; both the
  single cache and the sharded one satisfy it (the two sublocale declarations).
\<close>

section \<open>The keys\<close>

definition TYPE_PREFIX_BITS :: nat where "TYPE_PREFIX_BITS = 4"
definition SUB_FIELD_BITS :: nat where "SUB_FIELD_BITS = 12"
definition VALUE_FIELD_BITS :: nat where "VALUE_FIELD_BITS = 48"
definition RECEIVER_KEY_PREFIX :: u64 where "RECEIVER_KEY_PREFIX = 1"
definition SENDER_KEY_PREFIX :: u64 where "SENDER_KEY_PREFIX = 2"

text \<open>\<open>LruKeyType::MAX\<close>, \<open><<\<close> and \<open>>>\<close> of the constants, and \<open>u64::wrapping_shl\<close>.\<close>

definition u64_MAX :: u64 where "u64_MAX = -1"

definition wrapping_shl :: "u64 \<Rightarrow> nat \<Rightarrow> u64" where
  "wrapping_shl w n = push_bit (n mod 64) w"

definition TYPE_PREFIX_MASK :: u64 where
  "TYPE_PREFIX_MASK = NOT (drop_bit TYPE_PREFIX_BITS u64_MAX)"

definition SUB_FIELD_MASK :: u64 where
  "SUB_FIELD_MASK = drop_bit TYPE_PREFIX_BITS u64_MAX AND push_bit VALUE_FIELD_BITS u64_MAX"

definition VALUE_MASK :: u64 where
  "VALUE_MASK = NOT (push_bit VALUE_FIELD_BITS u64_MAX)"

definition receiver_key :: "u64 \<Rightarrow> u64 \<Rightarrow> u64" where
  "receiver_key shard_idx utxo_idx =
     (wrapping_shl RECEIVER_KEY_PREFIX (SUB_FIELD_BITS + VALUE_FIELD_BITS) AND TYPE_PREFIX_MASK)
     OR (wrapping_shl shard_idx VALUE_FIELD_BITS AND SUB_FIELD_MASK)
     OR (utxo_idx AND VALUE_MASK)"

definition sender_key :: "u64 \<Rightarrow> u64" where
  "sender_key i =
     (wrapping_shl SENDER_KEY_PREFIX (SUB_FIELD_BITS + VALUE_FIELD_BITS) AND TYPE_PREFIX_MASK)
     OR (i AND VALUE_MASK)"

section \<open>The cache operations\<close>

text \<open>The operations of \<open>lru::LruCache\<close> that the sources call, and \<open>peek\<close> to speak about a state.\<close>

record 'c lru_ops =
  lru_new :: "usize \<Rightarrow> 'c"
  lru_get :: "'c \<Rightarrow> u64 \<Rightarrow> bytes option \<times> 'c"
  lru_put :: "'c \<Rightarrow> u64 \<Rightarrow> bytes \<Rightarrow> 'c"
  lru_len :: "'c \<Rightarrow> usize"
  lru_peek :: "'c \<Rightarrow> u64 \<Rightarrow> bytes option"

text \<open>The initial value of \<open>LEDGER_LRU\<close>.\<close>

definition LEDGER_LRU :: "'c lru_ops \<Rightarrow> 'c" where
  "LEDGER_LRU ops = lru_new ops (1024 * 1024 * 16)"

fun get_batch_lru :: "'c lru_ops \<Rightarrow> 'c \<Rightarrow> u64 list \<Rightarrow> bytes option list \<times> 'c" where
  "get_batch_lru ops cache [] = ([], cache)"
| "get_batch_lru ops cache (key # ks) =
     (let (v, cache1) = lru_get ops cache key;
          (vs, cache2) = get_batch_lru ops cache1 ks
      in (v # vs, cache2))"

fun put_batch_lru :: "'c lru_ops \<Rightarrow> 'c \<Rightarrow> (u64 \<times> bytes) list \<Rightarrow> 'c" where
  "put_batch_lru ops cache [] = cache"
| "put_batch_lru ops cache ((k, v) # kvs) = put_batch_lru ops (lru_put ops cache k v) kvs"

text \<open>\<open>Vec::pop\<close> followed by \<open>unwrap_or_default\<close> on a vector of options.\<close>

definition pop_or_default :: "'a option list \<Rightarrow> 'a option" where
  "pop_or_default vs = (if vs = [] then None else last vs)"

definition get_receiver :: "'c lru_ops \<Rightarrow> 'c \<Rightarrow> u8 \<Rightarrow> usize \<Rightarrow> bytes option \<times> 'c" where
  "get_receiver ops cache shard_idx utxo_idx =
     (let key = receiver_key (ucast shard_idx) utxo_idx;
          (vs, cache') = get_batch_lru ops cache [key]
      in (pop_or_default vs, cache'))"

definition get_sender :: "'c lru_ops \<Rightarrow> 'c \<Rightarrow> usize \<Rightarrow> bytes option \<times> 'c" where
  "get_sender ops cache i =
     (let key = sender_key i;
          (vs, cache') = get_batch_lru ops cache [key]
      in (pop_or_default vs, cache'))"

definition get_batch_shard_receiver ::
  "'c lru_ops \<Rightarrow> 'c \<Rightarrow> u8 \<Rightarrow> usize list \<Rightarrow> bytes option list \<times> 'c" where
  "get_batch_shard_receiver ops cache shard_idx utxo_idxs =
     get_batch_lru ops cache (map (\<lambda>i. receiver_key (ucast shard_idx) i) utxo_idxs)"

definition get_batch_sender :: "'c lru_ops \<Rightarrow> 'c \<Rightarrow> usize list \<Rightarrow> bytes option list \<times> 'c" where
  "get_batch_sender ops cache sender_idxs = get_batch_lru ops cache (map sender_key sender_idxs)"

definition put_receiver :: "'c lru_ops \<Rightarrow> 'c \<Rightarrow> u8 \<Rightarrow> usize \<Rightarrow> bytes \<Rightarrow> 'c" where
  "put_receiver ops cache shard_idx utxo_idx r =
     put_batch_lru ops cache [(receiver_key (ucast shard_idx) utxo_idx, r)]"

text \<open>The index of \<open>put_sender\<close> is a \<open>u8\<close> in the source.\<close>

definition put_sender :: "'c lru_ops \<Rightarrow> 'c \<Rightarrow> u8 \<Rightarrow> bytes \<Rightarrow> 'c" where
  "put_sender ops cache sender_idx s = put_batch_lru ops cache [(sender_key (ucast sender_idx), s)]"

definition put_batch_receiver :: "'c lru_ops \<Rightarrow> 'c \<Rightarrow> u8 \<Rightarrow> (usize \<times> bytes) list \<Rightarrow> 'c" where
  "put_batch_receiver ops cache shard_idx r =
     put_batch_lru ops cache (map (\<lambda>(i, v). (receiver_key (ucast shard_idx) i, v)) r)"

definition put_batch_sender :: "'c lru_ops \<Rightarrow> 'c \<Rightarrow> (usize \<times> bytes) list \<Rightarrow> 'c" where
  "put_batch_sender ops cache s = put_batch_lru ops cache (map (\<lambda>(i, v). (sender_key i, v)) s)"

definition lru_size :: "'c lru_ops \<Rightarrow> 'c \<Rightarrow> usize" where
  "lru_size ops cache = lru_len ops cache"

section \<open>The sharded cache\<close>

record 'c shard_thread_safe_lru =
  shard_num :: usize
  maps :: "'c list"

definition LEDGER_LRU2 :: "'c lru_ops \<Rightarrow> 'c shard_thread_safe_lru" where
  "LEDGER_LRU2 ops = \<lparr>shard_num = 32, maps = replicate 32 (lru_new ops (512 * 1024))\<rparr>"

text \<open>
  \<open>key as usize % self.shard_num\<close>; Rust panics on a zero divisor, and on an index of \<open>maps\<close>
  out of range.
\<close>

definition shard_id :: "'c shard_thread_safe_lru \<Rightarrow> u64 \<Rightarrow> anyhow_error + usize" where
  "shard_id self key =
     (if shard_num self = 0 then Inl (Panic ''remainder with a divisor of zero'')
      else Inr (key mod shard_num self))"

fun with_shard_ids ::
  "'c shard_thread_safe_lru \<Rightarrow> ('a \<Rightarrow> u64) \<Rightarrow> 'a list \<Rightarrow> anyhow_error + (usize \<times> 'a) list" where
  "with_shard_ids self key [] = Inr []"
| "with_shard_ids self key (x # xs) =
     bindE (shard_id self (key x)) (\<lambda>sid.
     bindE (with_shard_ids self key xs) (\<lambda>rest. Inr ((sid, x) # rest)))"

definition lock_map :: "'c shard_thread_safe_lru \<Rightarrow> usize \<Rightarrow> anyhow_error + 'c" where
  "lock_map self i =
     (if unat i < length (maps self) then Inr (maps self ! unat i)
      else Inl (Panic ''index out of bounds''))"

text \<open>
  \<open>batch_get\<close>: the keys, tagged with their position, are grouped by shard; each shard is locked
  once and its values are written to their positions of the result. \<open>ord\<close> is the iteration
  order of the hash map of groups.
\<close>

fun get_into :: "'c lru_ops \<Rightarrow> 'c \<Rightarrow> (nat \<times> u64) list \<Rightarrow> bytes option list \<Rightarrow> bytes option list \<times> 'c" where
  "get_into ops cache [] result = (result, cache)"
| "get_into ops cache ((pos, key) # ks) result =
     (let (v, cache') = lru_get ops cache key in get_into ops cache' ks (result[pos := v]))"

definition get_groups ::
  "'c lru_ops \<Rightarrow> bytes option list \<times> 'c shard_thread_safe_lru \<Rightarrow> (usize \<times> (nat \<times> u64) list) list \<Rightarrow>
   anyhow_error + bytes option list \<times> 'c shard_thread_safe_lru" where
  "get_groups ops =
     foldE (\<lambda>(result, self) (shard, ks).
       bindE (lock_map self shard) (\<lambda>cache.
         let (result', cache') = get_into ops cache ks result
         in Inr (result', self\<lparr>maps := (maps self)[unat shard := cache']\<rparr>)))"

definition batch_get ::
  "'c lru_ops \<Rightarrow> ((usize \<times> (nat \<times> u64) list) list \<Rightarrow> (usize \<times> (nat \<times> u64) list) list) \<Rightarrow>
   'c shard_thread_safe_lru \<Rightarrow> u64 list \<Rightarrow> anyhow_error + bytes option list \<times> 'c shard_thread_safe_lru" where
  "batch_get ops ord self keys =
     (let result = replicate (length keys) None in
      bindE (with_shard_ids self snd (enumerate 0 keys)) (\<lambda>tagged.
        let shard_keys = push_all tagged [] in get_groups ops (result, self) (ord shard_keys)))"

definition put_groups ::
  "'c lru_ops \<Rightarrow> 'c shard_thread_safe_lru \<Rightarrow> (usize \<times> (u64 \<times> bytes) list) list \<Rightarrow>
   anyhow_error + 'c shard_thread_safe_lru" where
  "put_groups ops =
     foldE (\<lambda>self (shard, vs).
       bindE (lock_map self shard) (\<lambda>cache.
         Inr (self\<lparr>maps := (maps self)[unat shard := put_batch_lru ops cache vs]\<rparr>)))"

definition batch_put ::
  "'c lru_ops \<Rightarrow> ((usize \<times> (u64 \<times> bytes) list) list \<Rightarrow> (usize \<times> (u64 \<times> bytes) list) list) \<Rightarrow>
   'c shard_thread_safe_lru \<Rightarrow> (u64 \<times> bytes) list \<Rightarrow> anyhow_error + 'c shard_thread_safe_lru" where
  "batch_put ops ord self v =
     bindE (with_shard_ids self fst v) (\<lambda>tagged.
       let shard_vs = push_all tagged [] in put_groups ops self (ord shard_vs))"

section \<open>Contracts\<close>

text \<open>
  What the documentation of the \<open>lru\<close> crate promises: \<open>get\<close> returns what \<open>peek\<close> would and
  changes the recency order only; \<open>put\<close> stores the entry and may drop others.
\<close>

locale lru_crate =
  fixes ops :: "'c lru_ops"
  assumes new_empty: "0 < cap \<Longrightarrow> lru_peek ops (lru_new ops cap) k = None"
    and get_value: "fst (lru_get ops c k) = lru_peek ops c k"
    and get_frame: "lru_peek ops (snd (lru_get ops c k)) k' = lru_peek ops c k'"
    and put_same: "lru_peek ops (lru_put ops c k v) k = Some v"
    and put_other: "k' \<noteq> k \<Longrightarrow>
      lru_peek ops (lru_put ops c k v) k' = lru_peek ops c k' \<or> lru_peek ops (lru_put ops c k v) k' = None"

text \<open>
  What the indexer relies on: a batch lookup answers every key in its position and changes no
  entry; after a batch insertion an entry is the one that was there, or one of those inserted.
\<close>

locale batch_cache =
  fixes get_batch :: "'s \<Rightarrow> u64 list \<Rightarrow> anyhow_error + bytes option list \<times> 's"
    and put_batch :: "'s \<Rightarrow> (u64 \<times> bytes) list \<Rightarrow> anyhow_error + 's"
    and view :: "'s \<Rightarrow> u64 \<Rightarrow> bytes option"
    and inv :: "'s \<Rightarrow> bool"
  assumes get_batch_ok: "inv c \<Longrightarrow>
      \<exists>c'. get_batch c ks = Inr (map (view c) ks, c') \<and> inv c' \<and> (\<forall>k. view c' k = view c k)"
    and put_batch_ok: "inv c \<Longrightarrow>
      \<exists>c'. put_batch c kvs = Inr c' \<and> inv c' \<and>
        (\<forall>k v. view c' k = Some v \<longrightarrow> view c k = Some v \<or> (k, v) \<in> set kvs)"
begin

text \<open>
  Coherence with a store: every cached entry is the one the store assigns to its key. Lookups
  keep it, and so do insertions of entries that agree with the store.
\<close>

definition coherent :: "(u64 \<Rightarrow> bytes \<Rightarrow> bool) \<Rightarrow> 's \<Rightarrow> bool" where
  "coherent good c \<longleftrightarrow> (\<forall>k v. view c k = Some v \<longrightarrow> good k v)"

lemma get_batch_coherent:
  assumes "inv c" and "coherent good c"
  shows "\<exists>vs c'. get_batch c ks = Inr (vs, c') \<and> inv c' \<and> coherent good c' \<and>
    list_all2 (\<lambda>k v. \<forall>b. v = Some b \<longrightarrow> good k b) ks vs"
proof -
  from get_batch_ok [OF assms(1)] obtain c' where
    c': "get_batch c ks = Inr (map (view c) ks, c')" "inv c'" "\<forall>k. view c' k = view c k"
    by blast
  have "list_all2 (\<lambda>k v. \<forall>b. v = Some b \<longrightarrow> good k b) ks (map (view c) ks)"
    using assms(2) by (auto simp: list_all2_conv_all_nth coherent_def)
  then show ?thesis using c' assms(2) by (auto simp: coherent_def)
qed

lemma put_batch_coherent:
  assumes "inv c" and "coherent good c" and "\<And>k v. (k, v) \<in> set kvs \<Longrightarrow> good k v"
  shows "\<exists>c'. put_batch c kvs = Inr c' \<and> inv c' \<and> coherent good c'"
proof -
  from put_batch_ok [OF assms(1)] obtain c' where
    "put_batch c kvs = Inr c'" "inv c'"
    "\<forall>k v. view c' k = Some v \<longrightarrow> view c k = Some v \<or> (k, v) \<in> set kvs"
    by blast
  then show ?thesis using assms(2,3) unfolding coherent_def by blast
qed

end

section \<open>Lemmas: the keys\<close>

lemmas key_consts = TYPE_PREFIX_BITS_def SUB_FIELD_BITS_def VALUE_FIELD_BITS_def
  RECEIVER_KEY_PREFIX_def SENDER_KEY_PREFIX_def u64_MAX_def wrapping_shl_def
  TYPE_PREFIX_MASK_def SUB_FIELD_MASK_def VALUE_MASK_def

lemma key_fields_receiver:
  "drop_bit 60 (receiver_key s i) = 1"
  "take_bit 12 (drop_bit 48 (receiver_key s i)) = take_bit 12 s"
  "take_bit 48 (receiver_key s i) = take_bit 48 i"
  by (rule bit_word_eqI; auto simp: receiver_key_def key_consts bit_simps)+

lemma key_fields_sender:
  "drop_bit 60 (sender_key i) = 2"
  "take_bit 48 (sender_key i) = take_bit 48 i"
  by (rule bit_word_eqI; auto simp: sender_key_def key_consts bit_simps)+

lemma test_key: "receiver_key 10 234523 = 1155736254374188059" "sender_key 234588 = 2305843009213928540"
  by (simp_all add: receiver_key_def sender_key_def key_consts mask_eq_exp_minus_1)

lemma take_bit_48_eq_id: "unat i < 2 ^ 48 \<Longrightarrow> take_bit 48 i = (i :: u64)"
  by (rule word_unat_eq_iff [THEN iffD2]) (simp add: unsigned_take_bit_eq take_bit_nat_eq_self)

lemma take_bit_12_ucast [simp]: "take_bit 12 (ucast (s :: u8)) = (ucast s :: u64)"
  by (rule bit_word_eqI) (auto simp: bit_simps dest: bit_imp_le_length)

lemma ucast_u8_inject [simp]: "(ucast (s :: u8) :: u64) = ucast s' \<longleftrightarrow> s = s'"
proof
  assume "(ucast s :: u64) = ucast s'"
  then have "(ucast (ucast s :: u64) :: u8) = ucast (ucast s' :: u64)" by simp
  then show "s = s'" by (simp add: ucast_up_ucast_id is_up)
qed simp

section \<open>Lemmas: the single cache\<close>

lemma list_update_foldl_length [simp]:
  "length (foldl (\<lambda>r (p, k). r[p := f k]) r ks) = length r"
  by (induction ks arbitrary: r) auto

context lru_crate
begin

lemma get_batch_lru_eq:
  "fst (get_batch_lru ops c ks) = map (lru_peek ops c) ks \<and>
   (\<forall>k. lru_peek ops (snd (get_batch_lru ops c ks)) k = lru_peek ops c k)"
proof (induction ks arbitrary: c)
  case (Cons k ks)
  show ?case
    using Cons.IH [of "snd (lru_get ops c k)"] get_value [of c k] get_frame [of c k]
    by (simp add: Let_def split_beta)
qed simp

lemma put_batch_lru_peek:
  "lru_peek ops (put_batch_lru ops c kvs) k = Some v \<Longrightarrow>
   lru_peek ops c k = Some v \<or> (k, v) \<in> set kvs"
proof (induction kvs arbitrary: c)
  case (Cons kv kvs)
  obtain k' v' where kv: "kv = (k', v')" by (cases kv)
  from Cons.IH [of "lru_put ops c k' v'"] Cons.prems kv
  have "lru_peek ops (lru_put ops c k' v') k = Some v \<or> (k, v) \<in> set kvs" by simp
  then show ?case
    using put_same [of c k' v'] put_other [of k k' c v'] kv by (cases "k = k'") auto
qed simp

lemma put_batch_lru_last:
  "lru_peek ops (put_batch_lru ops c (kvs @ [(k, v)])) k = Some v"
  by (induction kvs arbitrary: c) (auto simp: put_same)

lemma get_into_eq:
  "fst (get_into ops c ks r) = foldl (\<lambda>r (p, k). r[p := lru_peek ops c k]) r ks \<and>
   (\<forall>k. lru_peek ops (snd (get_into ops c ks r)) k = lru_peek ops c k)"
proof (induction ks arbitrary: c r)
  case (Cons pk ks)
  obtain p k where pk: "pk = (p, k)" by (cases pk)
  show ?case
    using Cons.IH [of "snd (lru_get ops c k)" "r[p := lru_peek ops c k]"]
      get_value [of c k] get_frame [of c k] pk
    by (simp add: Let_def split_beta)
qed simp

end

sublocale lru_crate \<subseteq> single: batch_cache
  "\<lambda>c ks. Inr (get_batch_lru ops c ks)" "\<lambda>c kvs. Inr (put_batch_lru ops c kvs)"
  "lru_peek ops" "\<lambda>_. True"
proof (unfold_locales, goal_cases)
  case (1 c ks)
  show ?case
    using get_batch_lru_eq [of c ks] by (metis prod.collapse)
next
  case (2 c kvs)
  show ?case using put_batch_lru_peek by blast
qed

section \<open>Lemmas: the sharded cache\<close>

text \<open>A key lives in the shard of its remainder.\<close>

definition shard_wf :: "'c shard_thread_safe_lru \<Rightarrow> bool" where
  "shard_wf self \<longleftrightarrow> 0 < unat (shard_num self) \<and> unat (shard_num self) = length (maps self)"

definition shard_peek :: "'c lru_ops \<Rightarrow> 'c shard_thread_safe_lru \<Rightarrow> u64 \<Rightarrow> bytes option" where
  "shard_peek ops self k = lru_peek ops (maps self ! unat (k mod shard_num self)) k"

lemma with_shard_ids_ok:
  "shard_wf self \<Longrightarrow> with_shard_ids self key xs = Inr (map (\<lambda>x. (key x mod shard_num self, x)) xs)"
  by (induction xs) (auto simp: shard_wf_def shard_id_def)

lemma lock_map_ok:
  "shard_wf self \<Longrightarrow> lock_map self (k mod shard_num self) = Inr (maps self ! unat (k mod shard_num self))"
  by (auto simp: shard_wf_def lock_map_def unat_mod)

lemma group_of_tagged:
  "x \<in> set (group_of (map (\<lambda>x. (f x, x)) xs) k) \<longleftrightarrow> x \<in> set xs \<and> f x = k"
  by (induction xs) auto

lemma concat_groups_set:
  assumes "set gs = {(sid, group_of (map (\<lambda>x. (f x, x)) xs) sid) |sid.
    group_of (map (\<lambda>x. (f x, x)) xs) sid \<noteq> []}"
  shows "set (concat (map snd gs)) = set xs"
proof -
  have "x \<in> set (concat (map snd gs))" if "x \<in> set xs" for x
  proof -
    from that have x: "x \<in> set (group_of (map (\<lambda>x. (f x, x)) xs) (f x))"
      by (simp add: group_of_tagged)
    then have "(f x, group_of (map (\<lambda>x. (f x, x)) xs) (f x)) \<in> set gs"
      unfolding assms by auto
    with x show ?thesis by (auto intro!: bexI)
  qed
  moreover have "x \<in> set xs" if "x \<in> set (concat (map snd gs))" for x
    using that assms by (auto simp: group_of_tagged)
  ultimately show ?thesis by blast
qed

lemma nth_foldl_update:
  assumes "\<And>p k. (p, k) \<in> set ks \<Longrightarrow> f k = g p" and "i < length r"
  shows "foldl (\<lambda>r (p, k). r[p := f k]) r ks ! i = (if i \<in> fst ` set ks then g i else r ! i)"
  using assms
proof (induction ks arbitrary: r)
  case (Cons pk ks)
  obtain p k where pk: "pk = (p, k)" by (cases pk)
  have "f k = g p" using Cons.prems pk by simp
  then show ?case
    using Cons pk by (auto simp: nth_list_update)
qed simp

lemma unat_mod_bound: "shard_wf self \<Longrightarrow> unat (k mod shard_num self) < length (maps self)"
  by (auto simp: shard_wf_def unat_mod)

context lru_crate
begin

lemma get_groups_ok:
  assumes "shard_wf self"
    and "\<And>sid ks p k. (sid, ks) \<in> set gs \<Longrightarrow> (p, k) \<in> set ks \<Longrightarrow> k mod shard_num self = sid"
    and "\<And>sid ks. (sid, ks) \<in> set gs \<Longrightarrow> ks \<noteq> []"
  shows "\<exists>self'. get_groups ops (r, self) gs =
      Inr (foldl (\<lambda>r (p, k). r[p := shard_peek ops self k]) r (concat (map snd gs)), self') \<and>
    shard_wf self' \<and> (\<forall>k. shard_peek ops self' k = shard_peek ops self k)"
  using assms
proof (induction gs arbitrary: r self)
  case Nil
  then show ?case by (auto simp: get_groups_def)
next
  case (Cons g gs)
  obtain sid ks where g: "g = (sid, ks)" by (cases g)
  from Cons.prems(3) g have "ks \<noteq> []" by auto
  then obtain p k where "(p, k) \<in> set ks" by (metis list.set_intros(1) neq_Nil_conv surj_pair)
  with Cons.prems(2) g have sid: "sid = k mod shard_num self" by auto
  define c where "c = maps self ! unat sid"
  define c' where "c' = snd (get_into ops c ks r)"
  define self1 where "self1 = self\<lparr>maps := (maps self)[unat sid := c']\<rparr>"
  have bound: "unat sid < length (maps self)"
    using unat_mod_bound [OF Cons.prems(1)] sid by simp
  have wf1: "shard_wf self1" and num1: "shard_num self1 = shard_num self"
    using Cons.prems(1) by (auto simp: self1_def shard_wf_def)
  have peek1: "shard_peek ops self1 k = shard_peek ops self k" for k
    using get_into_eq [of c ks r] bound
    by (cases "unat (k mod shard_num self) = unat sid")
      (auto simp: shard_peek_def self1_def c'_def c_def)
  have fill: "foldl (\<lambda>r (p, k). r[p := lru_peek ops c k]) r ks =
      foldl (\<lambda>r (p, k). r[p := shard_peek ops self k]) r ks"
    using Cons.prems(2) g by (intro foldl_cong) (auto simp: shard_peek_def c_def)
  have "get_groups ops (r, self) (g # gs) =
      get_groups ops (foldl (\<lambda>r (p, k). r[p := shard_peek ops self k]) r ks, self1) gs"
    using get_into_eq [of c ks r] fill lock_map_ok [OF Cons.prems(1), of k] sid g
    by (simp add: get_groups_def split_beta c_def self1_def c'_def)
  moreover have "\<exists>self'. get_groups ops (foldl (\<lambda>r (p, k). r[p := shard_peek ops self k]) r ks, self1) gs =
      Inr (foldl (\<lambda>r (p, k). r[p := shard_peek ops self1 k])
        (foldl (\<lambda>r (p, k). r[p := shard_peek ops self k]) r ks) (concat (map snd gs)), self') \<and>
    shard_wf self' \<and> (\<forall>k. shard_peek ops self' k = shard_peek ops self1 k)"
    using Cons.prems(2,3) num1 by (intro Cons.IH wf1) (metis list.set_intros(2))+
  ultimately show ?case using g by (simp add: peek1)
qed

lemma put_groups_ok:
  assumes "shard_wf self"
    and "\<And>sid vs k v. (sid, vs) \<in> set gs \<Longrightarrow> (k, v) \<in> set vs \<Longrightarrow> k mod shard_num self = sid"
    and "\<And>sid vs. (sid, vs) \<in> set gs \<Longrightarrow> vs \<noteq> []"
  shows "\<exists>self'. put_groups ops self gs = Inr self' \<and> shard_wf self' \<and>
    (\<forall>k v. shard_peek ops self' k = Some v \<longrightarrow>
       shard_peek ops self k = Some v \<or> (k, v) \<in> set (concat (map snd gs)))"
  using assms
proof (induction gs arbitrary: self)
  case Nil
  then show ?case by (auto simp: put_groups_def)
next
  case (Cons g gs)
  obtain sid vs where g: "g = (sid, vs)" by (cases g)
  from Cons.prems(3) g have "vs \<noteq> []" by auto
  then obtain k v where "(k, v) \<in> set vs" by (metis list.set_intros(1) neq_Nil_conv surj_pair)
  with Cons.prems(2) g have sid: "sid = k mod shard_num self" by auto
  define self1 where
    "self1 = self\<lparr>maps := (maps self)[unat sid := put_batch_lru ops (maps self ! unat sid) vs]\<rparr>"
  have bound: "unat sid < length (maps self)"
    using unat_mod_bound [OF Cons.prems(1)] sid by simp
  have wf1: "shard_wf self1" and num1: "shard_num self1 = shard_num self"
    using Cons.prems(1) by (auto simp: self1_def shard_wf_def)
  have peek1: "shard_peek ops self k = Some v \<or> (k, v) \<in> set vs"
    if "shard_peek ops self1 k = Some v" for k v
    using that put_batch_lru_peek [of "maps self ! unat sid" vs k v] bound
    by (cases "unat (k mod shard_num self) = unat sid") (auto simp: shard_peek_def self1_def)
  have "put_groups ops self (g # gs) = put_groups ops self1 gs"
    using lock_map_ok [OF Cons.prems(1), of k] sid g
    by (simp add: put_groups_def self1_def)
  moreover have "\<exists>self'. put_groups ops self1 gs = Inr self' \<and> shard_wf self' \<and>
    (\<forall>k v. shard_peek ops self' k = Some v \<longrightarrow>
       shard_peek ops self1 k = Some v \<or> (k, v) \<in> set (concat (map snd gs)))"
    using Cons.prems(2,3) num1 by (intro Cons.IH wf1) (metis list.set_intros(2))+
  ultimately show ?case using g peek1 by fastforce
qed

end

locale sharded_lru = lru_crate ops
  for ops :: "'c lru_ops" +
  fixes ord_get :: "(usize \<times> (nat \<times> u64) list) list \<Rightarrow> (usize \<times> (nat \<times> u64) list) list"
    and ord_put :: "(usize \<times> (u64 \<times> bytes) list) list \<Rightarrow> (usize \<times> (u64 \<times> bytes) list) list"
  assumes ord_get: "visits_each_once ord_get" and ord_put: "visits_each_once ord_put"
begin

lemma batch_get_ok:
  assumes "shard_wf self"
  shows "\<exists>self'. batch_get ops ord_get self ks = Inr (map (shard_peek ops self) ks, self') \<and>
    shard_wf self' \<and> (\<forall>k. shard_peek ops self' k = shard_peek ops self k)"
proof -
  define tagged where "tagged = map (\<lambda>x. (snd x mod shard_num self, x)) (enumerate 0 ks)"
  define gs where "gs = ord_get (push_all tagged [])"
  have gs: "set gs = {(sid, group_of tagged sid) |sid. group_of tagged sid \<noteq> []}"
    by (simp add: gs_def visits_each_once_props(2) [OF ord_get] push_all_entries)
  have mem: "x \<in> set (group_of tagged sid) \<longleftrightarrow> x \<in> set (enumerate 0 ks) \<and> snd x mod shard_num self = sid"
    for x sid
    unfolding tagged_def by (rule group_of_tagged)
  have flat: "set (concat (map snd gs)) = set (enumerate 0 ks)"
    unfolding tagged_def by (rule concat_groups_set) (simp add: gs tagged_def)
  have member: "k mod shard_num self = sid" if "(sid, qs) \<in> set gs" "(p, k) \<in> set qs" for sid qs p k
    using that mem [of "(p, k)" sid] by (auto simp: gs)
  have nonempty: "qs \<noteq> []" if "(sid, qs) \<in> set gs" for sid qs
    using that by (auto simp: gs)
  obtain self' where self':
    "get_groups ops (replicate (length ks) None, self) gs =
      Inr (foldl (\<lambda>r (p, k). r[p := shard_peek ops self k]) (replicate (length ks) None)
        (concat (map snd gs)), self')"
    "shard_wf self'" "\<forall>k. shard_peek ops self' k = shard_peek ops self k"
    using get_groups_ok [OF assms, of gs] member nonempty by blast
  have "foldl (\<lambda>r (p, k). r[p := shard_peek ops self k]) (replicate (length ks) None)
      (concat (map snd gs)) = map (shard_peek ops self) ks"
  proof (rule nth_equalityI)
    fix i assume "i < length (foldl (\<lambda>r (p, k). r[p := shard_peek ops self k])
      (replicate (length ks) None) (concat (map snd gs)))"
    then have i: "i < length ks" by simp
    have "i \<in> fst ` set (concat (map snd gs))"
      unfolding flat using i by (simp flip: list.set_map)
    moreover have "shard_peek ops self k = shard_peek ops self (ks ! p)"
      if "(p, k) \<in> set (concat (map snd gs))" for p k
      using that unfolding flat by (simp add: in_set_enumerate_eq)
    ultimately show "foldl (\<lambda>r (p, k). r[p := shard_peek ops self k])
        (replicate (length ks) None) (concat (map snd gs)) ! i = map (shard_peek ops self) ks ! i"
      using i by (subst nth_foldl_update [where g = "\<lambda>p. shard_peek ops self (ks ! p)"]) auto
  qed simp
  then show ?thesis
    using self' with_shard_ids_ok [OF assms, of snd "enumerate 0 ks"]
    by (simp add: batch_get_def tagged_def gs_def)
qed

lemma batch_put_ok:
  assumes "shard_wf self"
  shows "\<exists>self'. batch_put ops ord_put self kvs = Inr self' \<and> shard_wf self' \<and>
    (\<forall>k v. shard_peek ops self' k = Some v \<longrightarrow> shard_peek ops self k = Some v \<or> (k, v) \<in> set kvs)"
proof -
  define tagged where "tagged = map (\<lambda>x. (fst x mod shard_num self, x)) kvs"
  define gs where "gs = ord_put (push_all tagged [])"
  have gs: "set gs = {(sid, group_of tagged sid) |sid. group_of tagged sid \<noteq> []}"
    by (simp add: gs_def visits_each_once_props(2) [OF ord_put] push_all_entries)
  have mem: "x \<in> set (group_of tagged sid) \<longleftrightarrow> x \<in> set kvs \<and> fst x mod shard_num self = sid" for x sid
    unfolding tagged_def by (rule group_of_tagged)
  have flat: "set (concat (map snd gs)) = set kvs"
    unfolding tagged_def by (rule concat_groups_set) (simp add: gs tagged_def)
  have member: "k mod shard_num self = sid" if "(sid, vs) \<in> set gs" "(k, v) \<in> set vs" for sid vs k v
    using that mem [of "(k, v)" sid] by (auto simp: gs)
  have nonempty: "vs \<noteq> []" if "(sid, vs) \<in> set gs" for sid vs
    using that by (auto simp: gs)
  have "batch_put ops ord_put self kvs = put_groups ops self gs"
    using with_shard_ids_ok [OF assms, of fst kvs] by (simp add: batch_put_def tagged_def gs_def)
  moreover have "\<exists>self'. put_groups ops self gs = Inr self' \<and> shard_wf self' \<and>
    (\<forall>k v. shard_peek ops self' k = Some v \<longrightarrow>
       shard_peek ops self k = Some v \<or> (k, v) \<in> set (concat (map snd gs)))"
    using put_groups_ok [OF assms, of gs] member nonempty by blast
  ultimately show ?thesis unfolding flat by simp
qed

end

sublocale sharded_lru \<subseteq> sharded: batch_cache
  "batch_get ops ord_get" "batch_put ops ord_put" "shard_peek ops" shard_wf
  by unfold_locales (rule batch_get_ok batch_put_ok, assumption)+


section \<open>A bounded least-recently-used cache\<close>

text \<open>
  A concrete cache that keeps its entries in recency order and drops the last one when it is
  full; the capacity is one more than \<open>spare\<close>. It satisfies the contract of the crate, and the
  theorems with that hypothesis are applied to it.
\<close>

record recency_list =
  spare :: nat
  entries :: "(u64 \<times> bytes) list"

definition recency_lru :: "recency_list lru_ops" where
  "recency_lru = \<lparr>
     lru_new = (\<lambda>cap. \<lparr>spare = unat cap - 1, entries = []\<rparr>),
     lru_get = (\<lambda>c k. case map_of (entries c) k of None \<Rightarrow> (None, c)
       | Some v \<Rightarrow> (Some v, c\<lparr>entries := (k, v) # filter (\<lambda>e. fst e \<noteq> k) (entries c)\<rparr>)),
     lru_put = (\<lambda>c k v.
       c\<lparr>entries := take (Suc (spare c)) ((k, v) # filter (\<lambda>e. fst e \<noteq> k) (entries c))\<rparr>),
     lru_len = (\<lambda>c. word_of_nat (length (entries c))),
     lru_peek = (\<lambda>c k. map_of (entries c) k)\<rparr>"

lemma map_of_filter_neq [simp]:
  "map_of (filter (\<lambda>e. fst e \<noteq> k) es) k' = (if k' = k then None else map_of es k')"
  by (induction es) auto

lemma map_of_take: "map_of (take n es) k = map_of es k \<or> map_of (take n es) k = None"
proof (induction es arbitrary: n)
  case (Cons e es)
  then show ?case by (cases n) (auto split: if_splits)
qed simp

interpretation recency: lru_crate recency_lru
proof (unfold_locales, goal_cases)
  case (3 c k k')
  show ?case by (auto simp: recency_lru_def split: option.splits)
next
  case (5 k' k c v)
  then show ?case
    using map_of_take [of "spare c" "filter (\<lambda>e. fst e \<noteq> k) (entries c)" k']
    by (auto simp: recency_lru_def)
qed (auto simp: recency_lru_def split: option.splits)

interpretation recency_sharded: sharded_lru recency_lru "\<lambda>m. m" rev
  by unfold_locales (simp_all add: visits_each_once_def)

section \<open>Properties\<close>

lemma key_of_take_bit:
  "receiver_key s (take_bit 48 i) = receiver_key s i" "sender_key (take_bit 48 i) = sender_key i"
  by (rule bit_word_eqI; auto simp: receiver_key_def sender_key_def key_consts bit_simps)+

lemma receiver_key_eq_iff:
  "receiver_key (ucast (s :: u8)) i = receiver_key (ucast (s' :: u8)) j \<longleftrightarrow>
     s = s' \<and> take_bit 48 i = take_bit 48 j"
proof
  assume eq: "receiver_key (ucast s) i = receiver_key (ucast s') j"
  show "s = s' \<and> take_bit 48 i = take_bit 48 j"
    using arg_cong [OF eq, of "\<lambda>k. take_bit 12 (drop_bit 48 k)"] arg_cong [OF eq, of "take_bit 48"]
    by (simp add: key_fields_receiver)
qed (metis key_of_take_bit(1))

lemma sender_key_eq_iff: "sender_key i = sender_key j \<longleftrightarrow> take_bit 48 i = take_bit 48 j"
  by (metis key_fields_sender(2) key_of_take_bit(2))

lemma receiver_key_neq_sender_key: "receiver_key s i \<noteq> sender_key j"
  using key_fields_receiver(1) [of s i] key_fields_sender(1) [of j] by auto

text \<open>
  C14. Which items share a cache key: a receiver and a sender never do; two receivers do exactly
  when they are in the same shard and their indices agree in the low 48 bits; two senders exactly
  when their indices agree in the low 48 bits. The shard field, 12 bits wide, loses nothing of a
  \<open>u8\<close>.
\<close>

theorem cache_keys_collide_iff:
  fixes s s' :: u8 and i j :: usize
  shows "(receiver_key (ucast s) i = receiver_key (ucast s') j \<longleftrightarrow>
      s = s' \<and> unat i mod 2 ^ 48 = unat j mod 2 ^ 48)
    \<and> (sender_key i = sender_key j \<longleftrightarrow> unat i mod 2 ^ 48 = unat j mod 2 ^ 48)
    \<and> receiver_key (ucast s) i \<noteq> sender_key j"
proof -
  have "take_bit 48 i = take_bit 48 j \<longleftrightarrow> unat i mod 2 ^ 48 = unat j mod 2 ^ 48"
    by (simp add: word_unat_eq_iff unsigned_take_bit_eq take_bit_nat_def)
  then show ?thesis
    by (simp add: receiver_key_eq_iff sender_key_eq_iff receiver_key_neq_sender_key)
qed

text \<open>
  C15. The sharded cache answers like the single one: whatever the iteration order of the hash map
  of groups, a batch lookup on a well-formed sharded cache never panics and returns, key by key and
  in the order of the request, what \<open>get_batch_lru\<close> returns on a single cache with the same
  entries; afterwards the two caches still have the same entries.
\<close>

theorem batch_get_matches_single:
  assumes "lru_crate ops" and "visits_each_once ord" and "shard_wf self"
    and "\<forall>k. shard_peek ops self k = lru_peek ops cache k"
  shows "\<exists>self'. batch_get ops ord self ks = Inr (fst (get_batch_lru ops cache ks), self') \<and> shard_wf self' \<and>
    (\<forall>k. shard_peek ops self' k = lru_peek ops (snd (get_batch_lru ops cache ks)) k)"
proof -
  from assms(1,2) have sh: "sharded_lru ops ord (\<lambda>m. m)"
    by (simp add: sharded_lru_def sharded_lru_axioms_def visits_each_once_def)
  have "shard_peek ops self = lru_peek ops cache"
    using assms(4) by (simp add: fun_eq_iff)
  then show ?thesis
    using sharded_lru.batch_get_ok [OF sh assms(3), of ks] lru_crate.get_batch_lru_eq [OF assms(1), of cache ks]
    by auto
qed

definition demo_sharded :: "recency_list shard_thread_safe_lru" where
  "demo_sharded = \<lparr>shard_num = 2, maps =
     [\<lparr>spare = 1, entries = [(4, [40])]\<rparr>, \<lparr>spare = 1, entries = [(7, [70]), (5, [50])]\<rparr>]\<rparr>"

definition demo_single :: recency_list where
  "demo_single = \<lparr>spare = 5, entries = [(5, [50]), (4, [40]), (7, [70])]\<rparr>"

lemma demo_same_entries: "shard_peek recency_lru demo_sharded k = lru_peek recency_lru demo_single k"
proof -
  have "unat (k mod 2) = 0 \<or> unat (k mod 2) = 1"
    by (auto simp: unat_mod)
  moreover have "unat (k mod 2) = 1" if "k \<in> {5, 7}"
    using that by auto
  moreover have "unat (k mod 2) = 0" if "k = 4"
    using that by simp
  ultimately show ?thesis
    by (auto simp: shard_peek_def recency_lru_def demo_sharded_def demo_single_def)
qed

theorem batch_get_matches_single_witness:
  "\<exists>self'. batch_get recency_lru rev demo_sharded [5, 9, 4] = Inr ([Some [50], None, Some [40]], self')"
proof -
  have "fst (get_batch_lru recency_lru demo_single [5, 9, 4]) = [Some [50], None, Some [40]]"
    by (simp add: recency_lru_def demo_single_def)
  then show ?thesis
    using batch_get_matches_single [OF recency.lru_crate_axioms, of rev demo_sharded demo_single "[5, 9, 4]"]
      demo_same_entries
    by (auto simp: visits_each_once_def shard_wf_def demo_sharded_def)
qed

end
