(* ===== verification/Db.thy ===== *)
theory Db
  imports Ledger_Types
begin

text \<open>
  \<open>src/db.rs\<close>: the three SQLite tables and every query of the module.

  SQLite and \<open>sqlx\<close> are third-party code. The text of each statement is in the sources and the
  tables are declared in \<open>migrations/0_schema.sql\<close>; a statement is modelled by what it says on
  the rows, and the indexes of the schema are lists of declarations that \<open>insert_or_replace\<close> reads. What the statements leave open is the parameter \<open>sqlite\<close>: whether a call fails and
  with which error, in which order a \<open>SELECT\<close> without \<open>ORDER BY\<close> delivers its rows, and
  whether the file system has the database file. \<open>sqlite_ok\<close> says that a \<open>SELECT\<close> delivers
  exactly the matching rows; \<open>fault_free\<close> that no call fails.

  A transaction works on a copy of the tables that replaces them at commit; an early return drops
  the copy (the \<open>Drop\<close> of \<open>sqlx::Transaction\<close> rolls back).
\<close>

section \<open>Tables and the database engine\<close>

record db =
  tbl_shards :: "shard list"
  tbl_nullifier :: "nullifier list"
  tbl_total :: "bytes option"

text \<open>
  The indexes that \<open>0_schema.sql\<close> declares, as data: each maps a row to the values of its columns.
  A \<open>PRIMARY KEY\<close> is a unique index, the index on \<open>shards\<close> is not. An \<open>INSERT OR REPLACE\<close> removes
  the rows that agree with the new one on a unique index.
  The table \<open>senders_receivers_total\<close> has a boolean primary key that has to be true, hence at most
  one row, and is kept as an option.
\<close>

datatype 'r table_index = Index "'r \<Rightarrow> int list" | Unique_Index "'r \<Rightarrow> int list"

definition shards_indexes :: "shard table_index list" where
  "shards_indexes = [Index (\<lambda>r. [uint (shard_index r), utxo_index r])]"

definition nullifier_indexes :: "nullifier table_index list" where
  "nullifier_indexes = [Unique_Index (\<lambda>r. [idx r])]"

fun index_conflict :: "'r \<Rightarrow> 'r \<Rightarrow> 'r table_index \<Rightarrow> bool" where
  "index_conflict row r (Index key) = False"
| "index_conflict row r (Unique_Index key) = (key r = key row)"

definition insert_or_replace :: "'r table_index list \<Rightarrow> 'r \<Rightarrow> 'r list \<Rightarrow> 'r list" where
  "insert_or_replace ixs row rows = filter (\<lambda>r. \<not> list_ex (index_conflict row r) ixs) rows @ [row]"

definition empty_db :: db where
  "empty_db = \<lparr>tbl_shards = [], tbl_nullifier = [], tbl_total = None\<rparr>"

text \<open>The calls to the engine, each with the values that are bound to its statement.\<close>

datatype db_op =
    Op_migrator_new string
  | Op_database_exists string
  | Op_create_database string
  | Op_connect string u32
  | Op_acquire
  | Op_migrate
  | Op_pragma_synchronous nat
  | Op_has_shard u8 i64
  | Op_get_one_shard u8 i64
  | Op_get_batched_shards u8 i64 i64
  | Op_get_batched_shards_by_idxs u8 "i64 list"
  | Op_insert_one_shard shard
  | Op_insert_one_nullifier nullifier
  | Op_append_nullifier bytes bytes
  | Op_count_nullifier
  | Op_count_shard u8
  | Op_has_nullifier i64
  | Op_get_one_nullifier i64
  | Op_get_batched_nullifier i64 i64
  | Op_get_batched_nullifier_by_idxs "i64 list"
  | Op_update_total bytes
  | Op_get_total
  | Op_begin
  | Op_commit

record sqlite =
  sql_error :: "db_op \<Rightarrow> sqlx_error option"
  scan_shards :: "shard list \<Rightarrow> shard list"
  scan_nullifier :: "nullifier list \<Rightarrow> nullifier list"
  spare_rowid :: "i64 list \<Rightarrow> i64 option"

definition sqlite_ok :: "sqlite \<Rightarrow> bool" where
  "sqlite_ok sq \<longleftrightarrow> visits_each_once (scan_shards sq) \<and> visits_each_once (scan_nullifier sq)"

definition fault_free :: "sqlite \<Rightarrow> bool" where
  "fault_free sq \<longleftrightarrow> (\<forall>op. sql_error sq op = None)"

text \<open>\<open>execute\<close>, \<open>fetch_all\<close> and \<open>fetch_one\<close> of a query that selects \<open>rows\<close>.\<close>

definition execute :: "sqlite \<Rightarrow> db_op \<Rightarrow> sqlx_error + unit" where
  "execute sq op = (case sql_error sq op of None \<Rightarrow> Inr () | Some e \<Rightarrow> Inl e)"

definition fetch_all :: "sqlite \<Rightarrow> db_op \<Rightarrow> 'r list \<Rightarrow> sqlx_error + 'r list" where
  "fetch_all sq op rows = bindE (execute sq op) (\<lambda>_. Inr rows)"

definition fetch_one :: "sqlite \<Rightarrow> db_op \<Rightarrow> 'r list \<Rightarrow> sqlx_error + 'r" where
  "fetch_one sq op rows =
     bindE (execute sq op) (\<lambda>_. case rows of [] \<Rightarrow> Inl RowNotFound | r # _ \<Rightarrow> Inr r)"

text \<open>The \<open>?\<close> on a result of \<open>sqlx\<close> inside a function that returns \<open>anyhow::Result\<close>.\<close>

definition try_sqlx :: "sqlx_error + 'a \<Rightarrow> anyhow_error + 'a" where
  "try_sqlx r = map_err Sqlx r"

section \<open>Opening the database\<close>

text \<open>
  The file behind the pool: its tables, and the two settings that \<open>initialize_db_pool\<close> is about.
  \<open>file\<close> is \<open>None\<close> when there is no database file yet. The migration creates each table if
  it does not exist, so an existing database keeps its rows.
\<close>

record db_file =
  file_tables :: db
  journal_wal :: bool
  synchronous_off :: bool

definition initialize_db_pool ::
  "sqlite \<Rightarrow> db_file option \<Rightarrow> string \<Rightarrow> string \<Rightarrow> u32 \<Rightarrow> anyhow_error + db_file" where
  "initialize_db_pool sq file migrations_path db_url pool_size =
     bindE (try_sqlx (execute sq (Op_migrator_new migrations_path))) (\<lambda>_.
     bindE (case (execute sq (Op_database_exists db_url), file) of
              (Inr _, Some f) \<Rightarrow> Inr f
            | _ \<Rightarrow> (case execute sq (Op_create_database db_url) of
                     Inl _ \<Rightarrow> Inl (Panic ''assertion failed'')
                   | Inr _ \<Rightarrow> (case file of
                        Some f \<Rightarrow> Inr (f\<lparr>journal_wal := True\<rparr>)
                      | None \<Rightarrow> Inr \<lparr>file_tables = empty_db, journal_wal = True, synchronous_off = False\<rparr>)))
       (\<lambda>f.
     bindE (try_sqlx (execute sq (Op_connect db_url pool_size))) (\<lambda>_.
     bindE (try_sqlx (execute sq Op_acquire)) (\<lambda>_.
     bindE (try_sqlx (execute sq Op_migrate)) (\<lambda>_.
     bindE (try_sqlx (execute sq (Op_pragma_synchronous 0))) (\<lambda>_.
     bindE (try_sqlx (execute sq (Op_pragma_synchronous 1))) (\<lambda>_.
       Inr (f\<lparr>synchronous_off := True\<rparr>))))))))"

section \<open>Shards\<close>

definition has_shard :: "sqlite \<Rightarrow> db \<Rightarrow> u8 \<Rightarrow> u64 \<Rightarrow> bool" where
  "has_shard sq d s u =
     (let n = as_i64 u;
          one = fetch_one sq (Op_has_shard s n)
            (scan_shards sq (filter (\<lambda>r. shard_index r = s \<and> utxo_index r = n) (tbl_shards d)))
      in case one of Inr _ \<Rightarrow> True | Inl RowNotFound \<Rightarrow> False | Inl _ \<Rightarrow> False)"

definition get_one_shard :: "sqlite \<Rightarrow> db \<Rightarrow> u8 \<Rightarrow> u64 \<Rightarrow> anyhow_error + shard" where
  "get_one_shard sq d s u =
     (let n = as_i64 u
      in try_sqlx (fetch_one sq (Op_get_one_shard s n)
           (scan_shards sq (filter (\<lambda>r. shard_index r = s \<and> utxo_index r = n) (tbl_shards d)))))"

definition get_batched_shards :: "sqlite \<Rightarrow> db \<Rightarrow> u8 \<Rightarrow> u64 \<Rightarrow> u64 \<Rightarrow> anyhow_error + shard list" where
  "get_batched_shards sq d s utxo_index_beginning utxo_index_ending =
     try_sqlx (fetch_all sq
       (Op_get_batched_shards s (as_i64 utxo_index_beginning) (as_i64 utxo_index_ending))
       (scan_shards sq (filter (\<lambda>r. shard_index r = s
          \<and> utxo_index r \<ge> as_i64 utxo_index_beginning
          \<and> utxo_index r < as_i64 utxo_index_ending) (tbl_shards d))))"

text \<open>
  The statement of \<open>get_batched_shards_by_idxs\<close> is built at run time: \<open>?1\<close> is the shard and the
  list after \<open>IN\<close> holds the placeholders \<open>?2\<close>, \<open>?3\<close> and so on. A placeholder stands for the
  value bound at its position (1-based); an unbound one is NULL and matches nothing.
\<close>

definition placeholder :: "'v list \<Rightarrow> nat \<Rightarrow> 'v option" where
  "placeholder binds k = (if 1 \<le> k \<and> k \<le> length binds then Some (binds ! (k - 1)) else None)"

definition shards_by_idxs_params :: "i64 list \<Rightarrow> nat list" where
  "shards_by_idxs_params utxos_idxs = map (\<lambda>i. i + 1) [1 ..< Suc (length utxos_idxs)]"

definition get_batched_shards_by_idxs ::
  "sqlite \<Rightarrow> db \<Rightarrow> u8 \<Rightarrow> i64 list \<Rightarrow> anyhow_error + shard list" where
  "get_batched_shards_by_idxs sq d s utxos_idxs =
     (if utxos_idxs = [] then Inr []
      else let params = shards_by_idxs_params utxos_idxs;
               binds = uint s # utxos_idxs
           in try_sqlx (fetch_all sq (Op_get_batched_shards_by_idxs s utxos_idxs)
                (scan_shards sq (filter (\<lambda>r. Some (uint (shard_index r)) = placeholder binds 1
                   \<and> Some (utxo_index r) \<in> set (map (placeholder binds) params)) (tbl_shards d)))))"

definition insert_one_shard ::
  "('u, 'n, 'o) codec \<Rightarrow> sqlite \<Rightarrow> db \<Rightarrow> u8 \<Rightarrow> u64 \<Rightarrow> 'u \<Rightarrow> 'n \<Rightarrow> anyhow_error + db" where
  "insert_one_shard cd sq d s i u n =
     (let row = \<lparr>shard_index = s, utxo_index = as_i64 i,
                 utxo = utxo_encode cd u, full_incoming_note = note_encode cd n\<rparr>
      in bindE (try_sqlx (execute sq (Op_insert_one_shard row))) (\<lambda>_.
           Inr (d\<lparr>tbl_shards := insert_or_replace shards_indexes row (tbl_shards d)\<rparr>)))"

section \<open>Nullifiers\<close>

definition insert_one_nullifier ::
  "('u, 'n, 'o) codec \<Rightarrow> sqlite \<Rightarrow> db \<Rightarrow> u64 \<Rightarrow> bytes \<Rightarrow> 'o \<Rightarrow> anyhow_error + db" where
  "insert_one_nullifier cd sq d nullifier_index nc on =
     (let row = \<lparr>idx = as_i64 nullifier_index,
                 nullifier_commitment = commitment_encode cd nc,
                 outgoing_note = outgoing_encode cd on\<rparr>
      in bindE (try_sqlx (execute sq (Op_insert_one_nullifier row))) (\<lambda>_.
           Inr (d\<lparr>tbl_nullifier := insert_or_replace nullifier_indexes row (tbl_nullifier d)\<rparr>)))"

text \<open>
  An omitted integer primary key becomes one more than the largest one in the table, 1 in an
  empty table; once the largest \<open>i64\<close> is used the engine looks for a free one, or gives up.
\<close>

definition next_rowid :: "sqlite \<Rightarrow> i64 list \<Rightarrow> i64 option" where
  "next_rowid sq ids =
     (if ids = [] then Some 1
      else if Max (set ids) < 2 ^ 63 - 1 then Some (Max (set ids) + 1)
      else spare_rowid sq ids)"

definition append_nullifier ::
  "('u, 'n, 'o) codec \<Rightarrow> sqlite \<Rightarrow> db \<Rightarrow> bytes \<Rightarrow> 'o \<Rightarrow> anyhow_error + db" where
  "append_nullifier cd sq d nc on =
     bindE (try_sqlx (execute sq (Op_append_nullifier (commitment_encode cd nc) (outgoing_encode cd on)))) (\<lambda>_.
     bindE (ok_or (Sqlx (SqlxOther ''database or disk is full'')) (next_rowid sq (map idx (tbl_nullifier d)))) (\<lambda>i.
       Inr (d\<lparr>tbl_nullifier := tbl_nullifier d @
         [\<lparr>idx = i, nullifier_commitment = commitment_encode cd nc,
            outgoing_note = outgoing_encode cd on\<rparr>]\<rparr>)))"

text \<open>The count is read as a \<open>u32\<close>; \<open>Row::get\<close> panics on a value that does not fit.\<close>

definition get_len_of_nullifier :: "sqlite \<Rightarrow> db \<Rightarrow> anyhow_error + usize" where
  "get_len_of_nullifier sq d =
     bindE (try_sqlx (execute sq Op_count_nullifier)) (\<lambda>_.
       if length (tbl_nullifier d) < 2 ^ 32 then Inr (word_of_nat (length (tbl_nullifier d)))
       else Inl (Panic ''error occurred while decoding column count''))"

definition count_of_utxo :: "sqlite \<Rightarrow> db \<Rightarrow> u8 \<Rightarrow> anyhow_error + i64" where
  "count_of_utxo sq d s =
     bindE (try_sqlx (execute sq (Op_count_shard s))) (\<lambda>_.
       Inr (int (length (filter (\<lambda>r. shard_index r = s) (tbl_shards d)))))"

definition get_latest_check_point :: "sqlite \<Rightarrow> db \<Rightarrow> anyhow_error + checkpoint" where
  "get_latest_check_point sq d =
     bindE (foldE (\<lambda>ckp s.
         bindE (count_of_utxo sq d s) (\<lambda>count.
           Inr (ckp\<lparr>receiver_index := (receiver_index ckp)(s := as_usize count)\<rparr>)))
       checkpoint_default all_u8) (\<lambda>ckp.
     bindE (get_len_of_nullifier sq d) (\<lambda>n.
       Inr (ckp\<lparr>sender_index := n\<rparr>)))"

definition has_nullifier :: "sqlite \<Rightarrow> db \<Rightarrow> u64 \<Rightarrow> bool" where
  "has_nullifier sq d nullifier_index =
     (let n = as_i64 nullifier_index;
          one = fetch_one sq (Op_has_nullifier n)
            (scan_nullifier sq (filter (\<lambda>r. idx r = n) (tbl_nullifier d)))
      in case one of Inr _ \<Rightarrow> True | Inl RowNotFound \<Rightarrow> False | Inl _ \<Rightarrow> False)"

text \<open>
  A row as a commitment and a note: the commitment is converted by \<open>Vec<u8>::try_into\<close> to
  \<open>[u8; 32]\<close>, which succeeds on 32 bytes, and the note is decoded.
\<close>

definition nullifier_of_row ::
  "('u, 'n, 'o) codec \<Rightarrow> string \<Rightarrow> nullifier \<Rightarrow> anyhow_error + bytes \<times> 'o" where
  "nullifier_of_row cd what r =
     bindE (if length (nullifier_commitment r) = 32 then Inr (nullifier_commitment r)
            else Inl (Indexer (DecodedError what))) (\<lambda>nc.
     bindE (ok_or (CodecError ''outgoing_note'') (outgoing_decode cd (outgoing_note r))) (\<lambda>on.
       Inr (nc, on)))"

definition get_one_nullifier ::
  "('u, 'n, 'o) codec \<Rightarrow> sqlite \<Rightarrow> db \<Rightarrow> u64 \<Rightarrow> anyhow_error + bytes \<times> 'o" where
  "get_one_nullifier cd sq d nullifier_index =
     (let n = as_i64 nullifier_index
      in bindE (try_sqlx (fetch_one sq (Op_get_one_nullifier n)
           (scan_nullifier sq (filter (\<lambda>r. idx r = n) (tbl_nullifier d)))))
           (nullifier_of_row cd ''NullifierCommitment''))"

definition get_batched_nullifier ::
  "('u, 'n, 'o) codec \<Rightarrow> sqlite \<Rightarrow> db \<Rightarrow> u64 \<Rightarrow> u64 \<Rightarrow> anyhow_error + 'o sender_chunk" where
  "get_batched_nullifier cd sq d nullifier_beginning nullifier_ending =
     bindE (try_sqlx (fetch_all sq
         (Op_get_batched_nullifier (as_i64 nullifier_beginning) (as_i64 nullifier_ending))
         (scan_nullifier sq (filter (\<lambda>r. idx r \<ge> as_i64 nullifier_beginning
            \<and> idx r < as_i64 nullifier_ending) (tbl_nullifier d)))))
       (foldE (\<lambda>nullifiers i.
          bindE (nullifier_of_row cd ''nullifier_commitment'' i) (\<lambda>x. Inr (nullifiers @ [x]))) [])"

definition nullifier_by_idxs_params :: "i64 list \<Rightarrow> nat list" where
  "nullifier_by_idxs_params indices = [1 ..< Suc (length indices)]"

definition get_batched_nullifier_by_idxs :: "sqlite \<Rightarrow> db \<Rightarrow> i64 list \<Rightarrow> anyhow_error + nullifier list" where
  "get_batched_nullifier_by_idxs sq d indices =
     (if indices = [] then Inr []
      else let params = nullifier_by_idxs_params indices
           in try_sqlx (fetch_all sq (Op_get_batched_nullifier_by_idxs indices)
                (scan_nullifier sq (filter (\<lambda>r. Some (idx r) \<in> set (map (placeholder indices) params))
                   (tbl_nullifier d)))))"

section \<open>The total of senders and receivers\<close>

text \<open>The check on its primary key gives this table at most one row, which an insertion replaces.\<close>

definition update_or_insert_total_senders_receivers ::
  "sqlite \<Rightarrow> db \<Rightarrow> bytes \<Rightarrow> anyhow_error + db" where
  "update_or_insert_total_senders_receivers sq d new_total =
     bindE (try_sqlx (execute sq (Op_update_total new_total))) (\<lambda>_.
       Inr (d\<lparr>tbl_total := Some new_total\<rparr>))"

definition get_total_senders_receivers :: "sqlite \<Rightarrow> db \<Rightarrow> anyhow_error + bytes" where
  "get_total_senders_receivers sq d =
     bindE (try_sqlx (fetch_one sq Op_get_total
         (case tbl_total d of None \<Rightarrow> [] | Some tot \<Rightarrow> [tot]))) (\<lambda>tot.
       if length tot = 16 then Inr tot else Inl (Indexer WrongLittleEndianArray))"

section \<open>The ledger that the tables represent\<close>

text \<open>
  The abstract ledger: per shard the sequence of its receivers, and the sequence of senders. The
  tables represent a ledger when the rows of each shard are, in any order, one row per receiver
  whose index is the position of the receiver, and likewise for the nullifiers. A table with a
  hole or with two rows for one index represents no ledger.
\<close>

record ('u, 'n, 'o) ledger =
  led_receivers :: "u8 \<Rightarrow> ('u \<times> 'n) list"
  led_senders :: "(bytes \<times> 'o) list"

definition shard_row :: "('u, 'n, 'o) codec \<Rightarrow> u8 \<Rightarrow> nat \<Rightarrow> 'u \<times> 'n \<Rightarrow> shard" where
  "shard_row cd s i r = \<lparr>shard_index = s, utxo_index = int i,
     utxo = utxo_encode cd (fst r), full_incoming_note = note_encode cd (snd r)\<rparr>"

definition shard_rows :: "('u, 'n, 'o) codec \<Rightarrow> u8 \<Rightarrow> ('u \<times> 'n) list \<Rightarrow> shard list" where
  "shard_rows cd s rs = map (\<lambda>i. shard_row cd s i (rs ! i)) [0 ..< length rs]"

definition nullifier_row :: "('u, 'n, 'o) codec \<Rightarrow> nat \<Rightarrow> bytes \<times> 'o \<Rightarrow> nullifier" where
  "nullifier_row cd i x = \<lparr>idx = int i, nullifier_commitment = commitment_encode cd (fst x),
     outgoing_note = outgoing_encode cd (snd x)\<rparr>"

definition nullifier_rows :: "('u, 'n, 'o) codec \<Rightarrow> (bytes \<times> 'o) list \<Rightarrow> nullifier list" where
  "nullifier_rows cd xs = map (\<lambda>i. nullifier_row cd i (xs ! i)) [0 ..< length xs]"

definition holds_ledger :: "('u, 'n, 'o) codec \<Rightarrow> ('u, 'n, 'o) ledger \<Rightarrow> db \<Rightarrow> bool" where
  "holds_ledger cd L d \<longleftrightarrow>
     (\<forall>s. mset (filter (\<lambda>r. shard_index r = s) (tbl_shards d)) = mset (shard_rows cd s (led_receivers L s)))
     \<and> mset (tbl_nullifier d) = mset (nullifier_rows cd (led_senders L))"

text \<open>
  Sizes the representation is exact for: indices of fewer than 47 bits, so that one more batch
  still fits the 48-bit value field of a cache key, and a number of senders that the query for it
  can return.
\<close>

definition ledger_wf :: "('u, 'n, 'o) ledger \<Rightarrow> bool" where
  "ledger_wf L \<longleftrightarrow> (\<forall>s. length (led_receivers L s) < 2 ^ 47) \<and> length (led_senders L) < 2 ^ 32
     \<and> list_all sender_wf (led_senders L)"

definition empty_ledger :: "('u, 'n, 'o) ledger" where
  "empty_ledger = \<lparr>led_receivers = (\<lambda>_. []), led_senders = []\<rparr>"

definition checkpoint_of :: "('u, 'n, 'o) ledger \<Rightarrow> checkpoint" where
  "checkpoint_of L = \<lparr>receiver_index = (\<lambda>s. word_of_nat (length (led_receivers L s))),
     sender_index = word_of_nat (length (led_senders L))\<rparr>"

definition add_receiver :: "u8 \<Rightarrow> 'u \<times> 'n \<Rightarrow> ('u, 'n, 'o) ledger \<Rightarrow> ('u, 'n, 'o) ledger" where
  "add_receiver s r L = L\<lparr>led_receivers := (led_receivers L)(s := led_receivers L s @ [r])\<rparr>"

definition add_sender :: "bytes \<times> 'o \<Rightarrow> ('u, 'n, 'o) ledger \<Rightarrow> ('u, 'n, 'o) ledger" where
  "add_sender x L = L\<lparr>led_senders := led_senders L @ [x]\<rparr>"

text \<open>
  The contract of a table with a primary key, whose insertions replace: a lookup sees the last
  row inserted under a key, and no other key changes.
\<close>

locale keyed_table =
  fixes upsert :: "'r \<Rightarrow> 't \<Rightarrow> 't"
    and key :: "'r \<Rightarrow> 'k"
    and lookup :: "'t \<Rightarrow> 'k \<Rightarrow> 'r option"
    and invar :: "'t \<Rightarrow> bool"
  assumes lookup_upsert: "invar t \<Longrightarrow> lookup (upsert r t) k = (if k = key r then Some r else lookup t k)"
    and invar_upsert: "invar t \<Longrightarrow> invar (upsert r t)"
begin

lemma invar_fold: "invar t \<Longrightarrow> invar (fold upsert rs t)"
  by (induction rs arbitrary: t) (auto simp: invar_upsert)

lemma lookup_fold_other:
  "invar t \<Longrightarrow> k \<notin> key ` set rs \<Longrightarrow> lookup (fold upsert rs t) k = lookup t k"
  by (induction rs arbitrary: t) (auto simp: lookup_upsert invar_upsert)

lemma lookup_fold:
  "invar t \<Longrightarrow> distinct (map key rs) \<Longrightarrow> r \<in> set rs \<Longrightarrow> lookup (fold upsert rs t) (key r) = Some r"
  by (induction rs arbitrary: t) (auto simp: lookup_upsert invar_upsert lookup_fold_other)

lemma upsert_twice_lookup:
  "invar t \<Longrightarrow> key r = key r' \<Longrightarrow> lookup (upsert r' (upsert r t)) k = lookup (upsert r' t) k"
  by (simp add: lookup_upsert invar_upsert)

end

definition lookup_nullifier :: "nullifier list \<Rightarrow> i64 \<Rightarrow> nullifier option" where
  "lookup_nullifier rows k = find (\<lambda>r. idx r = k) rows"

lemma find_append: "find P (xs @ ys) = (case find P xs of None \<Rightarrow> find P ys | Some x \<Rightarrow> Some x)"
  by (induction xs) auto

lemma find_filter_key: "k \<noteq> k' \<Longrightarrow> find (\<lambda>r. f r = k) (filter (\<lambda>r. f r \<noteq> k') xs) = find (\<lambda>r. f r = k) xs"
  by (induction xs) auto

lemma find_filter_none: "find (\<lambda>r. f r = k) (filter (\<lambda>r. f r \<noteq> k) xs) = None"
  by (induction xs) auto

text \<open>What the declared indexes make of the two insertions: a new row in \<open>shards\<close>, a keyed one in \<open>nullifier\<close>.\<close>

lemma insert_or_replace_shards [simp]: "insert_or_replace shards_indexes row rows = rows @ [row]"
  by (simp add: insert_or_replace_def shards_indexes_def)

lemma insert_or_replace_nullifier:
  "insert_or_replace nullifier_indexes row rows = filter (\<lambda>r. idx r \<noteq> idx row) rows @ [row]"
  by (simp add: insert_or_replace_def nullifier_indexes_def)

interpretation nullifier_table: keyed_table "insert_or_replace nullifier_indexes" idx lookup_nullifier "\<lambda>rows. distinct (map idx rows)"
proof (unfold_locales, goal_cases)
  case (1 t r k)
  then show ?case
    by (cases "k = idx r")
      (auto simp: insert_or_replace_nullifier lookup_nullifier_def find_append find_filter_none
        find_filter_key split: option.splits)
next
  case (2 t r)
  then show ?case
    by (auto simp: insert_or_replace_nullifier distinct_map inj_on_def)
qed

interpretation total_table: keyed_table "\<lambda>r _. Some r" "\<lambda>_. ()" "\<lambda>t _. t" "\<lambda>_. True"
  by unfold_locales auto

section \<open>Lemmas: queries without faults\<close>

named_theorems db_simps "queries of a fault-free engine"

lemma execute_fault_free [db_simps]: "fault_free sq \<Longrightarrow> execute sq op = Inr ()"
  by (simp add: fault_free_def execute_def)

lemma fetch_fault_free [db_simps]:
  "fault_free sq \<Longrightarrow> fetch_all sq op rows = Inr rows"
  "fault_free sq \<Longrightarrow> fetch_one sq op rows = (case rows of [] \<Rightarrow> Inl RowNotFound | r # _ \<Rightarrow> Inr r)"
  by (simp_all add: fetch_all_def fetch_one_def db_simps)

lemma try_sqlx_simps [simp]: "try_sqlx (Inr x) = Inr x" "try_sqlx (Inl e) = Inl (Sqlx e)"
  by (simp_all add: try_sqlx_def)

lemma scan_empty_iff:
  "sqlite_ok sq \<Longrightarrow> scan_shards sq xs = [] \<longleftrightarrow> xs = []"
  "sqlite_ok sq \<Longrightarrow> scan_nullifier sq ys = [] \<longleftrightarrow> ys = []"
  by (simp_all add: sqlite_ok_def visits_each_once_Nil_iff)

lemma has_shard_eq:
  assumes "sqlite_ok sq" and "fault_free sq"
  shows "has_shard sq d s u \<longleftrightarrow> (\<exists>r \<in> set (tbl_shards d). shard_index r = s \<and> utxo_index r = as_i64 u)"
proof -
  let ?rows = "filter (\<lambda>r. shard_index r = s \<and> utxo_index r = as_i64 u) (tbl_shards d)"
  have "has_shard sq d s u \<longleftrightarrow> scan_shards sq ?rows \<noteq> []"
    using assms(2) by (cases "scan_shards sq ?rows") (simp_all add: has_shard_def db_simps)
  then show ?thesis
    using scan_empty_iff(1) [OF assms(1), of ?rows] by (auto simp: filter_empty_conv)
qed

lemma has_nullifier_eq:
  assumes "sqlite_ok sq" and "fault_free sq"
  shows "has_nullifier sq d u \<longleftrightarrow> (\<exists>r \<in> set (tbl_nullifier d). idx r = as_i64 u)"
proof -
  let ?rows = "filter (\<lambda>r. idx r = as_i64 u) (tbl_nullifier d)"
  have "has_nullifier sq d u \<longleftrightarrow> scan_nullifier sq ?rows \<noteq> []"
    using assms(2) by (cases "scan_nullifier sq ?rows") (simp_all add: has_nullifier_def db_simps)
  then show ?thesis
    using scan_empty_iff(2) [OF assms(1), of ?rows] by (auto simp: filter_empty_conv)
qed

lemma has_shard_row:
  assumes "sqlite_ok sq" and "has_shard sq d s u"
  shows "\<exists>r \<in> set (tbl_shards d). shard_index r = s \<and> utxo_index r = as_i64 u"
proof -
  let ?rows = "filter (\<lambda>r. shard_index r = s \<and> utxo_index r = as_i64 u) (tbl_shards d)"
  have "scan_shards sq ?rows \<noteq> []"
    using assms(2) by (cases "execute sq (Op_has_shard s (as_i64 u))")
      (auto simp: has_shard_def fetch_one_def Let_def split: sqlx_error.splits)
  then show ?thesis
    using scan_empty_iff(1) [OF assms(1), of ?rows] by (auto simp: filter_empty_conv)
qed

lemma has_nullifier_row:
  assumes "sqlite_ok sq" and "has_nullifier sq d u"
  shows "\<exists>r \<in> set (tbl_nullifier d). idx r = as_i64 u"
proof -
  let ?rows = "filter (\<lambda>r. idx r = as_i64 u) (tbl_nullifier d)"
  have "scan_nullifier sq ?rows \<noteq> []"
    using assms(2) by (cases "execute sq (Op_has_nullifier (as_i64 u))")
      (auto simp: has_nullifier_def fetch_one_def Let_def split: sqlx_error.splits)
  then show ?thesis
    using scan_empty_iff(2) [OF assms(1), of ?rows] by (auto simp: filter_empty_conv)
qed

lemma placeholders_all: "map (placeholder xs) [1 ..< Suc (length xs)] = map Some xs"
  by (rule nth_equalityI) (simp_all add: placeholder_def del: upt_Suc)

lemma placeholders_shifted: "map (placeholder (x # xs)) (shards_by_idxs_params xs) = map Some xs"
  by (rule nth_equalityI) (simp_all add: placeholder_def shards_by_idxs_params_def del: upt_Suc)

text \<open>The statements with their placeholders resolved.\<close>

lemma get_batched_shards_by_idxs_select:
  "get_batched_shards_by_idxs sq d s is =
     (if is = [] then Inr []
      else try_sqlx (fetch_all sq (Op_get_batched_shards_by_idxs s is)
        (scan_shards sq (filter (\<lambda>r. shard_index r = s \<and> utxo_index r \<in> set is) (tbl_shards d)))))"
proof -
  have "Some (uint x) = placeholder (uint s # is) 1 \<longleftrightarrow> x = s" for x :: u8
    by (auto simp: placeholder_def word_uint_eq_iff)
  moreover have "Some i \<in> set (map (placeholder (uint s # is)) (shards_by_idxs_params is)) \<longleftrightarrow> i \<in> set is" for i
    unfolding placeholders_shifted by auto
  ultimately show ?thesis
    by (simp add: get_batched_shards_by_idxs_def del: set_map)
qed

lemma get_batched_nullifier_by_idxs_select:
  "get_batched_nullifier_by_idxs sq d is =
     (if is = [] then Inr []
      else try_sqlx (fetch_all sq (Op_get_batched_nullifier_by_idxs is)
        (scan_nullifier sq (filter (\<lambda>r. idx r \<in> set is) (tbl_nullifier d)))))"
proof -
  have "Some i \<in> set (map (placeholder is) (nullifier_by_idxs_params is)) \<longleftrightarrow> i \<in> set is" for i
    unfolding nullifier_by_idxs_params_def placeholders_all by auto
  then show ?thesis
    by (simp add: get_batched_nullifier_by_idxs_def del: set_map)
qed

lemma try_fetch_all_Inr: "try_sqlx (fetch_all sq op xs) = Inr ys \<Longrightarrow> ys = xs"
  by (auto simp: try_sqlx_def fetch_all_def map_err_def bindE_eq_Inr split: sum.splits)

text \<open>What a query that succeeds delivers, also on an engine that may have faults.\<close>

lemma get_batched_shards_by_idxs_Inr:
  assumes "sqlite_ok sq" and "get_batched_shards_by_idxs sq d s is = Inr rows"
  shows "mset rows = mset (filter (\<lambda>r. shard_index r = s \<and> utxo_index r \<in> set is) (tbl_shards d))"
  using assms
  by (auto simp: get_batched_shards_by_idxs_select sqlite_ok_def visits_each_once_props(1) dest!: try_fetch_all_Inr
      split: if_splits)

lemma get_batched_nullifier_by_idxs_Inr:
  assumes "sqlite_ok sq" and "get_batched_nullifier_by_idxs sq d is = Inr rows"
  shows "mset rows = mset (filter (\<lambda>r. idx r \<in> set is) (tbl_nullifier d))"
  using assms
  by (auto simp: get_batched_nullifier_by_idxs_select sqlite_ok_def visits_each_once_props(1) dest!: try_fetch_all_Inr
      split: if_splits)

lemma get_batched_shards_by_idxs_eq:
  assumes "sqlite_ok sq" and "fault_free sq"
  shows "\<exists>rows. get_batched_shards_by_idxs sq d s is = Inr rows \<and>
    mset rows = mset (filter (\<lambda>r. shard_index r = s \<and> utxo_index r \<in> set is) (tbl_shards d))"
proof -
  have "\<exists>rows. get_batched_shards_by_idxs sq d s is = Inr rows"
    using assms(2) by (simp add: get_batched_shards_by_idxs_select db_simps)
  then show ?thesis using get_batched_shards_by_idxs_Inr [OF assms(1)] by blast
qed

lemma get_batched_nullifier_by_idxs_eq:
  assumes "sqlite_ok sq" and "fault_free sq"
  shows "\<exists>rows. get_batched_nullifier_by_idxs sq d is = Inr rows \<and>
    mset rows = mset (filter (\<lambda>r. idx r \<in> set is) (tbl_nullifier d))"
proof -
  have "\<exists>rows. get_batched_nullifier_by_idxs sq d is = Inr rows"
    using assms(2) by (simp add: get_batched_nullifier_by_idxs_select db_simps)
  then show ?thesis using get_batched_nullifier_by_idxs_Inr [OF assms(1)] by blast
qed

section \<open>Lemmas: the tables and the ledger\<close>

lemma shard_row_simps [simp]:
  "shard_index (shard_row cd s i r) = s" "utxo_index (shard_row cd s i r) = int i"
  "utxo (shard_row cd s i r) = utxo_encode cd (fst r)"
  "full_incoming_note (shard_row cd s i r) = note_encode cd (snd r)"
  by (simp_all add: shard_row_def)

lemma nullifier_row_simps [simp]:
  "idx (nullifier_row cd i x) = int i"
  "nullifier_commitment (nullifier_row cd i x) = commitment_encode cd (fst x)"
  "outgoing_note (nullifier_row cd i x) = outgoing_encode cd (snd x)"
  by (simp_all add: nullifier_row_def)

lemma length_rows [simp]:
  "length (shard_rows cd s rs) = length rs" "length (nullifier_rows cd xs) = length xs"
  by (simp_all add: shard_rows_def nullifier_rows_def)

lemma rows_snoc:
  "shard_rows cd s (rs @ [r]) = shard_rows cd s rs @ [shard_row cd s (length rs) r]"
  "nullifier_rows cd (xs @ [x]) = nullifier_rows cd xs @ [nullifier_row cd (length xs) x]"
  by (auto simp: shard_rows_def nullifier_rows_def nth_append)

lemma empty_db_holds: "holds_ledger cd empty_ledger empty_db"
  by (simp add: holds_ledger_def empty_ledger_def empty_db_def shard_rows_def nullifier_rows_def)

lemma holds_shards_filter:
  assumes "holds_ledger cd L d"
  shows "mset (filter (\<lambda>r. shard_index r = s \<and> P r) (tbl_shards d)) =
    mset (filter P (shard_rows cd s (led_receivers L s)))"
proof -
  have "filter (\<lambda>r. shard_index r = s \<and> P r) (tbl_shards d) =
      filter P (filter (\<lambda>r. shard_index r = s) (tbl_shards d))"
    by (simp add: conj_commute)
  moreover have "mset (filter (\<lambda>r. shard_index r = s) (tbl_shards d)) =
      mset (shard_rows cd s (led_receivers L s))"
    using assms by (simp add: holds_ledger_def)
  ultimately show ?thesis
    by (metis mset_filter_cong)
qed

lemma holds_shard_member:
  assumes "holds_ledger cd L d"
  shows "(\<exists>r \<in> set (tbl_shards d). shard_index r = s \<and> P r) \<longleftrightarrow>
    (\<exists>i < length (led_receivers L s). P (shard_row cd s i (led_receivers L s ! i)))"
proof -
  have "set (filter (\<lambda>r. shard_index r = s \<and> P r) (tbl_shards d)) =
      set (filter P (shard_rows cd s (led_receivers L s)))"
    by (rule mset_eq_setD) (rule holds_shards_filter [OF assms])
  then have "set (filter (\<lambda>r. shard_index r = s \<and> P r) (tbl_shards d)) \<noteq> {} \<longleftrightarrow>
      set (filter P (shard_rows cd s (led_receivers L s))) \<noteq> {}"
    by (simp only:)
  moreover have "set (filter P (shard_rows cd s (led_receivers L s))) \<noteq> {} \<longleftrightarrow>
      (\<exists>i < length (led_receivers L s). P (shard_row cd s i (led_receivers L s ! i)))"
    by (auto simp: shard_rows_def)
  moreover have "set (filter (\<lambda>r. shard_index r = s \<and> P r) (tbl_shards d)) \<noteq> {} \<longleftrightarrow>
      (\<exists>r \<in> set (tbl_shards d). shard_index r = s \<and> P r)"
    by auto
  ultimately show ?thesis by blast
qed

lemma holds_nullifier_member:
  assumes "holds_ledger cd L d"
  shows "(\<exists>r \<in> set (tbl_nullifier d). P r) \<longleftrightarrow>
    (\<exists>i < length (led_senders L). P (nullifier_row cd i (led_senders L ! i)))"
proof -
  have "set (tbl_nullifier d) = set (nullifier_rows cd (led_senders L))"
    using assms by (intro mset_eq_setD) (simp add: holds_ledger_def)
  then show ?thesis by (auto simp: nullifier_rows_def)
qed

lemma ledger_wfD:
  assumes "ledger_wf L"
  shows "length (led_receivers L s) < 2 ^ 47" "length (led_senders L) < 2 ^ 32"
    "x \<in> set (led_senders L) \<Longrightarrow> length (fst x) = 32"
  using assms by (auto simp: ledger_wf_def sender_wf_def list_all_iff)

lemma as_i64_in_table: "n < 2 ^ 63 \<Longrightarrow> (\<exists>i < n. int i = as_i64 u) \<longleftrightarrow> unat u < n"
  using as_i64_eq_int_iff [of _ u] by (metis less_trans)

lemma has_shard_ledger:
  assumes "sqlite_ok sq" "fault_free sq" "holds_ledger cd L d" "ledger_wf L"
  shows "has_shard sq d s u \<longleftrightarrow> unat u < length (led_receivers L s)"
  using as_i64_in_table [of "length (led_receivers L s)" u] ledger_wfD(1) [OF assms(4), of s]
  unfolding has_shard_eq [OF assms(1,2)] holds_shard_member [OF assms(3)] by auto

lemma has_nullifier_ledger:
  assumes "sqlite_ok sq" "fault_free sq" "holds_ledger cd L d" "ledger_wf L"
  shows "has_nullifier sq d u \<longleftrightarrow> unat u < length (led_senders L)"
  using as_i64_in_table [of "length (led_senders L)" u] ledger_wfD(2) [OF assms(4)]
  unfolding has_nullifier_eq [OF assms(1,2)] holds_nullifier_member [OF assms(3)] by auto

text \<open>The positive answer is right on an engine with faults, too.\<close>

lemma has_shard_genuine:
  assumes "sqlite_ok sq" "holds_ledger cd L d" "ledger_wf L" "has_shard sq d s u"
  shows "unat u < length (led_receivers L s)"
  using as_i64_in_table [of "length (led_receivers L s)" u] ledger_wfD(1) [OF assms(3), of s]
    has_shard_row [OF assms(1,4)] unfolding holds_shard_member [OF assms(2)] by auto

lemma has_nullifier_genuine:
  assumes "sqlite_ok sq" "holds_ledger cd L d" "ledger_wf L" "has_nullifier sq d u"
  shows "unat u < length (led_senders L)"
  using as_i64_in_table [of "length (led_senders L)" u] ledger_wfD(2) [OF assms(3)]
    has_nullifier_row [OF assms(1,4)] unfolding holds_nullifier_member [OF assms(2)] by auto

lemma mem_as_i64_iff:
  "int n \<in> as_i64 ` set is \<longleftrightarrow> n \<in> unat ` set is" if "n < 2 ^ 63"
  using as_i64_eq_int_iff [OF that] by (metis (no_types, lifting) image_iff)

lemma filter_rows_by_idxs:
  assumes "distinct is" and "n \<le> 2 ^ 63" and "\<And>i. key (row i) = int i"
  shows "mset (filter (\<lambda>r. key r \<in> as_i64 ` set is) (map row [0 ..< n])) =
    mset (map row (filter (\<lambda>i. i < n) (map unat is)))"
proof -
  have "filter (\<lambda>i. int i \<in> as_i64 ` set is) [0 ..< n] = filter (\<lambda>i. i \<in> set (map unat is)) [0 ..< n]"
    using assms(2) by (intro filter_cong) (auto simp: mem_as_i64_iff)
  then have "filter (\<lambda>r. key r \<in> as_i64 ` set is) (map row [0 ..< n]) =
      map row (filter (\<lambda>i. i \<in> set (map unat is)) [0 ..< n])"
    by (simp add: filter_map comp_def assms(3))
  then have "mset (filter (\<lambda>r. key r \<in> as_i64 ` set is) (map row [0 ..< n])) =
      image_mset row (mset (filter (\<lambda>i. i \<in> set (map unat is)) [0 ..< n]))"
    by (simp only: mset_map)
  also have "mset (filter (\<lambda>i. i \<in> set (map unat is)) [0 ..< n]) = mset (filter (\<lambda>i. i < n) (map unat is))"
    using assms(1) by (intro mset_filter_indices) (simp add: distinct_map inj_on_def word_unat_eq_iff)
  finally show ?thesis by (simp only: mset_map)
qed

lemma get_batched_shards_by_idxs_rows:
  assumes "sqlite_ok sq" "holds_ledger cd L d" "ledger_wf L" "distinct is"
    and "get_batched_shards_by_idxs sq d s (map as_i64 is) = Inr rows"
  shows "mset rows = mset (map (\<lambda>i. shard_row cd s i (led_receivers L s ! i))
      (filter (\<lambda>i. i < length (led_receivers L s)) (map unat is)))"
proof -
  have "mset rows = mset (filter (\<lambda>r. shard_index r = s \<and> utxo_index r \<in> as_i64 ` set is) (tbl_shards d))"
    using get_batched_shards_by_idxs_Inr [OF assms(1,5)] by simp
  also have "\<dots> = mset (filter (\<lambda>r. utxo_index r \<in> as_i64 ` set is) (shard_rows cd s (led_receivers L s)))"
    by (rule holds_shards_filter [OF assms(2)])
  also have "\<dots> = mset (map (\<lambda>i. shard_row cd s i (led_receivers L s ! i))
      (filter (\<lambda>i. i < length (led_receivers L s)) (map unat is)))"
    unfolding shard_rows_def
    using ledger_wfD(1) [OF assms(3), of s] by (intro filter_rows_by_idxs assms(4)) simp_all
  finally show ?thesis .
qed

lemma get_batched_shards_by_idxs_ledger:
  assumes "sqlite_ok sq" "fault_free sq" "holds_ledger cd L d" "ledger_wf L" "distinct is"
  shows "\<exists>rows. get_batched_shards_by_idxs sq d s (map as_i64 is) = Inr rows \<and>
    mset rows = mset (map (\<lambda>i. shard_row cd s i (led_receivers L s ! i))
      (filter (\<lambda>i. i < length (led_receivers L s)) (map unat is)))"
  using get_batched_shards_by_idxs_eq [OF assms(1,2), of d s "map as_i64 is"]
    get_batched_shards_by_idxs_rows [OF assms(1,3-5)] by blast

lemma get_batched_nullifier_by_idxs_rows:
  assumes "sqlite_ok sq" "holds_ledger cd L d" "ledger_wf L" "distinct is"
    and "get_batched_nullifier_by_idxs sq d (map as_i64 is) = Inr rows"
  shows "mset rows = mset (map (\<lambda>i. nullifier_row cd i (led_senders L ! i))
      (filter (\<lambda>i. i < length (led_senders L)) (map unat is)))"
proof -
  have "mset (tbl_nullifier d) = mset (nullifier_rows cd (led_senders L))"
    using assms(2) by (simp add: holds_ledger_def)
  then have "mset rows = mset (filter (\<lambda>r. idx r \<in> as_i64 ` set is) (nullifier_rows cd (led_senders L)))"
    using get_batched_nullifier_by_idxs_Inr [OF assms(1,5)] mset_filter_cong by fastforce
  also have "\<dots> = mset (map (\<lambda>i. nullifier_row cd i (led_senders L ! i))
      (filter (\<lambda>i. i < length (led_senders L)) (map unat is)))"
    unfolding nullifier_rows_def
    using ledger_wfD(2) [OF assms(3)] by (intro filter_rows_by_idxs assms(4)) simp_all
  finally show ?thesis .
qed

lemma get_batched_nullifier_by_idxs_ledger:
  assumes "sqlite_ok sq" "fault_free sq" "holds_ledger cd L d" "ledger_wf L" "distinct is"
  shows "\<exists>rows. get_batched_nullifier_by_idxs sq d (map as_i64 is) = Inr rows \<and>
    mset rows = mset (map (\<lambda>i. nullifier_row cd i (led_senders L ! i))
      (filter (\<lambda>i. i < length (led_senders L)) (map unat is)))"
  using get_batched_nullifier_by_idxs_eq [OF assms(1,2), of d "map as_i64 is"]
    get_batched_nullifier_by_idxs_rows [OF assms(1,3-5)] by blast

lemma foldE_receiver_index:
  fixes ckp :: checkpoint
  assumes "\<And>s. s \<in> set xs \<Longrightarrow> f s = Inr (g s)"
  shows "foldE (\<lambda>ckp s. bindE (f s) (\<lambda>count.
      Inr (ckp\<lparr>receiver_index := (receiver_index ckp)(s := as_usize count)\<rparr>))) ckp xs =
    Inr (ckp\<lparr>receiver_index := (\<lambda>s. if s \<in> set xs then as_usize (g s) else receiver_index ckp s)\<rparr>)"
  using assms by (induction xs arbitrary: ckp) (auto simp: fun_eq_iff intro!: arg_cong [where f = "\<lambda>x. _\<lparr>receiver_index := x\<rparr>"])

lemma get_len_of_nullifier_ledger:
  assumes "fault_free sq" "holds_ledger cd L d" "ledger_wf L"
  shows "get_len_of_nullifier sq d = Inr (word_of_nat (length (led_senders L)))"
proof -
  have "mset (tbl_nullifier d) = mset (nullifier_rows cd (led_senders L))"
    using assms(2) by (simp add: holds_ledger_def)
  from mset_eq_length [OF this] show ?thesis
    using ledger_wfD(2) [OF assms(3)] by (simp add: get_len_of_nullifier_def db_simps assms(1))
qed

lemma holds_ledger_counts:
  assumes "holds_ledger cd L d"
  shows "length (filter (\<lambda>r. shard_index r = s) (tbl_shards d)) = length (led_receivers L s)"
    and "length (tbl_nullifier d) = length (led_senders L)"
proof -
  have "mset (filter (\<lambda>r. shard_index r = s) (tbl_shards d)) = mset (shard_rows cd s (led_receivers L s))"
    "mset (tbl_nullifier d) = mset (nullifier_rows cd (led_senders L))"
    using assms by (simp_all add: holds_ledger_def)
  from this [THEN mset_eq_length] show "length (filter (\<lambda>r. shard_index r = s) (tbl_shards d)) = length (led_receivers L s)"
    "length (tbl_nullifier d) = length (led_senders L)" by simp_all
qed

lemma get_latest_check_point_ledger:
  assumes "fault_free sq" "holds_ledger cd L d" "ledger_wf L"
  shows "get_latest_check_point sq d = Inr (checkpoint_of L)"
proof -
  have count: "count_of_utxo sq d s = Inr (int (length (led_receivers L s)))" for s
  proof -
    have "mset (filter (\<lambda>r. shard_index r = s) (tbl_shards d)) = mset (shard_rows cd s (led_receivers L s))"
      using assms(2) by (simp add: holds_ledger_def)
    from mset_eq_length [OF this] show ?thesis
      by (simp add: count_of_utxo_def db_simps assms(1))
  qed
  show ?thesis
    using get_len_of_nullifier_ledger [OF assms] foldE_receiver_index [of all_u8 "count_of_utxo sq d", OF count]
    by (simp add: get_latest_check_point_def checkpoint_of_def checkpoint_default_def)
qed

lemma insert_one_shard_ledger:
  assumes "fault_free sq" "holds_ledger cd L d" "unat i = length (led_receivers L s)"
    and "length (led_receivers L s) < 2 ^ 63"
  shows "\<exists>d'. insert_one_shard cd sq d s i (fst r) (snd r) = Inr d' \<and>
    holds_ledger cd (add_receiver s r L) d' \<and> tbl_total d' = tbl_total d"
proof -
  have "as_i64 i = int (length (led_receivers L s))"
    using assms(3,4) by (simp add: as_i64_small)
  then show ?thesis
    using assms(1,2)
    by (auto simp: insert_one_shard_def db_simps holds_ledger_def add_receiver_def rows_snoc shard_row_def
        Let_def)
qed

lemma insert_one_nullifier_ledger:
  assumes "fault_free sq" "holds_ledger cd L d" "unat i = length (led_senders L)"
    and "length (led_senders L) < 2 ^ 63"
  shows "\<exists>d'. insert_one_nullifier cd sq d i (fst x) (snd x) = Inr d' \<and>
    holds_ledger cd (add_sender x L) d' \<and> tbl_total d' = tbl_total d"
proof -
  have i: "as_i64 i = int (length (led_senders L))"
    using assms(3,4) by (simp add: as_i64_small)
  have "idx r \<noteq> int (length (led_senders L))" if "r \<in> set (tbl_nullifier d)" for r
    using that holds_nullifier_member [OF assms(2), of "\<lambda>r. idx r = int (length (led_senders L))"] by auto
  then have "filter (\<lambda>r. idx r \<noteq> int (length (led_senders L))) (tbl_nullifier d) = tbl_nullifier d"
    by (simp add: filter_id_conv)
  then show ?thesis
    using assms(1,2) i
    by (simp add: insert_one_nullifier_def db_simps holds_ledger_def add_sender_def rows_snoc
        nullifier_row_def insert_or_replace_nullifier Let_def)
qed

end
