(* ===== verification/Pull.thy ===== *)
theory Pull
  imports Cache Db
begin

text \<open>
  \<open>src/indexer/pull.rs\<close>: answering a pull request from the cache and, for what the cache does not
  hold, from the database; and the computation of the next checkpoint on the client's side.

  The operations take the codec, the cache operations and the database engine as parameters, the
  tables as an argument (they are only read), and the cache as state: it comes back even when the
  request fails. The vector \<open>receivers\<close> that the sources extend in place is passed in and
  returned.

  What a response carries is stated against the ledger that the tables represent. The scheme that
  receivers and senders share (look a range up in the cache, query the rest, write it back) is the
  locale \<open>read_through\<close>; it is used for each shard and for the senders.
\<close>

section \<open>The next checkpoint\<close>

definition calculate_next_checkpoint ::
  "((u8 \<times> ('u, 'n) receiver_chunk) list \<Rightarrow> (u8 \<times> ('u, 'n) receiver_chunk) list) \<Rightarrow>
   (u8 \<times> ('u, 'n) receiver_chunk) list \<Rightarrow> checkpoint \<Rightarrow> checkpoint \<Rightarrow> usize \<Rightarrow> checkpoint" where
  "calculate_next_checkpoint ord previous_shards previous_checkpoint next_ckp sender_idx =
     fold (\<lambda>(i, utxos) ckp.
         ckp\<lparr>receiver_index := (receiver_index ckp)
           (i := receiver_index previous_checkpoint i + word_of_nat (length utxos))\<rparr>)
       (ord previous_shards)
       (next_ckp\<lparr>sender_index := sender_index next_ckp + sender_idx\<rparr>)"

section \<open>Pulling receivers\<close>

text \<open>
  The loop over the cached values: a hit is decoded and appended, the index of a miss is kept for
  the query.
\<close>

definition split_cached ::
  "(bytes \<Rightarrow> 'a option) \<Rightarrow> usize list \<Rightarrow> bytes option list \<Rightarrow> 'a list \<Rightarrow>
   anyhow_error + 'a list \<times> nat \<times> i64 list" where
  "split_cached dec all_indices cached out =
     foldE (\<lambda>(out, cached_values, query_db_indices) (offset, v).
         case v of
           Some b \<Rightarrow> bindE (ok_or (CodecError ''cached value'') (dec b)) (\<lambda>x.
             Inr (out @ [x], cached_values + 1, query_db_indices))
         | None \<Rightarrow> Inr (out, cached_values, query_db_indices @ [as_i64 (all_indices ! offset)]))
       (out, 0, []) (enumerate 0 cached)"

definition decode_shards ::
  "('u, 'n, 'o) codec \<Rightarrow> shard list \<Rightarrow> ('u, 'n) receiver_chunk \<Rightarrow>
   anyhow_error + ('u, 'n) receiver_chunk \<times> (usize \<times> bytes) list" where
  "decode_shards cd rows out =
     foldE (\<lambda>(out, write_back) row.
         bindE (ok_or (CodecError ''Utxo'') (utxo_decode cd (utxo row))) (\<lambda>u.
         bindE (ok_or (CodecError ''FullIncomingNote'') (note_decode cd (full_incoming_note row))) (\<lambda>n.
           Inr (out @ [(u, n)], write_back @ [(as_usize (utxo_index row), receiver_encode cd (u, n))]))))
       (out, []) rows"

definition pull_receivers_for_shard ::
  "('u, 'n, 'o) codec \<Rightarrow> 'c lru_ops \<Rightarrow> sqlite \<Rightarrow> db \<Rightarrow> 'c \<Rightarrow> u8 \<Rightarrow> usize \<Rightarrow> u64 \<Rightarrow> ('u, 'n) receiver_chunk \<Rightarrow>
   (anyhow_error + bool \<times> ('u, 'n) receiver_chunk) \<times> 'c" where
  "pull_receivers_for_shard cd lr sq d cache s i amount out =
     (let max_receiver_index = i + amount;
          all_indices = range_u64 i max_receiver_index;
          (cached, cache1) = get_batch_shard_receiver lr cache s all_indices
      in case split_cached (receiver_decode cd) all_indices cached out of
           Inl e \<Rightarrow> (Inl e, cache1)
         | Inr (out1, cached_values, query_db_indices) \<Rightarrow>
             (case get_batched_shards_by_idxs sq d s query_db_indices of
                Inl e \<Rightarrow> (Inl e, cache1)
              | Inr rows \<Rightarrow>
                  (case decode_shards cd rows out1 of
                     Inl e \<Rightarrow> (Inl e, cache1)
                   | Inr (out2, write_back) \<Rightarrow>
                       (Inr (length rows + cached_values = unat amount
                               \<and> has_shard sq d s max_receiver_index, out2),
                        put_batch_receiver lr cache1 s write_back))))"

text \<open>
  The loop of \<open>pull_receivers\<close> over the shards: a shard with nothing at the requested index is
  skipped, the loop is left when the limit is reached.
\<close>

fun pull_receivers_loop ::
  "('u, 'n, 'o) codec \<Rightarrow> 'c lru_ops \<Rightarrow> sqlite \<Rightarrow> db \<Rightarrow> receiver_index_array \<Rightarrow> u64 \<Rightarrow> u8 list \<Rightarrow>
   bool \<Rightarrow> receiver_index_array \<Rightarrow> ('u, 'n) receiver_chunk \<Rightarrow> u64 \<Rightarrow> 'c \<Rightarrow>
   (anyhow_error + bool \<times> receiver_index_array \<times> ('u, 'n) receiver_chunk) \<times> 'c" where
  "pull_receivers_loop cd lr sq d indices max_amount [] more_rs next_indices out remain cache =
     (Inr (more_rs, next_indices, out), cache)"
| "pull_receivers_loop cd lr sq d indices max_amount (s # ss) more_rs next_indices out remain cache =
     (let i = indices s in
      if \<not> has_shard sq d s i
      then pull_receivers_loop cd lr sq d indices max_amount ss more_rs next_indices out remain cache
      else case pull_receivers_for_shard cd lr sq d cache s i remain out of
             (Inl e, cache1) \<Rightarrow> (Inl e, cache1)
           | (Inr (more_in_shard, out1), cache1) \<Rightarrow>
               let more1 = (more_rs \<or> more_in_shard);
                   next1 = next_indices(s := i + word_of_nat (length out1) - word_of_nat (length out))
               in if length out1 = unat max_amount then (Inr (more1, next1, out1), cache1)
                  else pull_receivers_loop cd lr sq d indices max_amount ss more1 next1 out1
                         (max_amount - word_of_nat (length out1)) cache1)"

definition pull_receivers ::
  "('u, 'n, 'o) codec \<Rightarrow> 'c lru_ops \<Rightarrow> sqlite \<Rightarrow> db \<Rightarrow> 'c \<Rightarrow> receiver_index_array \<Rightarrow> u64 \<Rightarrow>
   (anyhow_error + bool \<times> receiver_index_array \<times> ('u, 'n) receiver_chunk) \<times> 'c" where
  "pull_receivers cd lr sq d cache receiver_indices max_amount =
     pull_receivers_loop cd lr sq d receiver_indices max_amount all_u8
       False receiver_indices [] max_amount cache"

section \<open>Pulling senders\<close>

definition decode_nullifiers ::
  "('u, 'n, 'o) codec \<Rightarrow> nullifier list \<Rightarrow> 'o sender_chunk \<Rightarrow>
   anyhow_error + 'o sender_chunk \<times> (usize \<times> bytes) list" where
  "decode_nullifiers cd rows out =
     foldE (\<lambda>(out, write_back) row.
         bindE (ok_or (CodecError ''NullifierCommitment'') (commitment_decode cd (nullifier_commitment row))) (\<lambda>k.
         bindE (ok_or (CodecError ''OutgoingNote'') (outgoing_decode cd (outgoing_note row))) (\<lambda>v.
           Inr (out @ [(k, v)], write_back @ [(as_usize (idx row), sender_encode cd (k, v))]))))
       (out, []) rows"

definition pull_senders ::
  "('u, 'n, 'o) codec \<Rightarrow> 'c lru_ops \<Rightarrow> sqlite \<Rightarrow> db \<Rightarrow> 'c \<Rightarrow> u64 \<Rightarrow> u64 \<Rightarrow>
   (anyhow_error + bool \<times> u64 \<times> 'o sender_chunk) \<times> 'c" where
  "pull_senders cd lr sq d cache i amount =
     (let all_indices = range_u64 i (i + amount);
          (cached, cache1) = get_batch_sender lr cache all_indices
      in case split_cached (sender_decode cd) all_indices cached [] of
           Inl e \<Rightarrow> (Inl e, cache1)
         | Inr (out1, cached_values, query_db_indices) \<Rightarrow>
             (case get_batched_nullifier_by_idxs sq d query_db_indices of
                Inl e \<Rightarrow> (Inl e, cache1)
              | Inr rows \<Rightarrow>
                  (case decode_nullifiers cd rows out1 of
                     Inl e \<Rightarrow> (Inl e, cache1)
                   | Inr (out2, write_back) \<Rightarrow>
                       (Inr (has_nullifier sq d (i + amount), i + amount, out2),
                        put_batch_sender lr cache1 write_back))))"

section \<open>The pull request\<close>

definition pull_ledger_diff ::
  "('u, 'n, 'o) codec \<Rightarrow> 'c lru_ops \<Rightarrow> sqlite \<Rightarrow> db \<Rightarrow> 'c \<Rightarrow> checkpoint \<Rightarrow> u64 \<Rightarrow> u64 \<Rightarrow>
   (anyhow_error + ('u, 'n, 'o) pull_response \<times> checkpoint) \<times> 'c" where
  "pull_ledger_diff cd lr sq d cache ckp max_receivers max_senders =
     (case pull_receivers cd lr sq d cache (receiver_index ckp) max_receivers of
        (Inl e, cache1) \<Rightarrow> (Inl e, cache1)
      | (Inr (more_receivers, next_receiver_index, rs), cache1) \<Rightarrow>
          (case pull_senders cd lr sq d cache1 (sender_index ckp) max_senders of
             (Inl e, cache2) \<Rightarrow> (Inl e, cache2)
           | (Inr (more_senders, next_sender_index, ss), cache2) \<Rightarrow>
               (bindE (get_total_senders_receivers sq d) (\<lambda>tot.
                  Inr (\<lparr>should_continue = (more_receivers \<or> more_senders),
                        receivers = rs, senders = ss, senders_receivers_total = tot\<rparr>,
                       \<lparr>receiver_index = next_receiver_index, sender_index = next_sender_index\<rparr>)),
                cache2)))"

section \<open>What the cache holds\<close>

text \<open>
  An entry is genuine when its key belongs to a receiver or a sender of the ledger and its value
  is the encoding of that item. The cache is coherent when it holds genuine entries only; it may
  hold any part of them.
\<close>

definition ledger_entry :: "('u, 'n, 'o) codec \<Rightarrow> ('u, 'n, 'o) ledger \<Rightarrow> u64 \<Rightarrow> bytes \<Rightarrow> bool" where
  "ledger_entry cd L k b \<longleftrightarrow>
     (\<exists>s i. i < length (led_receivers L s) \<and> k = receiver_key (ucast s) (word_of_nat i)
        \<and> b = receiver_encode cd (led_receivers L s ! i))
     \<or> (\<exists>i. i < length (led_senders L) \<and> k = sender_key (word_of_nat i)
        \<and> b = sender_encode cd (led_senders L ! i))"

definition cache_coherent ::
  "('u, 'n, 'o) codec \<Rightarrow> 'c lru_ops \<Rightarrow> ('u, 'n, 'o) ledger \<Rightarrow> 'c \<Rightarrow> bool" where
  "cache_coherent cd lr L cache \<longleftrightarrow> (\<forall>k b. lru_peek lr cache k = Some b \<longrightarrow> ledger_entry cd L k b)"

section \<open>Lemmas: the loops of one batch\<close>

lemma split_cached_zip:
  assumes "length cached = length all_indices"
  shows "split_cached dec all_indices cached out =
    foldE (\<lambda>(out, n, q) (i, v).
        case v of
          Some b \<Rightarrow> bindE (ok_or (CodecError ''cached value'') (dec b)) (\<lambda>x. Inr (out @ [x], n + 1, q))
        | None \<Rightarrow> Inr (out, n, q @ [as_i64 i]))
      (out, 0, []) (zip all_indices cached)"
proof -
  have "zip all_indices cached = map (\<lambda>(pos, v). (all_indices ! pos, v)) (enumerate 0 cached)"
    using assms by (intro nth_equalityI) (auto simp: nth_enumerate_eq)
  then show ?thesis
    by (simp add: split_cached_def foldE_map case_prod_unfold cong: option.case_cong)
qed

lemma split_cached_eq:
  assumes "\<And>i b. i \<in> set is \<Longrightarrow> f i = Some b \<Longrightarrow> dec b = Some (item i)"
  shows "split_cached dec is (map f is) out =
    Inr (out @ map item (filter (\<lambda>i. f i \<noteq> None) is), length (filter (\<lambda>i. f i \<noteq> None) is),
      map as_i64 (filter (\<lambda>i. f i = None) is))"
proof -
  define step where "step = (\<lambda>(out, n :: nat, q) (i, v).
        case v of
          Some b \<Rightarrow> bindE (ok_or (CodecError ''cached value'') (dec b)) (\<lambda>x. Inr (out @ [x], n + 1, q))
        | None \<Rightarrow> Inr (out, n, q @ [as_i64 i]))"
  have "foldE step (out, n, q) (zip is (map f is)) =
    Inr (out @ map item (filter (\<lambda>i. f i \<noteq> None) is), n + length (filter (\<lambda>i. f i \<noteq> None) is),
      q @ map as_i64 (filter (\<lambda>i. f i = None) is))" for n q
    using assms
  proof (induction "is" arbitrary: out n q)
    case (Cons i "is")
    have "step (out, n, q) (i, f i) =
        (if f i = None then Inr (out, n, q @ [as_i64 i]) else Inr (out @ [item i], n + 1, q))"
      using Cons.prems [of i] by (cases "f i") (simp_all add: step_def)
    then show ?case
      using Cons.IH Cons.prems by simp
  qed simp
  from this [of 0 "[]"] show ?thesis
    by (simp add: split_cached_zip step_def)
qed

context scale_codec
begin

lemma decode_shards_rows:
  "decode_shards cd (map (\<lambda>j. shard_row cd s j (rs ! j)) js) out =
     Inr (out @ map ((!) rs) js, map (\<lambda>j. (word_of_nat j, receiver_encode cd (rs ! j))) js)"
proof -
  have "foldE (\<lambda>(out, write_back) row.
         bindE (ok_or (CodecError ''Utxo'') (utxo_decode cd (utxo row))) (\<lambda>u.
         bindE (ok_or (CodecError ''FullIncomingNote'') (note_decode cd (full_incoming_note row))) (\<lambda>n.
           Inr (out @ [(u, n)], write_back @ [(as_usize (utxo_index row), receiver_encode cd (u, n))]))))
       (out, wb) (map (\<lambda>j. shard_row cd s j (rs ! j)) js) =
     Inr (out @ map ((!) rs) js, wb @ map (\<lambda>j. (word_of_nat j, receiver_encode cd (rs ! j))) js)" for wb
    by (induction js arbitrary: out wb) auto
  from this [of "[]"] show ?thesis
    by (simp add: decode_shards_def)
qed

lemma decode_nullifiers_rows:
  assumes "\<And>j. j \<in> set js \<Longrightarrow> length (fst (xs ! j)) = 32"
  shows "decode_nullifiers cd (map (\<lambda>j. nullifier_row cd j (xs ! j)) js) out =
     Inr (out @ map ((!) xs) js, map (\<lambda>j. (word_of_nat j, sender_encode cd (xs ! j))) js)"
proof -
  have "foldE (\<lambda>(out, write_back) row.
         bindE (ok_or (CodecError ''NullifierCommitment'') (commitment_decode cd (nullifier_commitment row))) (\<lambda>k.
         bindE (ok_or (CodecError ''OutgoingNote'') (outgoing_decode cd (outgoing_note row))) (\<lambda>v.
           Inr (out @ [(k, v)], write_back @ [(as_usize (idx row), sender_encode cd (k, v))]))))
       (out, wb) (map (\<lambda>j. nullifier_row cd j (xs ! j)) js) =
     Inr (out @ map ((!) xs) js, wb @ map (\<lambda>j. (word_of_nat j, sender_encode cd (xs ! j))) js)" for wb
    using assms by (induction js arbitrary: out wb) (auto simp: commitment_roundtrip)
  from this [of "[]"] show ?thesis
    by (simp add: decode_nullifiers_def)
qed

end

section \<open>Lemmas: reading a range through the cache\<close>

text \<open>
  The scheme of \<open>pull_receivers_for_shard\<close> and \<open>pull_senders\<close>: a sequence of items, the cache key
  of each index, and genuine cache entries.
\<close>

locale read_through = lru_crate lr
  for lr :: "'c lru_ops" +
  fixes good :: "u64 \<Rightarrow> bytes \<Rightarrow> bool"
    and key :: "usize \<Rightarrow> u64"
    and dec :: "bytes \<Rightarrow> 'a option"
    and enc :: "'a \<Rightarrow> bytes"
    and items :: "'a list"
  assumes good_key: "good (key i) b \<Longrightarrow> unat i < 2 ^ 48 \<Longrightarrow> unat i < length items \<and> b = enc (items ! unat i)"
    and good_item: "j < length items \<Longrightarrow> good (key (word_of_nat j)) (enc (items ! j))"
    and dec_enc: "x \<in> set items \<Longrightarrow> dec (enc x) = Some x"
begin

definition hits :: "'c \<Rightarrow> usize list \<Rightarrow> usize list" where
  "hits c is = filter (\<lambda>i. lru_peek lr c (key i) \<noteq> None) is"

definition misses :: "'c \<Rightarrow> usize list \<Rightarrow> usize list" where
  "misses c is = filter (\<lambda>i. lru_peek lr c (key i) = None) is"

lemma hit_genuine:
  assumes "single.coherent good c" and "unat i < 2 ^ 48" and "lru_peek lr c (key i) = Some b"
  shows "unat i < length items" "b = enc (items ! unat i)" "dec b = Some (items ! unat i)"
proof -
  from assms(1,3) have "good (key i) b" by (simp add: single.coherent_def)
  from good_key [OF this assms(2)] show "unat i < length items" "b = enc (items ! unat i)" by simp_all
  then show "dec b = Some (items ! unat i)" by (simp add: dec_enc)
qed

lemma lookup_phase:
  assumes "single.coherent good c" and "\<forall>i \<in> set is. unat i < 2 ^ 48"
  shows "split_cached dec is (fst (get_batch_lru lr c (map key is))) out =
      Inr (out @ map (\<lambda>i. items ! unat i) (hits c is), length (hits c is), map as_i64 (misses c is))"
    and "single.coherent good (snd (get_batch_lru lr c (map key is)))"
proof -
  have "fst (get_batch_lru lr c (map key is)) = map (\<lambda>i. lru_peek lr c (key i)) is"
    using get_batch_lru_eq [of c "map key is"] by (simp add: comp_def)
  moreover have "split_cached dec is (map (\<lambda>i. lru_peek lr c (key i)) is) out =
      Inr (out @ map (\<lambda>i. items ! unat i) (hits c is), length (hits c is), map as_i64 (misses c is))"
    unfolding hits_def misses_def
    by (rule split_cached_eq) (rule hit_genuine(3) [OF assms(1)], use assms(2) in auto)
  ultimately show "split_cached dec is (fst (get_batch_lru lr c (map key is))) out =
      Inr (out @ map (\<lambda>i. items ! unat i) (hits c is), length (hits c is), map as_i64 (misses c is))"
    by simp
  show "single.coherent good (snd (get_batch_lru lr c (map key is)))"
    using assms(1) get_batch_lru_eq [of c "map key is"] by (simp add: single.coherent_def)
qed

lemma write_back_phase:
  assumes "single.coherent good c" and "\<forall>j \<in> set js. j < length items"
  shows "single.coherent good (put_batch_lru lr c (map (\<lambda>j. (key (word_of_nat j), enc (items ! j))) js))"
  using single.put_batch_coherent [OF TrueI assms(1), of "map (\<lambda>j. (key (word_of_nat j), enc (items ! j))) js"]
    assms(2) good_item by auto

lemma delivered:
  assumes "single.coherent good c" and "\<forall>i \<in> set is. unat i < 2 ^ 48"
    and "map unat is = [a ..< a + n]"
    and "mset js = mset (filter (\<lambda>j. j < length items) (map unat (misses c is)))"
  shows "mset (map (\<lambda>i. items ! unat i) (hits c is) @ map ((!) items) js) = mset (take n (drop a items))"
proof -
  have hit: "filter (\<lambda>j. j < length items) (map unat (hits c is)) = map unat (hits c is)"
    using hit_genuine(1) [OF assms(1)] assms(2) by (auto simp: filter_id_conv hits_def)
  have "mset (hits c is @ misses c is) = mset is"
    by (simp add: hits_def misses_def multiset_partition [symmetric])
  then have "mset (map unat (hits c is @ misses c is)) = mset (map unat is)"
    by (metis mset_map)
  then have "mset (filter (\<lambda>j. j < length items) (map unat (hits c is @ misses c is))) =
      mset (filter (\<lambda>j. j < length items) (map unat is))"
    by (rule mset_filter_cong)
  then have "mset (map unat (hits c is) @ js) = mset (filter (\<lambda>j. j < length items) [a ..< a + n])"
    using assms(3,4) hit by (simp only: map_append filter_append mset_append)
  then have "mset (map ((!) items) (map unat (hits c is) @ js)) =
      mset (map ((!) items) (filter (\<lambda>j. j < length items) [a ..< a + n]))"
    by (metis mset_map)
  then show ?thesis
    unfolding map_nth_range by (simp add: comp_def)
qed

text \<open>The positions that a batch delivers: the cached ones, ascending, and behind them the others.\<close>

lemma delivered_positions:
  assumes "single.coherent good c" and "\<forall>i \<in> set is. unat i < 2 ^ 48"
    and "map unat is = [a ..< a + n]"
    and "mset js = mset (filter (\<lambda>j. j < length items) (map unat (misses c is)))"
  shows "map unat (hits c is) = filter (\<lambda>j. lru_peek lr c (key (word_of_nat j)) \<noteq> None)
      (filter (\<lambda>j. j < length items) [a ..< a + n])"
    and "mset js = mset (filter (\<lambda>j. \<not> lru_peek lr c (key (word_of_nat j)) \<noteq> None)
      (filter (\<lambda>j. j < length items) [a ..< a + n]))"
proof -
  have hit: "filter (\<lambda>j. j < length items) (map unat (hits c is)) = map unat (hits c is)"
    using hit_genuine(1) [OF assms(1)] assms(2) by (auto simp: filter_id_conv hits_def)
  have hits: "map unat (hits c is) = filter (\<lambda>j. lru_peek lr c (key (word_of_nat j)) \<noteq> None) [a ..< a + n]"
    unfolding assms(3) [symmetric] by (simp add: filter_map comp_def hits_def)
  have misses: "map unat (misses c is) = filter (\<lambda>j. \<not> lru_peek lr c (key (word_of_nat j)) \<noteq> None) [a ..< a + n]"
    unfolding assms(3) [symmetric] by (simp add: filter_map comp_def misses_def)
  show "map unat (hits c is) = filter (\<lambda>j. lru_peek lr c (key (word_of_nat j)) \<noteq> None)
      (filter (\<lambda>j. j < length items) [a ..< a + n])"
    using hit unfolding hits by (simp add: conj_commute)
  show "mset js = mset (filter (\<lambda>j. \<not> lru_peek lr c (key (word_of_nat j)) \<noteq> None)
      (filter (\<lambda>j. j < length items) [a ..< a + n]))"
    using assms(4) unfolding misses by (simp add: conj_commute)
qed

end

end
