(* ===== verification/Sync.thy ===== *)
theory Sync
  imports Pull
begin

text \<open>
  \<open>src/indexer/sync.rs\<close>: the job that copies the ledger of the full node into the database and
  the cache.

  The full node is a parameter, a function from the time (the number of requests made so far) to
  the answer to a request: it sees the name of the method and the parameters by position. The
  computation of the shard of a UTXO is in \<open>manta_pay\<close>: the parameter \<open>forest\<close>, where
  \<open>parameters_ok\<close> says whether the built-in hash parameters decode and \<open>tree_index\<close> is undefined
  on a UTXO that does not convert. The iteration order of the hash map of shards is a parameter of
  each round.

  A round that fails leaves the tables and the cache as they were. The loop of
  \<open>sync_shards_from_full_node\<close> and that of the job may run forever: they are partial functions
  into \<open>option\<close>, and that they return is stated and proved as such.
\<close>

section \<open>One request\<close>

type_synonym ('u, 'n, 'o) full_node =
  "string \<Rightarrow> checkpoint \<times> u64 \<times> u64 \<Rightarrow> jsonrpsee_error + ('u, 'n, 'o) pull_response"

definition synchronize_ledger ::
  "('u, 'n, 'o) full_node \<Rightarrow> checkpoint \<Rightarrow> u64 \<Rightarrow> u64 \<Rightarrow> anyhow_error + ('u, 'n, 'o) pull_response" where
  "synchronize_ledger node ckp max_sender_count max_receiver_count =
     (let max_receiver_count = min max_receiver_count MAX_RECEIVERS;
          max_sender_count = min max_sender_count MAX_SENDERS
      in map_err Jsonrpsee (node PULL_LEDGER_DIFF_METHODS (ckp, max_sender_count, max_receiver_count)))"

record 'u forest =
  parameters_ok :: bool
  tree_index :: "'u \<Rightarrow> u8 option"

type_synonym ('u, 'n) shard_map = "(u8 \<times> ('u, 'n) receiver_chunk) list"
type_synonym ('u, 'n) shard_order = "('u, 'n) shard_map \<Rightarrow> ('u, 'n) shard_map"

definition reconstruct_shards_from_pull_response ::
  "'u forest \<Rightarrow> ('u, 'n, 'o) pull_response \<Rightarrow> anyhow_error + ('u, 'n) shard_map" where
  "reconstruct_shards_from_pull_response forest resp =
     (if \<not> parameters_ok forest then Inl (Panic ''Unable to decode the Merkle Tree Item Hash.'')
      else foldE (\<lambda>shards receiver.
          bindE (ok_or (Indexer BadUtxo) (tree_index forest (fst receiver))) (\<lambda>s.
            Inr (entry_push s receiver shards))) [] (receivers resp))"

section \<open>One round of synchronisation\<close>

text \<open>The inserts of one shard, of all shards, and of the senders, inside the transaction.\<close>

definition store_shard ::
  "('u, 'n, 'o) codec \<Rightarrow> sqlite \<Rightarrow> checkpoint \<Rightarrow> db \<Rightarrow> u8 \<times> ('u, 'n) receiver_chunk \<Rightarrow> anyhow_error + db" where
  "store_shard cd sq ckp d sh =
     (let utxo_index_beginning_offset = receiver_index ckp (fst sh)
      in foldE (\<lambda>d (offset, content).
           insert_one_shard cd sq d (fst sh) (utxo_index_beginning_offset + word_of_nat offset)
             (fst content) (snd content)) d (enumerate 0 (snd sh)))"

definition store_senders ::
  "('u, 'n, 'o) codec \<Rightarrow> sqlite \<Rightarrow> usize \<Rightarrow> db \<Rightarrow> 'o sender_chunk \<Rightarrow> anyhow_error + db" where
  "store_senders cd sq nullifier_checkpoint d ss =
     foldE (\<lambda>d (i, nul). insert_one_nullifier cd sq d (word_of_nat i + nullifier_checkpoint) (fst nul) (snd nul))
       d (enumerate 0 ss)"

text \<open>
  The transaction of a round: it returns the tables at commit and the number of nullifiers that
  were stored before.
\<close>

definition store_response ::
  "('u, 'n, 'o) codec \<Rightarrow> sqlite \<Rightarrow> ('u, 'n) shard_order \<Rightarrow> checkpoint \<Rightarrow> db \<Rightarrow> ('u, 'n) shard_map \<Rightarrow>
   ('u, 'n, 'o) pull_response \<Rightarrow> anyhow_error + db \<times> usize" where
  "store_response cd sq ord ckp d shards resp =
     bindE (try_sqlx (execute sq Op_acquire)) (\<lambda>_.
     bindE (try_sqlx (execute sq Op_begin)) (\<lambda>_.
     bindE (foldE (store_shard cd sq ckp) d (ord shards)) (\<lambda>d1.
     bindE (get_len_of_nullifier sq d1) (\<lambda>nullifier_checkpoint.
     bindE (store_senders cd sq nullifier_checkpoint d1 (senders resp)) (\<lambda>d2.
     bindE (update_or_insert_total_senders_receivers sq d2 (senders_receivers_total resp)) (\<lambda>d3.
     bindE (try_sqlx (execute sq Op_commit)) (\<lambda>_.
       Inr (d3, nullifier_checkpoint))))))))"

definition refresh_lru ::
  "('u, 'n, 'o) codec \<Rightarrow> 'c lru_ops \<Rightarrow> ('u, 'n) shard_order \<Rightarrow> checkpoint \<Rightarrow> usize \<Rightarrow> ('u, 'n) shard_map \<Rightarrow>
   'o sender_chunk \<Rightarrow> 'c \<Rightarrow> 'c" where
  "refresh_lru cd lr ord ckp nullifier_checkpoint shards ss cache =
     (let cache1 = fold (\<lambda>(s, items) cache.
            put_batch_receiver lr cache s
              (map (\<lambda>(offset, content). (receiver_index ckp s + word_of_nat offset, receiver_encode cd content))
                (enumerate 0 items))) (ord shards) cache
      in put_batch_sender lr cache1
           (map (\<lambda>(i, nul). (nullifier_checkpoint + word_of_nat i, sender_encode cd nul)) (enumerate 0 ss)))"

definition increasing_checkpoint ::
  "('u, 'n) shard_order \<Rightarrow> checkpoint \<Rightarrow> usize \<Rightarrow> ('u, 'n) shard_map \<Rightarrow> checkpoint" where
  "increasing_checkpoint ord ckp incremental_sender incremental_receiver =
     fold (\<lambda>(i, utxos) ckp. ckp\<lparr>receiver_index := (receiver_index ckp)
         (i := receiver_index ckp i + word_of_nat (length utxos))\<rparr>)
       (ord incremental_receiver)
       (ckp\<lparr>sender_index := sender_index ckp + incremental_sender\<rparr>)"

record 'c sync_state =
  st_db :: db
  st_cache :: 'c
  init_syncing_finished :: bool

text \<open>
  What the world contributes to one attempt: the database engine with its faults, the answer of
  the full node, and the iteration order of the hash map of shards.
\<close>

record ('u, 'n, 'o) world =
  engine_of :: sqlite
  node_of :: "('u, 'n, 'o) full_node"
  order_of :: "('u, 'n) shard_order"

text \<open>The body of the loop: it returns the flag \<open>should_continue\<close> and the next checkpoint.\<close>

definition sync_round ::
  "('u, 'n, 'o) codec \<Rightarrow> 'c lru_ops \<Rightarrow> 'u forest \<Rightarrow> ('u, 'n, 'o) world \<Rightarrow> u64 \<times> u64 \<Rightarrow> bool \<Rightarrow>
   checkpoint \<Rightarrow> 'c sync_state \<Rightarrow> (anyhow_error + bool \<times> checkpoint) \<times> 'c sync_state" where
  "sync_round cd lr forest w max_count refresh_cache ckp st =
     (let (max_sender_count, max_receiver_count) = max_count in
      case bindE (synchronize_ledger (node_of w) ckp max_sender_count max_receiver_count) (\<lambda>resp.
           bindE (reconstruct_shards_from_pull_response forest resp) (\<lambda>shards.
           bindE (store_response cd (engine_of w) (order_of w) ckp (st_db st) shards resp) (\<lambda>(d, nullifier_checkpoint).
             Inr (resp, shards, d, nullifier_checkpoint)))) of
        Inl e \<Rightarrow> (Inl e, st)
      | Inr (resp, shards, d, nullifier_checkpoint) \<Rightarrow>
          (Inr (should_continue resp,
                increasing_checkpoint (order_of w) ckp (word_of_nat (length (senders resp))) shards),
           st\<lparr>st_db := d,
              st_cache := (if refresh_cache
                then refresh_lru cd lr (order_of w) ckp nullifier_checkpoint shards (senders resp) (st_cache st)
                else st_cache st),
              init_syncing_finished := (\<not> should_continue resp \<or> init_syncing_finished st)\<rparr>))"

section \<open>The synchronisation loop\<close>

text \<open>
  \<open>clock\<close> counts the attempts, and \<open>world clock\<close> is the world at that time. The result has the
  value that the function returns, the state it leaves, and the clock.
\<close>

partial_function (option) sync_loop ::
  "('u, 'n, 'o) codec \<Rightarrow> 'c lru_ops \<Rightarrow> 'u forest \<Rightarrow> (nat \<Rightarrow> ('u, 'n, 'o) world) \<Rightarrow> u64 \<times> u64 \<Rightarrow> bool \<Rightarrow>
   nat \<Rightarrow> checkpoint \<Rightarrow> 'c sync_state \<Rightarrow> ((anyhow_error + unit) \<times> 'c sync_state \<times> nat) option" where
  "sync_loop cd lr forest world max_count refresh_cache clock ckp st =
     (case sync_round cd lr forest (world clock) max_count refresh_cache ckp st of
        (Inl e, st') \<Rightarrow> Some (Inl e, st', Suc clock)
      | (Inr (continue, ckp'), st') \<Rightarrow>
          if continue then sync_loop cd lr forest world max_count refresh_cache (Suc clock) ckp' st'
          else Some (Inr (), st', Suc clock))"

definition sync_shards_from_full_node ::
  "('u, 'n, 'o) codec \<Rightarrow> 'c lru_ops \<Rightarrow> 'u forest \<Rightarrow> (nat \<Rightarrow> ('u, 'n, 'o) world) \<Rightarrow> u64 \<times> u64 \<Rightarrow> bool \<Rightarrow>
   nat \<Rightarrow> 'c sync_state \<Rightarrow> ((anyhow_error + unit) \<times> 'c sync_state \<times> nat) option" where
  "sync_shards_from_full_node cd lr forest world max_count refresh_cache clock st =
     (case get_latest_check_point (engine_of (world clock)) (st_db st) of
        Inl e \<Rightarrow> Some (Inl e, st, Suc clock)
      | Inr current_checkpoint \<Rightarrow>
          sync_loop cd lr forest world max_count refresh_cache clock current_checkpoint st)"

section \<open>The synchronisation job\<close>

text \<open>
  The job calls the synchronisation until the shutdown flag is up; \<open>shutdown k\<close> is what the
  \<open>k\<close>-th check of the flag reads. It sleeps after a success only. \<open>synced_times\<close> is a \<open>u32\<close>.

  An \<open>Err\<close> of the call is counted. A panic inside the call is not an \<open>Err\<close>: it unwinds the spawned
  task, so that the job ends without another check of the flag, and the handle of the task
  reports the panic. The result of an iteration and of the job is \<open>Inl\<close> of the panic's message, or
  \<open>Inr ()\<close>. An unwound transaction is dropped and thereby rolled back.
\<close>

record 'c job_state =
  job_sync :: "'c sync_state"
  job_clock :: nat
  synced_times :: u32
  sync_error_count :: nat
  slept :: "u64 list"

definition job_iteration ::
  "('u, 'n, 'o) codec \<Rightarrow> 'c lru_ops \<Rightarrow> 'u forest \<Rightarrow> (nat \<Rightarrow> ('u, 'n, 'o) world) \<Rightarrow> u64 \<times> u64 \<Rightarrow> u64 \<Rightarrow>
   'c job_state \<Rightarrow> ((string + unit) \<times> 'c job_state) option" where
  "job_iteration cd lr forest world max_count frequency job =
     (case sync_shards_from_full_node cd lr forest world (fst max_count, snd max_count) True
             (job_clock job) (job_sync job) of
        None \<Rightarrow> None
      | Some (Inr _, st, clock) \<Rightarrow>
          Some (Inr (), job\<lparr>job_sync := st, job_clock := clock, synced_times := synced_times job + 1,
                    slept := slept job @ [frequency]\<rparr>)
      | Some (Inl (Panic msg), st, clock) \<Rightarrow>
          Some (Inl msg, job\<lparr>job_sync := st, job_clock := clock\<rparr>)
      | Some (Inl e, st, clock) \<Rightarrow>
          Some (Inr (), job\<lparr>job_sync := st, job_clock := clock, sync_error_count := sync_error_count job + 1\<rparr>))"

partial_function (option) job_loop ::
  "('u, 'n, 'o) codec \<Rightarrow> 'c lru_ops \<Rightarrow> 'u forest \<Rightarrow> (nat \<Rightarrow> ('u, 'n, 'o) world) \<Rightarrow> u64 \<times> u64 \<Rightarrow> u64 \<Rightarrow>
   (nat \<Rightarrow> bool) \<Rightarrow> nat \<Rightarrow> 'c job_state \<Rightarrow> ((string + unit) \<times> 'c job_state) option" where
  "job_loop cd lr forest world max_count frequency shutdown k job =
     (case job_iteration cd lr forest world max_count frequency job of
        None \<Rightarrow> None
      | Some (Inl msg, job') \<Rightarrow> Some (Inl msg, job')
      | Some (Inr _, job') \<Rightarrow>
          if shutdown k then Some (Inr (), job')
          else job_loop cd lr forest world max_count frequency shutdown (Suc k) job')"

definition start_sync_ledger_job ::
  "('u, 'n, 'o) codec \<Rightarrow> 'c lru_ops \<Rightarrow> 'u forest \<Rightarrow> (nat \<Rightarrow> ('u, 'n, 'o) world) \<Rightarrow> u64 \<times> u64 \<Rightarrow> u64 \<Rightarrow>
   (nat \<Rightarrow> bool) \<Rightarrow> 'c sync_state \<Rightarrow> ((string + unit) \<times> 'c job_state) option" where
  "start_sync_ledger_job cd lr forest world max_count frequency shutdown st =
     job_loop cd lr forest world max_count frequency shutdown 0
       \<lparr>job_sync = st, job_clock = 0, synced_times = 0, sync_error_count = 0, slept = []\<rparr>"

section \<open>The walks of the benchmark client\<close>

text \<open>
  \<open>get_check_point_from_node\<close>, \<open>pull_ledger_diff_from_local_node\<close> and
  \<open>pull_ledger_diff_from_sqlite\<close> pull a whole ledger without storing it. They share their loop;
  \<open>fetch\<close> is the request of one step: \<open>synchronize_ledger\<close> for a node, \<open>pull_ledger_diff\<close> for the
  local database, which also changes the cache. The first returns the last checkpoint; the other
  two return the elapsed time, which is not modelled: here they return the last checkpoint too.
  \<open>client\<close> is the result of \<open>create_ws_client\<close>.
\<close>

partial_function (option) walk_checkpoints ::
  "'u forest \<Rightarrow> (nat \<Rightarrow> ('u, 'n) shard_order) \<Rightarrow>
   (nat \<Rightarrow> checkpoint \<Rightarrow> 's \<Rightarrow> (anyhow_error + ('u, 'n, 'o) pull_response) \<times> 's) \<Rightarrow>
   nat \<Rightarrow> checkpoint \<Rightarrow> checkpoint \<Rightarrow> 's \<Rightarrow> ((anyhow_error + checkpoint) \<times> 's) option" where
  "walk_checkpoints forest ord fetch clock current_ckp next_ckp s =
     (case fetch clock next_ckp s of
        (Inl e, s') \<Rightarrow> Some (Inl e, s')
      | (Inr resp, s') \<Rightarrow>
          (case reconstruct_shards_from_pull_response forest resp of
             Inl e \<Rightarrow> Some (Inl e, s')
           | Inr shards \<Rightarrow>
               let next_ckp' = calculate_next_checkpoint (ord clock) shards current_ckp next_ckp
                     (word_of_nat (length (senders resp)))
               in if \<not> should_continue resp then Some (Inr next_ckp', s')
                  else walk_checkpoints forest ord fetch (Suc clock) next_ckp' next_ckp' s'))"

definition get_check_point_from_node ::
  "'u forest \<Rightarrow> (nat \<Rightarrow> ('u, 'n) shard_order) \<Rightarrow> anyhow_error + (nat \<Rightarrow> ('u, 'n, 'o) full_node) \<Rightarrow>
   (anyhow_error + checkpoint) option" where
  "get_check_point_from_node forest ord client =
     (case client of
        Inl e \<Rightarrow> Some (Inl e)
      | Inr node \<Rightarrow> map_option fst (walk_checkpoints forest ord
          (\<lambda>clock ckp _. (synchronize_ledger (node clock) ckp (1024 * 15) (1024 * 15), ()))
          0 checkpoint_default checkpoint_default ()))"

definition pull_ledger_diff_from_local_node ::
  "'u forest \<Rightarrow> (nat \<Rightarrow> ('u, 'n) shard_order) \<Rightarrow> anyhow_error + (nat \<Rightarrow> ('u, 'n, 'o) full_node) \<Rightarrow>
   (anyhow_error + checkpoint) option" where
  "pull_ledger_diff_from_local_node forest ord client =
     (case client of
        Inl e \<Rightarrow> Some (Inl e)
      | Inr node \<Rightarrow> map_option fst (walk_checkpoints forest ord
          (\<lambda>clock ckp _. (synchronize_ledger (node clock) ckp (1024 * 15) (1024 * 15), ()))
          0 checkpoint_default checkpoint_default ()))"

definition pull_ledger_diff_from_sqlite ::
  "('u, 'n, 'o) codec \<Rightarrow> 'c lru_ops \<Rightarrow> sqlite \<Rightarrow> 'u forest \<Rightarrow> (nat \<Rightarrow> ('u, 'n) shard_order) \<Rightarrow> db \<Rightarrow> 'c \<Rightarrow>
   ((anyhow_error + checkpoint) \<times> 'c) option" where
  "pull_ledger_diff_from_sqlite cd lr sq forest ord d cache =
     walk_checkpoints forest ord
       (\<lambda>clock ckp cache. case pull_ledger_diff cd lr sq d cache ckp (1024 * 15) (1024 * 15) of
          (r, cache') \<Rightarrow> (bindE r (\<lambda>p. Inr (fst p)), cache'))
       0 checkpoint_default checkpoint_default cache"

end
