(* ===== verification/Pull_Spec.thy ===== *)
theory Pull_Spec
  imports Pull
begin

text \<open>
  What a pull request delivers, against the ledger that the tables represent.

  The abstract specification is the greedy distribution of the limit over the shards
  (\<open>greedy_count\<close>, \<open>greedy_more\<close>). The locale \<open>ledger_view\<close> collects what a lookup of a batch relies
  on: the codec, the cache crate and a well-formed ledger; \<open>pull_env\<close> adds what a whole request relies
  on, an engine without faults whose tables hold the ledger. The refinement lemmas are proved in it,
  once for a shard and once for the senders through \<open>read_through\<close>.
\<close>

section \<open>The abstract specification\<close>

text \<open>
  Items of a shard from a cursor on; how many of them a request takes when the shards are served
  in order until the limit is used up; and the flag that the request returns.
\<close>

definition avail :: "('u, 'n, 'o) ledger \<Rightarrow> receiver_index_array \<Rightarrow> u8 \<Rightarrow> nat" where
  "avail L indices s = length (led_receivers L s) - unat (indices s)"

fun greedy_count :: "(u8 \<Rightarrow> nat) \<Rightarrow> nat \<Rightarrow> u8 list \<Rightarrow> u8 \<Rightarrow> nat" where
  "greedy_count av r [] s' = 0"
| "greedy_count av r (s # ss) s' =
     (if s' = s then min r (av s) else greedy_count av (r - min r (av s)) ss s')"

fun greedy_more :: "(u8 \<Rightarrow> nat) \<Rightarrow> nat \<Rightarrow> u8 list \<Rightarrow> bool" where
  "greedy_more av r [] = False"
| "greedy_more av r (s # ss) =
     (if av s = 0 then greedy_more av r ss
      else if r \<le> av s then r < av s
      else greedy_more av (r - av s) ss)"

section \<open>Lemmas: the greedy distribution\<close>

lemma greedy_count_le: "greedy_count av r ss s \<le> av s"
  by (induction ss arbitrary: r) auto

lemma greedy_count_zero: "greedy_count av 0 ss s = 0"
  by (induction ss) auto

lemma sum_greedy_count:
  "distinct ss \<Longrightarrow> (\<Sum>s \<leftarrow> ss. greedy_count av r ss s) = min r (\<Sum>s \<leftarrow> ss. av s)"
proof (induction ss arbitrary: r)
  case (Cons s ss)
  have "(\<Sum>s' \<leftarrow> ss. greedy_count av r (s # ss) s') = (\<Sum>s' \<leftarrow> ss. greedy_count av (r - min r (av s)) ss s')"
    using Cons.prems by (intro arg_cong [where f = sum_list] map_cong) auto
  also have "\<dots> = min (r - min r (av s)) (\<Sum>s \<leftarrow> ss. av s)"
    using Cons by simp
  finally show ?case
    by (auto simp: min_def)
qed simp

lemma greedy_more_left:
  "distinct ss \<Longrightarrow> greedy_more av r ss \<Longrightarrow> r < (\<Sum>s \<leftarrow> ss. av s)"
  by (induction ss arbitrary: r) (fastforce split: if_splits)+

lemma greedy_complete:
  "distinct ss \<Longrightarrow> (\<Sum>s \<leftarrow> ss. av s) \<le> r \<Longrightarrow> s \<in> set ss \<Longrightarrow> greedy_count av r ss s = av s"
  by (induction ss arbitrary: r) auto

lemma sum_take_Cons:
  "(\<exists>n. (\<Sum>s \<leftarrow> take n (x # xs). av s) = (r :: nat)) \<longleftrightarrow> r = 0 \<or> (\<exists>n. av x + (\<Sum>s \<leftarrow> take n xs. av s) = r)"
proof
  assume "\<exists>n. (\<Sum>s \<leftarrow> take n (x # xs). av s) = r"
  then obtain n where n: "(\<Sum>s \<leftarrow> take n (x # xs). av s) = r" by blast
  then show "r = 0 \<or> (\<exists>n. av x + (\<Sum>s \<leftarrow> take n xs. av s) = r)"
    by (cases n) auto
next
  assume "r = 0 \<or> (\<exists>n. av x + (\<Sum>s \<leftarrow> take n xs. av s) = r)"
  then show "\<exists>n. (\<Sum>s \<leftarrow> take n (x # xs). av s) = r"
  proof
    assume "\<exists>n. av x + (\<Sum>s \<leftarrow> take n xs. av s) = r"
    then obtain n where "av x + (\<Sum>s \<leftarrow> take n xs. av s) = r" by blast
    then show ?thesis by (intro exI [of _ "Suc n"]) simp
  qed (auto intro: exI [of _ 0])
qed

text \<open>With items left, the flag is down exactly when the limit is used up at the end of a shard.\<close>

lemma greedy_more_down_iff:
  assumes "r < (\<Sum>s \<leftarrow> ss. av s)"
  shows "\<not> greedy_more av r ss \<longleftrightarrow> 0 < r \<and> (\<exists>n. (\<Sum>s \<leftarrow> take n ss. av s) = r)"
  using assms
proof (induction ss arbitrary: r)
  case (Cons s ss)
  consider "av s = 0" | "0 < av s" "r \<le> av s" | "0 < av s" "av s < r" by linarith
  then show ?case
  proof cases
    case 1
    then show ?thesis using Cons unfolding sum_take_Cons by auto
  next
    case 2
    have "(\<exists>n. av s + (\<Sum>s \<leftarrow> take n ss. av s) = r) \<longleftrightarrow> av s = r"
      using 2 by (auto intro: exI [of _ 0])
    then show ?thesis using 2 unfolding sum_take_Cons by auto
  next
    case 3
    then have "(\<exists>n. av s + (\<Sum>s \<leftarrow> take n ss. av s) = r) \<longleftrightarrow> (\<exists>n. (\<Sum>s \<leftarrow> take n ss. av s) = r - av s)"
      by (metis add_diff_cancel_left' le_add_diff_inverse less_imp_le_nat)
    then show ?thesis using 3 Cons unfolding sum_take_Cons by auto
  qed
qed simp

lemma index_of_key:
  assumes "take_bit 48 (i :: u64) = take_bit 48 (word_of_nat j)" and "unat i < 2 ^ 48" and "j < 2 ^ 48"
  shows "unat i = j"
proof -
  have j: "unat (word_of_nat j :: u64) = j"
    using assms(3) by (intro unat_word_of_nat_u64) simp
  then have "unat (word_of_nat j :: u64) < 2 ^ 48"
    using assms(3) by (simp only:)
  then have "take_bit 48 (word_of_nat j :: u64) = word_of_nat j"
    by (rule take_bit_48_eq_id)
  then have "i = word_of_nat j"
    using assms(1) take_bit_48_eq_id [OF assms(2)] by (simp only:)
  then show ?thesis using j by (simp only:)
qed

text \<open>
  What a run over the shards \<open>ss\<close> yields that starts with the flag, cursors and receivers collected so
  far and may take \<open>r\<close> more: the chunk of each shard has the items that the greedy distribution
  gives it. The lemmas follow the three ways in which a run begins.
\<close>

definition greedy_result ::
  "('u, 'n, 'o) ledger \<Rightarrow> receiver_index_array \<Rightarrow> u8 list \<Rightarrow> bool \<Rightarrow> receiver_index_array \<Rightarrow> ('u \<times> 'n) list \<Rightarrow> nat \<Rightarrow>
   ('e + bool \<times> receiver_index_array \<times> ('u \<times> 'n) list) \<times> 'c \<Rightarrow> 'c \<Rightarrow> bool" where
  "greedy_result L indices ss m nxt out r res c' \<longleftrightarrow> (\<exists>chunks.
     res = (Inr (m \<or> greedy_more (avail L indices) r ss,
        (\<lambda>s. if s \<in> set ss then indices s + word_of_nat (greedy_count (avail L indices) r ss s) else nxt s),
        out @ concat (map chunks ss)), c') \<and>
     (\<forall>s \<in> set ss. mset (chunks s) =
        mset (take (greedy_count (avail L indices) r ss s) (drop (unat (indices s)) (led_receivers L s)))))"

lemma concat_chunk_other: "s \<notin> set ss \<Longrightarrow> concat (map (\<lambda>s'. if s' = s then new else chunks s') ss) = concat (map chunks ss)"
  by (intro arg_cong [where f = concat] map_cong) auto

lemma greedy_result_skip:
  assumes "avail L indices s = 0" and "s \<notin> set ss" and "nxt s = indices s" and "greedy_result L indices ss m nxt out r res c'"
  shows "greedy_result L indices (s # ss) m nxt out r res c'"
proof -
  obtain chunks where "res = (Inr (m \<or> greedy_more (avail L indices) r ss,
      (\<lambda>s. if s \<in> set ss then indices s + word_of_nat (greedy_count (avail L indices) r ss s) else nxt s),
      out @ concat (map chunks ss)), c')"
    "\<forall>s \<in> set ss. mset (chunks s) = mset (take (greedy_count (avail L indices) r ss s) (drop (unat (indices s)) (led_receivers L s)))"
    using assms(4) unfolding greedy_result_def by blast
  then show ?thesis
    unfolding greedy_result_def using assms(1-3) concat_chunk_other [OF assms(2), of "[]" chunks]
    by (intro exI [of _ "\<lambda>s'. if s' = s then [] else chunks s'"]) (auto simp: fun_eq_iff)
qed

lemma greedy_result_last:
  assumes "avail L indices s \<noteq> 0" and "s \<notin> set ss" and "\<forall>s \<in> set ss. nxt s = indices s"
    and "mset new = mset (take (min r (avail L indices s)) (drop (unat (indices s)) (led_receivers L s)))"
    and "length new = min r (avail L indices s)" and "r \<le> avail L indices s"
  shows "greedy_result L indices (s # ss) m nxt out r
    (Inr (m \<or> r < avail L indices s, nxt(s := indices s + word_of_nat (length new)), out @ new), c') c'"
  unfolding greedy_result_def using assms concat_chunk_other [OF assms(2), of new "\<lambda>_. []"]
  by (intro exI [of _ "\<lambda>s'. if s' = s then new else []"]) (auto simp: fun_eq_iff greedy_count_zero)

lemma greedy_result_more:
  assumes "avail L indices s \<noteq> 0" and "s \<notin> set ss"
    and "mset new = mset (take (min r (avail L indices s)) (drop (unat (indices s)) (led_receivers L s)))"
    and "length new = min r (avail L indices s)" and "avail L indices s < r"
    and "greedy_result L indices ss m (nxt(s := indices s + word_of_nat (length new))) (out @ new) (r - avail L indices s) res c'"
  shows "greedy_result L indices (s # ss) m nxt out r res c'"
proof -
  let ?r = "r - avail L indices s" and ?nxt = "nxt(s := indices s + word_of_nat (length new))"
  obtain chunks where "res = (Inr (m \<or> greedy_more (avail L indices) ?r ss,
      (\<lambda>s. if s \<in> set ss then indices s + word_of_nat (greedy_count (avail L indices) ?r ss s) else ?nxt s),
      (out @ new) @ concat (map chunks ss)), c')"
    "\<forall>s \<in> set ss. mset (chunks s) = mset (take (greedy_count (avail L indices) ?r ss s) (drop (unat (indices s)) (led_receivers L s)))"
    using assms(6) unfolding greedy_result_def by blast
  then show ?thesis
    unfolding greedy_result_def using assms(1-5) concat_chunk_other [OF assms(2), of new chunks]
    by (intro exI [of _ "\<lambda>s'. if s' = s then new else chunks s'"]) (auto simp: fun_eq_iff)
qed

section \<open>The environment of a request\<close>

text \<open>The cache against a ledger: what its entries mean.\<close>

locale ledger_view = scale_codec cd + lru_crate lr
  for cd :: "('u, 'n, 'o) codec" and lr :: "'c lru_ops" +
  fixes L :: "('u, 'n, 'o) ledger"
  assumes ledger: "ledger_wf L"
begin

lemma receiver_entry:
  assumes "ledger_entry cd L (receiver_key (ucast s) i) b" and "unat i < 2 ^ 48"
  shows "unat i < length (led_receivers L s) \<and> b = receiver_encode cd (led_receivers L s ! unat i)"
proof -
  from assms(1) obtain s' j where j: "j < length (led_receivers L s')"
    "receiver_key (ucast s) i = receiver_key (ucast s') (word_of_nat j)"
    "b = receiver_encode cd (led_receivers L s' ! j)"
    by (auto simp: ledger_entry_def receiver_key_neq_sender_key)
  then have s': "s' = s" and "take_bit 48 i = take_bit 48 (word_of_nat j)"
    by (simp_all add: receiver_key_eq_iff)
  moreover have "j < 2 ^ 48"
    using j(1) ledger_wfD(1) [OF ledger, of s'] by simp
  ultimately have "unat i = j"
    using index_of_key assms(2) by blast
  then show ?thesis using j s' by simp
qed

lemma sender_entry:
  assumes "ledger_entry cd L (sender_key i) b" and "unat i < 2 ^ 48"
  shows "unat i < length (led_senders L) \<and> b = sender_encode cd (led_senders L ! unat i)"
proof -
  from assms(1) obtain j where j: "j < length (led_senders L)"
    "sender_key i = sender_key (word_of_nat j)" "b = sender_encode cd (led_senders L ! j)"
    by (auto simp: ledger_entry_def receiver_key_neq_sender_key [symmetric])
  moreover from j(2) have "take_bit 48 i = take_bit 48 (word_of_nat j)"
    by (simp add: sender_key_eq_iff)
  moreover have "j < 2 ^ 48"
    using j(1) ledger_wfD(2) [OF ledger] by simp
  ultimately show ?thesis
    using index_of_key assms(2) by blast
qed

end

sublocale ledger_view \<subseteq> rcv: read_through lr "ledger_entry cd L" "receiver_key (ucast s)"
    "receiver_decode cd" "receiver_encode cd" "led_receivers L s" for s :: u8
  by unfold_locales (auto simp: receiver_entry, auto simp: ledger_entry_def)

sublocale ledger_view \<subseteq> snd: read_through lr "ledger_entry cd L" sender_key
    "sender_decode cd" "sender_encode cd" "led_senders L"
proof (unfold_locales, goal_cases)
  case (3 x)
  then show ?case
    using ledger by (intro sender_roundtrip) (auto simp: ledger_wf_def list_all_iff)
qed (auto simp: sender_entry, auto simp: ledger_entry_def)

section \<open>Lemmas: one shard, and the senders\<close>

lemma range_u64_below:
  assumes "unat i + unat n \<le> 2 ^ 48"
  shows "map unat (range_u64 i (i + n)) = [unat i ..< unat i + unat n]"
    and "\<forall>j \<in> set (range_u64 i (i + n)). unat j < 2 ^ 48"
proof -
  have add: "unat (i + n) = unat i + unat n"
    using assms by (intro unat_add_u64) simp
  then show r: "map unat (range_u64 i (i + n)) = [unat i ..< unat i + unat n]"
    by simp
  show "\<forall>j \<in> set (range_u64 i (i + n)). unat j < 2 ^ 48"
  proof
    fix j assume "j \<in> set (range_u64 i (i + n))"
    then have "unat j \<in> set (map unat (range_u64 i (i + n)))"
      unfolding set_map by (rule imageI)
    then show "unat j < 2 ^ 48"
      unfolding r using assms by simp
  qed
qed

context ledger_view
begin

lemma coherent_iff: "cache_coherent cd lr L c \<longleftrightarrow> single.coherent (ledger_entry cd L) c"
  by (simp add: cache_coherent_def single.coherent_def)

text \<open>
  A batch of receivers, or of senders, from a lookup and a query that both succeed: the slice of the
  ledger, in some order. Only the cache and the query refer to the ledger, so that the lookup may
  be older than the query.
\<close>

lemma receiver_batch:
  assumes "cache_coherent cd lr L c" and "unat i + unat amount \<le> 2 ^ 48"
    and "sqlite_ok sq" and "holds_ledger cd L d"
    and "split_cached (receiver_decode cd) (range_u64 i (i + amount))
      (fst (get_batch_shard_receiver lr c s (range_u64 i (i + amount)))) out = Inr (out1, cached, q)"
    and "get_batched_shards_by_idxs sq d s q = Inr rows" and "decode_shards cd rows out1 = Inr (out2, wb)"
  shows "\<exists>new. out2 = out @ new \<and> mset new = mset (take (unat amount) (drop (unat i) (led_receivers L s))) \<and>
    length new = length rows + cached"
proof -
  let ?ids = "range_u64 i (i + amount)"
  note range = range_u64_below [OF assms(2)]
  note coh = assms(1) [unfolded coherent_iff]
  have out1: "out1 = out @ map (\<lambda>i. led_receivers L s ! unat i) (rcv.hits s c ?ids)"
    and cached: "cached = length (rcv.hits s c ?ids)" and q: "q = map as_i64 (rcv.misses s c ?ids)"
    using rcv.lookup_phase(1) [where s = s, OF coh range(2), of out] assms(5)
    by (simp_all add: get_batch_shard_receiver_def comp_def)
  have "distinct (rcv.misses s c ?ids)" by (simp add: rcv.misses_def)
  from mset_eq_mset_map_ex [OF get_batched_shards_by_idxs_rows [OF assms(3,4) ledger this assms(6) [unfolded q]]]
  obtain js where js: "rows = map (\<lambda>j. shard_row cd s j (led_receivers L s ! j)) js"
    "mset js = mset (filter (\<lambda>j. j < length (led_receivers L s)) (map unat (rcv.misses s c ?ids)))"
    by blast
  have "out2 = out1 @ map ((!) (led_receivers L s)) js"
    using assms(7) decode_shards_rows [of s "led_receivers L s" js out1] by (simp add: js(1))
  then show ?thesis
    using rcv.delivered [OF coh range(2,1) js(2)] by (simp add: out1 cached js(1))
qed

lemma sender_batch:
  assumes "cache_coherent cd lr L c" and "unat i + unat amount \<le> 2 ^ 48"
    and "sqlite_ok sq" and "holds_ledger cd L d"
    and "split_cached (sender_decode cd) (range_u64 i (i + amount))
      (fst (get_batch_sender lr c (range_u64 i (i + amount)))) [] = Inr (out1, cached, q)"
    and "get_batched_nullifier_by_idxs sq d q = Inr rows" and "decode_nullifiers cd rows out1 = Inr (out2, wb)"
  shows "mset out2 = mset (take (unat amount) (drop (unat i) (led_senders L)))"
proof -
  let ?ids = "range_u64 i (i + amount)"
  note range = range_u64_below [OF assms(2)]
  note coh = assms(1) [unfolded coherent_iff]
  have out1: "out1 = map (\<lambda>i. led_senders L ! unat i) (snd.hits c ?ids)" and q: "q = map as_i64 (snd.misses c ?ids)"
    using snd.lookup_phase(1) [OF coh range(2), of "[]"] assms(5)
    by (simp_all add: get_batch_sender_def comp_def)
  have "distinct (snd.misses c ?ids)" by (simp add: snd.misses_def)
  from mset_eq_mset_map_ex [OF get_batched_nullifier_by_idxs_rows [OF assms(3,4) ledger this assms(6) [unfolded q]]]
  obtain js where js: "rows = map (\<lambda>j. nullifier_row cd j (led_senders L ! j)) js"
    "mset js = mset (filter (\<lambda>j. j < length (led_senders L)) (map unat (snd.misses c ?ids)))"
    by blast
  have "length (fst (led_senders L ! j)) = 32" if "j \<in> set js" for j
    using that mset_eq_setD [OF js(2)] ledger_wfD(3) [OF ledger] by auto
  from decode_nullifiers_rows [OF this, of js out1] have "out2 = out1 @ map ((!) (led_senders L)) js"
    using assms(7) by (simp add: js(1))
  then show ?thesis
    using snd.delivered [OF coh range(2,1) js(2)] by (simp add: out1)
qed

end

text \<open>The positions that a batch asks for and the ledger has, and which of them the cache holds.\<close>

definition requested :: "u64 \<Rightarrow> u64 \<Rightarrow> 'a list \<Rightarrow> nat list" where
  "requested i amount xs = filter (\<lambda>j. j < length xs) [unat i ..< unat i + unat amount]"

definition receiver_cached :: "'c lru_ops \<Rightarrow> 'c \<Rightarrow> u8 \<Rightarrow> nat \<Rightarrow> bool" where
  "receiver_cached lr c s j \<longleftrightarrow> lru_peek lr c (receiver_key (ucast s) (word_of_nat j)) \<noteq> None"

definition sender_cached :: "'c lru_ops \<Rightarrow> 'c \<Rightarrow> nat \<Rightarrow> bool" where
  "sender_cached lr c j \<longleftrightarrow> lru_peek lr c (sender_key (word_of_nat j)) \<noteq> None"

lemma requested_props:
  "sorted_wrt (<) (requested i amount xs)" "map ((!) xs) (requested i amount xs) = take (unat amount) (drop (unat i) xs)"
  "set (requested i amount xs) = {j. unat i \<le> j \<and> j < unat i + unat amount \<and> j < length xs}"
  by (auto simp: requested_def map_nth_range sorted_wrt_filter)

text \<open>What an uninterrupted request relies on: an engine without faults whose tables hold the ledger.\<close>

locale pull_env = ledger_view cd lr L
  for cd :: "('u, 'n, 'o) codec" and lr :: "'c lru_ops" and L :: "('u, 'n, 'o) ledger" +
  fixes sq :: sqlite and d :: db
  assumes engine: "sqlite_ok sq" "fault_free sq"
    and tables: "holds_ledger cd L d"
begin

lemma rcv_rows:
  assumes "distinct is"
  shows "\<exists>js. get_batched_shards_by_idxs sq d s (map as_i64 is) =
      Inr (map (\<lambda>j. shard_row cd s j (led_receivers L s ! j)) js) \<and>
    mset js = mset (filter (\<lambda>j. j < length (led_receivers L s)) (map unat is))"
proof -
  obtain rows where rows: "get_batched_shards_by_idxs sq d s (map as_i64 is) = Inr rows"
    "mset rows = mset (map (\<lambda>j. shard_row cd s j (led_receivers L s ! j))
      (filter (\<lambda>j. j < length (led_receivers L s)) (map unat is)))"
    using get_batched_shards_by_idxs_ledger [OF engine tables ledger assms] by blast
  from mset_eq_mset_map_ex [OF rows(2)] show ?thesis using rows(1) by blast
qed

lemma snd_rows:
  assumes "distinct is"
  shows "\<exists>js. get_batched_nullifier_by_idxs sq d (map as_i64 is) =
      Inr (map (\<lambda>j. nullifier_row cd j (led_senders L ! j)) js) \<and>
    mset js = mset (filter (\<lambda>j. j < length (led_senders L)) (map unat is))"
proof -
  obtain rows where rows: "get_batched_nullifier_by_idxs sq d (map as_i64 is) = Inr rows"
    "mset rows = mset (map (\<lambda>j. nullifier_row cd j (led_senders L ! j))
      (filter (\<lambda>j. j < length (led_senders L)) (map unat is)))"
    using get_batched_nullifier_by_idxs_ledger [OF engine tables ledger assms] by blast
  from mset_eq_mset_map_ex [OF rows(2)] show ?thesis using rows(1) by blast
qed

lemma pull_receivers_for_shard_exact:
  assumes "cache_coherent cd lr L c" and "unat i + unat amount \<le> 2 ^ 48"
  shows "\<exists>js c'. pull_receivers_for_shard cd lr sq d c s i amount out =
      (Inr (unat i + unat amount < length (led_receivers L s),
        out @ map (\<lambda>i. led_receivers L s ! unat i) (rcv.hits s c (range_u64 i (i + amount))) @
        map ((!) (led_receivers L s)) js), c') \<and>
    get_batched_shards_by_idxs sq d s (map as_i64 (rcv.misses s c (range_u64 i (i + amount)))) =
      Inr (map (\<lambda>j. shard_row cd s j (led_receivers L s ! j)) js) \<and>
    mset js = mset (filter (\<lambda>j. j < length (led_receivers L s))
      (map unat (rcv.misses s c (range_u64 i (i + amount))))) \<and>
    cache_coherent cd lr L c'"
proof -
  define rs where "rs = led_receivers L s"
  define ids where "ids = range_u64 i (i + amount)"
  note range = range_u64_below [OF assms(2), folded ids_def]
  define c1 where "c1 = snd (get_batch_lru lr c (map (receiver_key (ucast s)) ids))"
  have coh: "single.coherent (ledger_entry cd L) c"
    using assms(1) by (simp add: coherent_iff)
  have "distinct ids" by (simp add: ids_def)
  then have "distinct (rcv.misses s c ids)" by (simp add: rcv.misses_def)
  then obtain js where js: "get_batched_shards_by_idxs sq d s (map as_i64 (rcv.misses s c ids)) =
      Inr (map (\<lambda>j. shard_row cd s j (rs ! j)) js)"
    "mset js = mset (filter (\<lambda>j. j < length rs) (map unat (rcv.misses s c ids)))"
    unfolding rs_def using rcv_rows by blast
  define new where "new = map (\<lambda>i. rs ! unat i) (rcv.hits s c ids) @ map ((!) rs) js"
  define c2 where "c2 = put_batch_lru lr c1 (map (\<lambda>j. (receiver_key (ucast s) (word_of_nat j), receiver_encode cd (rs ! j))) js)"
  note look = rcv.lookup_phase [where s = s, OF coh range(2), folded rs_def c1_def]
  have new: "mset new = mset (take (unat amount) (drop (unat i) rs))"
    unfolding new_def rs_def
    by (rule rcv.delivered [OF coh range(2) range(1)]) (use js(2) in \<open>simp_all only: rs_def\<close>)
  have "\<forall>j \<in> set js. j < length rs"
    using mset_eq_setD [OF js(2)] by auto
  then have coh2: "cache_coherent cd lr L c2"
    unfolding coherent_iff c2_def rs_def by (intro rcv.write_back_phase look(2))
  have more: "has_shard sq d s (i + amount) \<longleftrightarrow> unat i + unat amount < length rs"
    using has_shard_ledger [OF engine tables ledger, of s "i + amount"] assms(2)
    by (subst (asm) unat_add_u64) (simp_all add: rs_def)
  have "length js + length (rcv.hits s c ids) = length new"
    by (simp add: new_def)
  also have "\<dots> = min (unat amount) (length rs - unat i)"
    using mset_eq_length [OF new] by simp
  finally have flag: "length js + length (rcv.hits s c ids) = unat amount \<and> has_shard sq d s (i + amount)
      \<longleftrightarrow> unat i + unat amount < length rs"
    using more by auto
  have "pull_receivers_for_shard cd lr sq d c s i amount out =
      (Inr (unat i + unat amount < length rs, out @ new), c2)"
    using look(1) [of out] js(1) decode_shards_rows [of s rs js] flag
    by (simp add: pull_receivers_for_shard_def get_batch_shard_receiver_def put_batch_receiver_def
        Let_def split_beta ids_def [symmetric] c1_def [symmetric] c2_def new_def comp_def)
  then show ?thesis
    using js coh2 unfolding rs_def new_def ids_def by blast
qed

lemma pull_receivers_for_shard_ok:
  assumes "cache_coherent cd lr L c" and "unat i + unat amount \<le> 2 ^ 48"
  shows "\<exists>new c'. pull_receivers_for_shard cd lr sq d c s i amount out =
      (Inr (unat i + unat amount < length (led_receivers L s), out @ new), c') \<and>
    mset new = mset (take (unat amount) (drop (unat i) (led_receivers L s))) \<and>
    cache_coherent cd lr L c'"
  using pull_receivers_for_shard_exact [OF assms, of s out]
    rcv.delivered [OF assms(1) [unfolded coherent_iff] range_u64_below(2,1) [OF assms(2)], of _ s]
  by blast

lemma pull_receivers_for_shard_positions:
  assumes "cache_coherent cd lr L c" and "unat i + unat amount \<le> 2 ^ 48"
  shows "\<exists>ks c'. pull_receivers_for_shard cd lr sq d c s i amount out =
      (Inr (unat i + unat amount < length (led_receivers L s), out @ map ((!) (led_receivers L s))
        (filter (receiver_cached lr c s) (requested i amount (led_receivers L s)) @ ks)), c') \<and>
    mset ks = mset (filter (\<lambda>j. \<not> receiver_cached lr c s j) (requested i amount (led_receivers L s)))"
proof -
  let ?ids = "range_u64 i (i + amount)"
  obtain js c' where js: "pull_receivers_for_shard cd lr sq d c s i amount out =
      (Inr (unat i + unat amount < length (led_receivers L s),
        out @ map (\<lambda>i. led_receivers L s ! unat i) (rcv.hits s c ?ids) @ map ((!) (led_receivers L s)) js), c')"
    "mset js = mset (filter (\<lambda>j. j < length (led_receivers L s)) (map unat (rcv.misses s c ?ids)))"
    using pull_receivers_for_shard_exact [OF assms, of s out] by blast
  note pos = rcv.delivered_positions [OF assms(1) [unfolded coherent_iff] range_u64_below(2,1) [OF assms(2)] js(2),
      folded receiver_cached_def requested_def]
  have "map (\<lambda>i. led_receivers L s ! unat i) (rcv.hits s c ?ids) = map ((!) (led_receivers L s))
      (filter (receiver_cached lr c s) (requested i amount (led_receivers L s)))"
    unfolding pos(1) [symmetric] by simp
  then show ?thesis using js(1) pos(2) by auto
qed

lemma pull_senders_exact:
  assumes "cache_coherent cd lr L c" and "unat i + unat amount \<le> 2 ^ 48"
  shows "\<exists>js c'. pull_senders cd lr sq d c i amount =
      (Inr (unat i + unat amount < length (led_senders L), i + amount,
        map (\<lambda>i. led_senders L ! unat i) (snd.hits c (range_u64 i (i + amount))) @ map ((!) (led_senders L)) js), c') \<and>
    get_batched_nullifier_by_idxs sq d (map as_i64 (snd.misses c (range_u64 i (i + amount)))) =
      Inr (map (\<lambda>j. nullifier_row cd j (led_senders L ! j)) js) \<and>
    mset js = mset (filter (\<lambda>j. j < length (led_senders L)) (map unat (snd.misses c (range_u64 i (i + amount))))) \<and>
    cache_coherent cd lr L c'"
proof -
  define xs where "xs = led_senders L"
  define ids where "ids = range_u64 i (i + amount)"
  note range = range_u64_below [OF assms(2), folded ids_def]
  define c1 where "c1 = snd (get_batch_lru lr c (map sender_key ids))"
  have coh: "single.coherent (ledger_entry cd L) c"
    using assms(1) by (simp add: coherent_iff)
  have "distinct ids" by (simp add: ids_def)
  then have "distinct (snd.misses c ids)" by (simp add: snd.misses_def)
  then obtain js where js: "get_batched_nullifier_by_idxs sq d (map as_i64 (snd.misses c ids)) =
      Inr (map (\<lambda>j. nullifier_row cd j (xs ! j)) js)"
    "mset js = mset (filter (\<lambda>j. j < length xs) (map unat (snd.misses c ids)))"
    unfolding xs_def using snd_rows by blast
  define new where "new = map (\<lambda>i. xs ! unat i) (snd.hits c ids) @ map ((!) xs) js"
  define c2 where "c2 = put_batch_lru lr c1 (map (\<lambda>j. (sender_key (word_of_nat j), sender_encode cd (xs ! j))) js)"
  note look = snd.lookup_phase [OF coh range(2), folded xs_def c1_def]
  have below: "\<forall>j \<in> set js. j < length xs"
    using mset_eq_setD [OF js(2)] by auto
  then have coh2: "cache_coherent cd lr L c2"
    unfolding coherent_iff c2_def xs_def by (intro snd.write_back_phase look(2))
  have more: "has_nullifier sq d (i + amount) \<longleftrightarrow> unat i + unat amount < length xs"
    using has_nullifier_ledger [OF engine tables ledger, of "i + amount"] assms(2)
    by (subst (asm) unat_add_u64) (simp_all add: xs_def)
  have "decode_nullifiers cd (map (\<lambda>j. nullifier_row cd j (xs ! j)) js) out =
      Inr (out @ map ((!) xs) js, map (\<lambda>j. (word_of_nat j, sender_encode cd (xs ! j))) js)" for out
    using below ledger_wfD(3) [OF ledger] by (intro decode_nullifiers_rows) (simp add: xs_def)
  then have "pull_senders cd lr sq d c i amount =
      (Inr (unat i + unat amount < length xs, i + amount, new), c2)"
    using look(1) [of "[]"] js(1) more
    by (simp add: pull_senders_def get_batch_sender_def put_batch_sender_def
        Let_def split_beta ids_def [symmetric] c1_def [symmetric] c2_def new_def comp_def)
  then show ?thesis
    using js coh2 unfolding xs_def new_def ids_def by blast
qed

lemma pull_senders_ok:
  assumes "cache_coherent cd lr L c" and "unat i + unat amount \<le> 2 ^ 48"
  shows "\<exists>new c'. pull_senders cd lr sq d c i amount =
      (Inr (unat i + unat amount < length (led_senders L), i + amount, new), c') \<and>
    mset new = mset (take (unat amount) (drop (unat i) (led_senders L))) \<and>
    cache_coherent cd lr L c'"
  using pull_senders_exact [OF assms]
    snd.delivered [OF assms(1) [unfolded coherent_iff] range_u64_below(2,1) [OF assms(2)]]
  by blast

lemma pull_senders_positions:
  assumes "cache_coherent cd lr L c" and "unat i + unat amount \<le> 2 ^ 48"
  shows "\<exists>ks c'. pull_senders cd lr sq d c i amount =
      (Inr (unat i + unat amount < length (led_senders L), i + amount, map ((!) (led_senders L))
        (filter (sender_cached lr c) (requested i amount (led_senders L)) @ ks)), c') \<and>
    mset ks = mset (filter (\<lambda>j. \<not> sender_cached lr c j) (requested i amount (led_senders L)))"
proof -
  let ?ids = "range_u64 i (i + amount)"
  obtain js c' where js: "pull_senders cd lr sq d c i amount =
      (Inr (unat i + unat amount < length (led_senders L), i + amount,
        map (\<lambda>i. led_senders L ! unat i) (snd.hits c ?ids) @ map ((!) (led_senders L)) js), c')"
    "mset js = mset (filter (\<lambda>j. j < length (led_senders L)) (map unat (snd.misses c ?ids)))"
    using pull_senders_exact [OF assms] by blast
  note pos = snd.delivered_positions [OF assms(1) [unfolded coherent_iff] range_u64_below(2,1) [OF assms(2)] js(2),
      folded sender_cached_def requested_def]
  have "map (\<lambda>i. led_senders L ! unat i) (snd.hits c ?ids) = map ((!) (led_senders L))
      (filter (sender_cached lr c) (requested i amount (led_senders L)))"
    unfolding pos(1) [symmetric] by simp
  then show ?thesis using js(1) pos(2) by auto
qed

text \<open>One round of the loop over the shards.\<close>

lemma pull_receivers_loop_skip:
  assumes "avail L indices s = 0"
  shows "pull_receivers_loop cd lr sq d indices max_amount (s # ss) m nxt out remain c =
    pull_receivers_loop cd lr sq d indices max_amount ss m nxt out remain c"
  using has_shard_ledger [OF engine tables ledger, of s "indices s"] assms
  by (simp add: avail_def)

lemma pull_receivers_loop_step:
  assumes "cache_coherent cd lr L c" and "unat max_amount \<le> 2 ^ 47" and "length out \<le> unat max_amount"
    and "unat remain = unat max_amount - length out" and "avail L indices s \<noteq> 0"
  shows "\<exists>new c1. pull_receivers_loop cd lr sq d indices max_amount (s # ss) m nxt out remain c =
      (let nxt1 = nxt(s := indices s + word_of_nat (length new)) in
       if unat remain \<le> avail L indices s
       then (Inr (m \<or> unat remain < avail L indices s, nxt1, out @ new), c1)
       else pull_receivers_loop cd lr sq d indices max_amount ss m nxt1 (out @ new)
           (max_amount - word_of_nat (length (out @ new))) c1) \<and>
    mset new = mset (take (min (unat remain) (avail L indices s)) (drop (unat (indices s)) (led_receivers L s))) \<and>
    length new = min (unat remain) (avail L indices s) \<and> cache_coherent cd lr L c1"
proof -
  define i where "i = indices s"
  define av where "av = avail L indices s"
  have i: "unat i < length (led_receivers L s)"
    using assms(5) by (simp add: avail_def i_def)
  then have "unat i + unat remain \<le> 2 ^ 48"
    using ledger_wfD(1) [OF ledger, of s] assms(2,4) by simp
  from pull_receivers_for_shard_ok [OF assms(1) this, of s out] obtain new c1 where
    step: "pull_receivers_for_shard cd lr sq d c s i remain out =
      (Inr (unat i + unat remain < length (led_receivers L s), out @ new), c1)"
    and new: "mset new = mset (take (unat remain) (drop (unat i) (led_receivers L s)))"
    and coh: "cache_coherent cd lr L c1" by blast
  have len: "length new = min (unat remain) av"
    using mset_eq_length [OF new] by (simp add: av_def avail_def i_def)
  have new': "mset new = mset (take (min (unat remain) av) (drop (unat i) (led_receivers L s)))"
    using new by (auto simp: av_def avail_def i_def min_def)
  have flag: "unat i + unat remain < length (led_receivers L s) \<longleftrightarrow> unat remain < av"
    using i by (auto simp: av_def avail_def i_def)
  have "has_shard sq d s i"
    using has_shard_ledger [OF engine tables ledger, of s i] i by simp
  then have "pull_receivers_loop cd lr sq d indices max_amount (s # ss) m nxt out remain c =
      (let nxt1 = nxt(s := i + word_of_nat (length new)) in
       if unat remain \<le> av then (Inr (m \<or> unat remain < av, nxt1, out @ new), c1)
       else pull_receivers_loop cd lr sq d indices max_amount ss m nxt1 (out @ new)
         (max_amount - word_of_nat (length (out @ new))) c1)"
    using step flag len assms(3,4) by (auto simp: i_def [symmetric] Let_def algebra_simps)
  then show ?thesis
    using new' len coh unfolding i_def av_def by blast
qed

text \<open>The loop over the shards realises the greedy distribution.\<close>

lemma pull_receivers_loop_ok:
  assumes "cache_coherent cd lr L c" and "unat max_amount \<le> 2 ^ 47" and "distinct ss"
    and "length out \<le> unat max_amount" and "unat remain = unat max_amount - length out"
    and "\<forall>s \<in> set ss. nxt s = indices s"
  shows "\<exists>c'. greedy_result L indices ss m nxt out (unat remain)
      (pull_receivers_loop cd lr sq d indices max_amount ss m nxt out remain c) c' \<and> cache_coherent cd lr L c'"
  using assms
proof (induction ss arbitrary: m nxt out remain c)
  case Nil
  then show ?case by (auto simp: greedy_result_def)
next
  case (Cons s ss)
  have s: "s \<notin> set ss" "distinct ss" "nxt s = indices s" "\<forall>s \<in> set ss. nxt s = indices s"
    using Cons.prems(3,6) by simp_all
  show ?case
  proof (cases "avail L indices s = 0")
    case True
    obtain c' where "greedy_result L indices ss m nxt out (unat remain)
        (pull_receivers_loop cd lr sq d indices max_amount ss m nxt out remain c) c'" "cache_coherent cd lr L c'"
      using Cons.IH [OF Cons.prems(1,2) s(2) Cons.prems(4,5) s(4)] by blast
    then show ?thesis
      unfolding pull_receivers_loop_skip [OF True] using greedy_result_skip [where nxt = nxt, OF True s(1,3)] by fast
  next
    case False
    obtain new c1 where loop: "pull_receivers_loop cd lr sq d indices max_amount (s # ss) m nxt out remain c =
        (let nxt1 = nxt(s := indices s + word_of_nat (length new)) in
         if unat remain \<le> avail L indices s then (Inr (m \<or> unat remain < avail L indices s, nxt1, out @ new), c1)
         else pull_receivers_loop cd lr sq d indices max_amount ss m nxt1 (out @ new)
           (max_amount - word_of_nat (length (out @ new))) c1)"
      and new: "mset new = mset (take (min (unat remain) (avail L indices s)) (drop (unat (indices s)) (led_receivers L s)))"
      and len: "length new = min (unat remain) (avail L indices s)" and coh: "cache_coherent cd lr L c1"
      using pull_receivers_loop_step [OF Cons.prems(1,2,4,5) False, of ss m nxt] by blast
    have le: "length (out @ new) \<le> unat max_amount"
      using len Cons.prems(4,5) by simp
    note remain1 = unat_sub_word_of_nat [OF le]
    define nxt1 where "nxt1 = nxt(s := indices s + word_of_nat (length new))"
    have nxt1: "\<forall>s' \<in> set ss. nxt1 s' = indices s'"
      using s by (auto simp: nxt1_def)
    show ?thesis
    proof (cases "unat remain \<le> avail L indices s")
      case True
      show ?thesis
        unfolding loop Let_def if_P [OF True]
        by (intro exI [of _ c1] conjI coh greedy_result_last [OF False s(1,4) new len True])
    next
      case r: False
      then have "unat (max_amount - word_of_nat (length (out @ new))) = unat remain - avail L indices s"
        using remain1 len Cons.prems(5) by simp
      with Cons.IH [OF coh Cons.prems(2) s(2) le remain1 nxt1, of m] obtain c' where
        "greedy_result L indices ss m nxt1 (out @ new) (unat remain - avail L indices s)
          (pull_receivers_loop cd lr sq d indices max_amount ss m nxt1 (out @ new)
            (max_amount - word_of_nat (length (out @ new))) c1) c'" "cache_coherent cd lr L c'"
        by auto
      then show ?thesis
        unfolding loop Let_def if_not_P [OF r] nxt1_def using r
        by (intro exI [of _ c'] conjI greedy_result_more [OF False s(1) new len]) simp_all
    qed
  qed
qed

lemma pull_receivers_ok:
  assumes "cache_coherent cd lr L c" and "unat max_amount \<le> 2 ^ 47"
  shows "\<exists>chunks c'. pull_receivers cd lr sq d c indices max_amount =
      (Inr (greedy_more (avail L indices) (unat max_amount) all_u8,
        (\<lambda>s. indices s + word_of_nat (greedy_count (avail L indices) (unat max_amount) all_u8 s)),
        concat (map chunks all_u8)), c') \<and>
    (\<forall>s. mset (chunks s) = mset (take (greedy_count (avail L indices) (unat max_amount) all_u8 s)
      (drop (unat (indices s)) (led_receivers L s)))) \<and>
    cache_coherent cd lr L c'"
  using pull_receivers_loop_ok [OF assms distinct_all_u8, of "[]" max_amount indices indices False]
  by (auto simp: pull_receivers_def greedy_result_def)

lemma pull_ledger_diff_ok:
  assumes "cache_coherent cd lr L c" and "unat max_receivers \<le> 2 ^ 47"
    and "unat (sender_index ckp) + unat max_senders \<le> 2 ^ 48"
    and "tbl_total d = Some tot" and "length tot = 16"
  shows "\<exists>chunks ss c'. pull_ledger_diff cd lr sq d c ckp max_receivers max_senders =
      (Inr (\<lparr>should_continue = (greedy_more (avail L (receiver_index ckp)) (unat max_receivers) all_u8
              \<or> unat (sender_index ckp) + unat max_senders < length (led_senders L)),
             receivers = concat (map chunks all_u8), senders = ss, senders_receivers_total = tot\<rparr>,
            \<lparr>receiver_index = (\<lambda>s. receiver_index ckp s +
               word_of_nat (greedy_count (avail L (receiver_index ckp)) (unat max_receivers) all_u8 s)),
             sender_index = sender_index ckp + max_senders\<rparr>), c') \<and>
    (\<forall>s. mset (chunks s) = mset (take (greedy_count (avail L (receiver_index ckp)) (unat max_receivers) all_u8 s)
      (drop (unat (receiver_index ckp s)) (led_receivers L s)))) \<and>
    mset ss = mset (take (unat max_senders) (drop (unat (sender_index ckp)) (led_senders L))) \<and>
    cache_coherent cd lr L c'"
proof -
  obtain chunks c1 where r: "pull_receivers cd lr sq d c (receiver_index ckp) max_receivers =
      (Inr (greedy_more (avail L (receiver_index ckp)) (unat max_receivers) all_u8,
        (\<lambda>s. receiver_index ckp s + word_of_nat (greedy_count (avail L (receiver_index ckp)) (unat max_receivers) all_u8 s)),
        concat (map chunks all_u8)), c1)"
    "\<forall>s. mset (chunks s) = mset (take (greedy_count (avail L (receiver_index ckp)) (unat max_receivers) all_u8 s)
      (drop (unat (receiver_index ckp s)) (led_receivers L s)))" "cache_coherent cd lr L c1"
    using pull_receivers_ok [OF assms(1,2)] by blast
  obtain ss c2 where "pull_senders cd lr sq d c1 (sender_index ckp) max_senders =
      (Inr (unat (sender_index ckp) + unat max_senders < length (led_senders L), sender_index ckp + max_senders, ss), c2)"
    "mset ss = mset (take (unat max_senders) (drop (unat (sender_index ckp)) (led_senders L)))"
    "cache_coherent cd lr L c2"
    using pull_senders_ok [OF r(3) assms(3)] by blast
  then show ?thesis
    using r assms(4,5) engine(2)
    by (intro exI [of _ chunks] exI [of _ ss] exI [of _ c2])
      (simp add: pull_ledger_diff_def get_total_senders_receivers_def db_simps)
qed

end

section \<open>A concrete environment\<close>

text \<open>
  Three receivers in shard 0, one in shard 3, two senders; the engine scans in table order. The
  properties below are applied to it.
\<close>

definition demo_ledger :: "(u8, u8, u8) ledger" where
  "demo_ledger = \<lparr>led_receivers = (\<lambda>s. if s = 0 then [(10, 11), (20, 21), (30, 31)]
       else if s = 3 then [(40, 41)] else []),
     led_senders = [(replicate 32 7, 70), (replicate 32 8, 80)]\<rparr>"

definition demo_db :: db where
  "demo_db = \<lparr>tbl_shards = shard_rows byte_codec 0 [(10, 11), (20, 21), (30, 31)] @ shard_rows byte_codec 3 [(40, 41)],
     tbl_nullifier = nullifier_rows byte_codec [(replicate 32 7, 70), (replicate 32 8, 80)],
     tbl_total = Some (replicate 16 6)\<rparr>"

definition demo_sqlite :: sqlite where
  "demo_sqlite = \<lparr>sql_error = (\<lambda>_. None), scan_shards = (\<lambda>rows. rows), scan_nullifier = (\<lambda>rows. rows),
     spare_rowid = (\<lambda>_. None)\<rparr>"

lemma filter_shard_rows:
  "filter (\<lambda>r. shard_index r = s) (shard_rows cd s' rs) = (if s' = s then shard_rows cd s' rs else [])"
  by (auto simp: shard_rows_def filter_map comp_def)

interpretation demo: pull_env byte_codec recency_lru demo_ledger demo_sqlite demo_db
proof (unfold_locales, goal_cases)
  case 4
  then show ?case
    by (auto simp: holds_ledger_def demo_ledger_def demo_db_def filter_shard_rows shard_rows_def [of _ _ "[]"])
qed (auto simp: ledger_wf_def demo_ledger_def sqlite_ok_def fault_free_def demo_sqlite_def visits_each_once_def
  sender_wf_def)

lemma empty_cache_coherent: "lru_crate lr \<Longrightarrow> 0 < cap \<Longrightarrow> cache_coherent cd lr L (lru_new lr cap)"
  by (simp add: cache_coherent_def lru_crate.new_empty)

lemma ledger_viewI: "scale_codec cd \<Longrightarrow> lru_crate lr \<Longrightarrow> ledger_wf L \<Longrightarrow> ledger_view cd lr L"
  by (simp add: ledger_view_def ledger_view_axioms_def)

lemma pull_envI:
  assumes "scale_codec cd" "lru_crate lr" "ledger_wf L" "sqlite_ok sq" "fault_free sq" "holds_ledger cd L d"
  shows "pull_env cd lr L sq d"
  using assms by (simp add: pull_env_def pull_env_axioms_def ledger_viewI)

lemmas demo_env = one_byte.scale_codec_axioms recency.lru_crate_axioms demo.ledger demo.engine demo.tables

lemma length_chunks:
  assumes "\<forall>s. mset (chunks s) = mset (take (greedy_count (avail L indices) r all_u8 s)
      (drop (unat (indices s)) (led_receivers L s)))"
  shows "length (concat (map chunks all_u8)) = min r (\<Sum>s \<leftarrow> all_u8. avail L indices s)"
proof -
  have "length (chunks s) = greedy_count (avail L indices) r all_u8 s" for s
  proof -
    have "length (chunks s) = length (take (greedy_count (avail L indices) r all_u8 s)
        (drop (unat (indices s)) (led_receivers L s)))"
      using assms by (intro mset_eq_length) simp
    then show ?thesis
      using greedy_count_le [of "avail L indices" r all_u8 s] by (simp add: avail_def)
  qed
  then have "length (concat (map chunks all_u8)) = (\<Sum>s \<leftarrow> all_u8. greedy_count (avail L indices) r all_u8 s)"
    by (simp add: length_concat comp_def)
  then show ?thesis
    by (simp add: sum_greedy_count)
qed

section \<open>Properties: receivers\<close>

text \<open>
  C5. The receivers of a response are the greedy distribution of the limit over the shards:
  the response is the concatenation, in shard order, of one chunk per shard; the chunk of a shard
  holds exactly the items from the requested index on, as many as the distribution assigns to the
  shard; the new cursor of each shard points right behind its chunk, so that nothing is skipped
  and nothing is delivered twice; and the cache stays coherent. This holds for every coherent
  cache content and every scan order of the database.
\<close>

theorem pull_receivers_refines_greedy:
  assumes "scale_codec cd" "lru_crate lr" "ledger_wf L" "sqlite_ok sq" "fault_free sq" "holds_ledger cd L d"
    and "cache_coherent cd lr L cache" and "unat max_amount \<le> 2 ^ 47"
  shows "\<exists>chunks cache'. pull_receivers cd lr sq d cache indices max_amount =
      (Inr (greedy_more (avail L indices) (unat max_amount) all_u8,
        (\<lambda>s. indices s + word_of_nat (greedy_count (avail L indices) (unat max_amount) all_u8 s)),
        concat (map chunks all_u8)), cache') \<and>
    (\<forall>s. mset (chunks s) = mset (take (greedy_count (avail L indices) (unat max_amount) all_u8 s)
      (drop (unat (indices s)) (led_receivers L s)))) \<and>
    cache_coherent cd lr L cache'"
  by (rule pull_env.pull_receivers_ok [OF pull_envI [OF assms(1-6)] assms(7,8)])

theorem pull_receivers_refines_greedy_witness:
  "\<exists>chunks cache'. pull_receivers byte_codec recency_lru demo_sqlite demo_db (lru_new recency_lru 8) (\<lambda>_. 1) 3 =
      (Inr (greedy_more (avail demo_ledger (\<lambda>_. 1)) 3 all_u8,
        (\<lambda>s. 1 + word_of_nat (greedy_count (avail demo_ledger (\<lambda>_. 1)) 3 all_u8 s)),
        concat (map chunks all_u8)), cache') \<and>
    (\<forall>s. mset (chunks s) = mset (take (greedy_count (avail demo_ledger (\<lambda>_. 1)) 3 all_u8 s)
      (drop 1 (led_receivers demo_ledger s))))"
  using pull_receivers_refines_greedy [OF demo_env, of "lru_new recency_lru 8" 3 "\<lambda>_. 1"]
    empty_cache_coherent [OF recency.lru_crate_axioms, of 8 byte_codec demo_ledger] by auto

text \<open>
  C10. When the flag misleads: with receivers left beyond the limit, the flag is nevertheless down
  exactly when the limit is positive and is used up at the end of a shard, i.e. when it equals the
  number of items left in the first \<open>n\<close> shards for some \<open>n\<close>. The later shards are not looked at
  then, and a client that stops on the flag misses their items.
\<close>

theorem pull_receivers_flag_down_iff:
  assumes "scale_codec cd" "lru_crate lr" "ledger_wf L" "sqlite_ok sq" "fault_free sq" "holds_ledger cd L d"
    and "cache_coherent cd lr L cache" and "unat max_amount \<le> 2 ^ 47"
    and "unat max_amount < (\<Sum>s \<leftarrow> all_u8. avail L indices s)"
  shows "\<exists>more_rs nxt rs cache'. pull_receivers cd lr sq d cache indices max_amount = (Inr (more_rs, nxt, rs), cache') \<and>
    (\<not> more_rs \<longleftrightarrow> 0 < max_amount \<and> (\<exists>n. (\<Sum>s \<leftarrow> take n all_u8. avail L indices s) = unat max_amount))"
proof -
  have "0 < max_amount \<longleftrightarrow> 0 < unat max_amount"
    by (simp add: word_less_nat_alt)
  then show ?thesis
    using pull_env.pull_receivers_ok [OF pull_envI [OF assms(1-6)] assms(7,8), of indices]
      greedy_more_down_iff [OF assms(9)] by auto
qed

lemma demo_avail:
  "avail demo_ledger (\<lambda>_. 0) s = (if s = 0 then 3 else if s = 3 then 1 else 0)"
  by (simp add: avail_def demo_ledger_def)

lemma demo_total: "(\<Sum>s \<leftarrow> all_u8. avail demo_ledger (\<lambda>_. 0) s) = 4"
proof -
  have "(\<Sum>s \<leftarrow> all_u8. avail demo_ledger (\<lambda>_. 0) s) = sum (avail demo_ledger (\<lambda>_. 0)) UNIV"
    by (simp add: sum_list_distinct_conv_sum_set)
  also have "\<dots> = sum (avail demo_ledger (\<lambda>_. 0)) {0, 3}"
    by (rule sum.mono_neutral_right) (auto simp: demo_avail)
  finally show ?thesis by (simp add: demo_avail)
qed

theorem pull_receivers_flag_down_iff_witness:
  "\<exists>nxt rs cache'. pull_receivers byte_codec recency_lru demo_sqlite demo_db (lru_new recency_lru 8) (\<lambda>_. 0) 3 =
      (Inr (False, nxt, rs), cache')"
proof -
  have "(\<Sum>s \<leftarrow> take 1 all_u8. avail demo_ledger (\<lambda>_. 0) s) = 3"
    by (simp add: all_u8_def upt_conv_Cons demo_avail)
  then show ?thesis
    using pull_receivers_flag_down_iff [OF demo_env, of "lru_new recency_lru 8" 3 "\<lambda>_. 0"] demo_total
      empty_cache_coherent [OF recency.lru_crate_axioms, of 8 byte_codec demo_ledger] by fastforce
qed

section \<open>Properties: senders and whole requests\<close>

text \<open>
  C8. A whole request: when the table of totals has its 16 bytes, \<open>pull_ledger_diff\<close> succeeds; it
  delivers the greedy distribution of the receivers, the slice of the senders and the stored total,
  it continues when either part has its flag up, and the next checkpoint is built from the two
  cursors.
\<close>

theorem pull_ledger_diff_delivers:
  assumes "scale_codec cd" "lru_crate lr" "ledger_wf L" "sqlite_ok sq" "fault_free sq" "holds_ledger cd L d"
    and "cache_coherent cd lr L cache" and "unat max_receivers \<le> 2 ^ 47"
    and "unat (sender_index ckp) + unat max_senders \<le> 2 ^ 48"
    and "tbl_total d = Some tot" and "length tot = 16"
  shows "\<exists>chunks ss cache'. pull_ledger_diff cd lr sq d cache ckp max_receivers max_senders =
      (Inr (\<lparr>should_continue = (greedy_more (avail L (receiver_index ckp)) (unat max_receivers) all_u8
              \<or> unat (sender_index ckp) + unat max_senders < length (led_senders L)),
             receivers = concat (map chunks all_u8), senders = ss, senders_receivers_total = tot\<rparr>,
            \<lparr>receiver_index = (\<lambda>s. receiver_index ckp s +
               word_of_nat (greedy_count (avail L (receiver_index ckp)) (unat max_receivers) all_u8 s)),
             sender_index = sender_index ckp + max_senders\<rparr>), cache') \<and>
    (\<forall>s. mset (chunks s) = mset (take (greedy_count (avail L (receiver_index ckp)) (unat max_receivers) all_u8 s)
      (drop (unat (receiver_index ckp s)) (led_receivers L s)))) \<and>
    mset ss = mset (take (unat max_senders) (drop (unat (sender_index ckp)) (led_senders L))) \<and>
    cache_coherent cd lr L cache'"
  by (rule pull_env.pull_ledger_diff_ok [OF pull_envI [OF assms(1-6)] assms(7-11)])

theorem pull_ledger_diff_delivers_witness:
  "\<exists>resp nxt cache'. pull_ledger_diff byte_codec recency_lru demo_sqlite demo_db (lru_new recency_lru 8)
      checkpoint_default 3 1 = (Inr (resp, nxt), cache') \<and>
    should_continue resp \<and> mset (senders resp) = {#(replicate 32 7, 70)#} \<and>
    senders_receivers_total resp = replicate 16 6 \<and> sender_index nxt = 1"
proof -
  have "mset (take (unat (1 :: u64)) (drop (unat (sender_index checkpoint_default)) (led_senders demo_ledger))) =
      {#(replicate 32 7, 70)#}"
    and "length (led_senders demo_ledger) = 2" and "tbl_total demo_db = Some (replicate 16 6)"
    by (simp_all add: demo_ledger_def demo_db_def checkpoint_default_def)
  then show ?thesis
    using pull_ledger_diff_delivers [OF demo_env, of "lru_new recency_lru 8" 3 checkpoint_default 1 "replicate 16 6"]
      empty_cache_coherent [OF recency.lru_crate_axioms, of 8 byte_codec demo_ledger]
    by (auto simp: checkpoint_default_def)
qed

text \<open>
  C30. Before the first synchronisation has stored a total, every request fails: the response is
  the error \<open>RowNotFound\<close>, although receivers and senders were read.
\<close>

theorem pull_ledger_diff_without_total:
  assumes "scale_codec cd" "lru_crate lr" "ledger_wf L" "sqlite_ok sq" "fault_free sq" "holds_ledger cd L d"
    and "cache_coherent cd lr L cache" and "unat max_receivers \<le> 2 ^ 47"
    and "unat (sender_index ckp) + unat max_senders \<le> 2 ^ 48"
    and "tbl_total d = None"
  shows "\<exists>cache'. pull_ledger_diff cd lr sq d cache ckp max_receivers max_senders = (Inl (Sqlx RowNotFound), cache') \<and>
    cache_coherent cd lr L cache'"
proof -
  note env = pull_envI [OF assms(1-6)]
  obtain r c1 where "pull_receivers cd lr sq d cache (receiver_index ckp) max_receivers = (Inr r, c1)"
    and c1: "cache_coherent cd lr L c1"
    using pull_env.pull_receivers_ok [OF env assms(7,8)] by blast
  moreover obtain s c2 where "pull_senders cd lr sq d c1 (sender_index ckp) max_senders = (Inr s, c2)"
    and "cache_coherent cd lr L c2"
    using pull_env.pull_senders_ok [OF env c1 assms(9)] by blast
  ultimately show ?thesis
    using assms(5,10)
    by (cases r, cases s) (simp add: pull_ledger_diff_def get_total_senders_receivers_def db_simps)
qed

theorem pull_ledger_diff_without_total_witness:
  "\<exists>cache'. pull_ledger_diff byte_codec recency_lru demo_sqlite empty_db (lru_new recency_lru 8)
      checkpoint_default 10 10 = (Inl (Sqlx RowNotFound), cache')"
  using pull_ledger_diff_without_total [OF demo_env(1,2) _ demo_env(4,5) empty_db_holds,
      of "lru_new recency_lru 8" 10 checkpoint_default 10]
    empty_cache_coherent [OF recency.lru_crate_axioms, of 8 byte_codec empty_ledger]
  by (auto simp: checkpoint_default_def ledger_wf_def empty_ledger_def empty_db_def)

text \<open>
  C17. The sender cursor can point past the end of the ledger. When the receivers keep the request
  going and fewer senders than the limit are left, the client is told to continue from a sender
  index that lies beyond the senders of the ledger; the senders that arrive in between get indices
  below that cursor, and no later request from it delivers them.
\<close>

theorem sender_cursor_overshoots:
  assumes "scale_codec cd" "lru_crate lr" "ledger_wf L" "sqlite_ok sq" "fault_free sq" "holds_ledger cd L d"
    and "cache_coherent cd lr L cache" and "unat max_receivers \<le> 2 ^ 47"
    and "unat (sender_index ckp) + unat max_senders \<le> 2 ^ 48"
    and "tbl_total d = Some tot" and "length tot = 16"
    and "greedy_more (avail L (receiver_index ckp)) (unat max_receivers) all_u8"
    and "length (led_senders L) < unat (sender_index ckp) + unat max_senders"
  shows "\<exists>resp nxt cache'. pull_ledger_diff cd lr sq d cache ckp max_receivers max_senders = (Inr (resp, nxt), cache') \<and>
    should_continue resp \<and> length (led_senders L) < unat (sender_index nxt) \<and>
    (\<forall>x. drop (unat (sender_index nxt)) (led_senders (add_sender x L)) = [])"
proof -
  have nxt: "unat (sender_index ckp + max_senders) = unat (sender_index ckp) + unat max_senders"
    using assms(9) by (intro unat_add_u64) simp
  moreover have "drop (unat (sender_index ckp) + unat max_senders) (led_senders (add_sender x L)) = []" for x
    using assms(13) by (simp add: add_sender_def)
  ultimately show ?thesis
    using pull_env.pull_ledger_diff_ok [OF pull_envI [OF assms(1-6)] assms(7-11)] assms(12,13)
    by (auto simp: nxt)
qed

theorem sender_cursor_overshoots_witness:
  "\<exists>resp nxt cache'. pull_ledger_diff byte_codec recency_lru demo_sqlite demo_db (lru_new recency_lru 8)
      checkpoint_default 2 10 = (Inr (resp, nxt), cache') \<and> should_continue resp \<and> 2 < unat (sender_index nxt)"
proof -
  have "greedy_more (avail demo_ledger (\<lambda>_. 0)) 2 all_u8"
    by (simp add: all_u8_def upt_conv_Cons demo_avail)
  moreover have "length (led_senders demo_ledger) = 2" and "tbl_total demo_db = Some (replicate 16 6)"
    by (simp_all add: demo_ledger_def demo_db_def)
  ultimately show ?thesis
    using sender_cursor_overshoots [OF demo_env, of "lru_new recency_lru 8" 2 checkpoint_default 10 "replicate 16 6"]
      empty_cache_coherent [OF recency.lru_crate_axioms, of 8 byte_codec demo_ledger]
    by (auto simp: checkpoint_default_def)
qed

section \<open>Properties: the order of a response\<close>


text \<open>An engine that sorts every result by index.\<close>

definition sorting_sqlite :: sqlite where
  "sorting_sqlite = \<lparr>sql_error = (\<lambda>_. None), scan_shards = sort_key utxo_index, scan_nullifier = sort_key idx,
     spare_rowid = (\<lambda>_. None)\<rparr>"

lemma sorting_sqlite_ok:
  "sqlite_ok sorting_sqlite" "fault_free sorting_sqlite"
  "sorted (map utxo_index (scan_shards sorting_sqlite rows))"
  "sorted (map idx (scan_nullifier sorting_sqlite nrows))"
  by (simp_all add: sorting_sqlite_def sqlite_ok_def fault_free_def visits_each_once_def)


lemma demo_ranges: "range_u64 0 2 = [0, 1]" "range_u64 281474976710656 281474976710657 = [281474976710656]"
  by (simp_all add: range_u64_def upt_conv_Cons)

lemma demo_keys:
  "sender_key 0 = 2305843009213693952" "sender_key 1 = 2305843009213693953"
  "sender_key 281474976710656 = 2305843009213693952"
  by (simp_all add: sender_key_def key_consts mask_eq_exp_minus_1)

text \<open>The equations that evaluate \<open>pull_senders\<close> on the concrete environment.\<close>

lemmas pull_senders_eval = pull_senders_def get_batch_sender_def put_batch_sender_def demo_ranges demo_keys
  split_cached_def enumerate_eq_zip upt_conv_Cons recency_lru_def byte_codec_def nth_append
  get_batched_nullifier_by_idxs_def placeholder_def nullifier_by_idxs_params_def sorting_sqlite_def demo_db_def
  nullifier_rows_def nullifier_row_def fetch_all_def fetch_one_def execute_def decode_nullifiers_def
  has_nullifier_def as_i64_def as_usize_def

text \<open>
  C32. When the order of senders is lost: whatever the engine does, if the cache holds a requested
  sender and not an earlier requested one, which is what a synchronisation round leaves behind
  after a restart, then the response lists the later sender before the earlier one; with senders
  that are pairwise different it is not the slice of the ledger.
\<close>

theorem pull_senders_order_lost:
  assumes "scale_codec cd" "lru_crate lr" "ledger_wf L" "sqlite_ok sq" "fault_free sq" "holds_ledger cd L d"
    and "cache_coherent cd lr L cache" and "unat i + unat amount \<le> 2 ^ 48"
    and "unat i \<le> j" and "j < k" and "k < unat i + unat amount" and "k < length (led_senders L)"
    and "sender_cached lr cache k" and "\<not> sender_cached lr cache j"
  shows "\<exists>more nxt ss cache' as bs cs. pull_senders cd lr sq d cache i amount = (Inr (more, nxt, ss), cache') \<and>
    ss = as @ led_senders L ! k # bs @ led_senders L ! j # cs \<and>
    (distinct (led_senders L) \<longrightarrow> ss \<noteq> take (unat amount) (drop (unat i) (led_senders L)))"
proof -
  let ?xs = "led_senders L" and ?ps = "requested i amount (led_senders L)"
  obtain ks c' where res: "pull_senders cd lr sq d cache i amount =
      (Inr (unat i + unat amount < length ?xs, i + amount, map ((!) ?xs) (filter (sender_cached lr cache) ?ps @ ks)), c')"
    and ks: "mset ks = mset (filter (\<lambda>j. \<not> sender_cached lr cache j) ?ps)"
    using pull_env.pull_senders_positions [OF pull_envI [OF assms(1-6)] assms(7,8)] by blast
  have mem: "j \<in> set ?ps" "k \<in> set ?ps"
    using assms(9-12) by (auto simp: requested_props(3))
  then have "k \<in> set (filter (sender_cached lr cache) ?ps)" "j \<in> set ks"
    using assms(13,14) mset_eq_setD [OF ks] by auto
  then obtain as bs as' bs' where split: "filter (sender_cached lr cache) ?ps = as @ k # bs" "ks = as' @ j # bs'"
    by (meson split_list)
  define ss where "ss = map ((!) ?xs) (filter (sender_cached lr cache) ?ps @ ks)"
  have "ss = map ((!) ?xs) as @ ?xs ! k # map ((!) ?xs) (bs @ as') @ ?xs ! j # map ((!) ?xs) bs'"
    by (simp add: ss_def split)
  moreover have "ss \<noteq> take (unat amount) (drop (unat i) ?xs)" if "distinct ?xs"
  proof
    assume "ss = take (unat amount) (drop (unat i) ?xs)"
    then have "map ((!) ?xs) (filter (sender_cached lr cache) ?ps @ ks) = map ((!) ?xs) ?ps"
      by (simp only: ss_def requested_props(2))
    moreover have "inj_on ((!) ?xs) (set (filter (sender_cached lr cache) ?ps @ ks) \<union> set ?ps)"
      using that mset_eq_setD [OF ks] by (intro inj_on_nth) (auto simp: requested_props(3))
    ultimately have "filter (sender_cached lr cache) ?ps @ ks = ?ps"
      by (rule map_inj_on)
    then show False
      using filter_first_ascending_iff [OF requested_props(1) ks] mem assms(10,13,14) by blast
  qed
  ultimately show ?thesis using res unfolding ss_def by blast
qed

theorem pull_senders_order_lost_witness:
  "\<exists>more nxt ss cache' as bs cs. pull_senders byte_codec recency_lru sorting_sqlite demo_db
      (put_batch_sender recency_lru (lru_new recency_lru 8) [(1, sender_encode byte_codec (replicate 32 8, 80))]) 0 2 =
      (Inr (more, nxt, ss), cache') \<and> ss = as @ (replicate 32 8, 80) # bs @ (replicate 32 7, 70) # cs"
proof -
  let ?c = "put_batch_sender recency_lru (lru_new recency_lru 8) [(1, sender_encode byte_codec (replicate 32 8, 80))]"
  have xs: "led_senders demo_ledger = [(replicate 32 7, 70), (replicate 32 8, 80)]"
    by (simp add: demo_ledger_def)
  have peek: "lru_peek recency_lru ?c k = (if k = sender_key 1 then Some (sender_encode byte_codec (replicate 32 8, 80)) else None)" for k
    by (simp add: put_batch_sender_def recency_lru_def)
  then have "cache_coherent byte_codec recency_lru demo_ledger ?c"
    unfolding cache_coherent_def ledger_entry_def by (auto simp: xs intro!: exI [of _ 1])
  moreover have "sender_cached recency_lru ?c 1" "\<not> sender_cached recency_lru ?c 0"
    unfolding sender_cached_def peek by (simp_all add: demo_keys)
  ultimately have "\<exists>more nxt ss cache' as bs cs. pull_senders byte_codec recency_lru sorting_sqlite demo_db ?c 0 2 =
      (Inr (more, nxt, ss), cache') \<and> ss = as @ led_senders demo_ledger ! 1 # bs @ led_senders demo_ledger ! 0 # cs"
    using pull_senders_order_lost [OF demo_env(1-3) sorting_sqlite_ok(1,2) demo.tables, of ?c 0 2 0 1] xs by fastforce
  then show ?thesis by (simp only: xs) simp
qed

text \<open>
  A sender index of 48 bits or more is looked up under the cache key of its low 48 bits: with
  the first sender cached, a request for the index \<open>2 ^ 48\<close>, where the ledger has nothing, returns
  the first sender.
\<close>

lemma pull_senders_index_aliased:
  "fst (pull_senders byte_codec recency_lru sorting_sqlite demo_db
      (put_batch_sender recency_lru (lru_new recency_lru 8) [(0, sender_encode byte_codec (replicate 32 7, 70))])
      (2 ^ 48) 1) =
    Inr (False, 2 ^ 48 + 1, [(replicate 32 7, 70)])"
  by (simp add: pull_senders_eval)

end
