(* ===== verification/Sync_Spec.thy ===== *)
theory Sync_Spec
  imports Sync Pull_Spec "HOL-Library.Sublist"
begin

text \<open>
  What the synchronisation does to the ledger that the tables represent: a round extends it by the
  items of the response (\<open>extend_ledger\<close>), or changes nothing. The contract of the full node is the
  locale \<open>honest_world\<close>; under it the loop follows the chain of the node, ends, and ends up to date.
\<close>

section \<open>Ledgers that grow\<close>

definition ledger_le :: "('u, 'n, 'o) ledger \<Rightarrow> ('u, 'n, 'o) ledger \<Rightarrow> bool" where
  "ledger_le L L' \<longleftrightarrow> (\<forall>s. prefix (led_receivers L s) (led_receivers L' s)) \<and> prefix (led_senders L) (led_senders L')"

text \<open>The ledger after a response: each receiver goes to the end of its shard.\<close>

definition extend_ledger ::
  "'u forest \<Rightarrow> ('u, 'n, 'o) pull_response \<Rightarrow> ('u, 'n, 'o) ledger \<Rightarrow> ('u, 'n, 'o) ledger" where
  "extend_ledger forest resp L =
     \<lparr>led_receivers = (\<lambda>s. led_receivers L s @ filter (\<lambda>r. tree_index forest (fst r) = Some s) (receivers resp)),
      led_senders = led_senders L @ senders resp\<rparr>"

lemma ledger_le_refl [simp]: "ledger_le L L"
  by (simp add: ledger_le_def)

lemma ledger_le_trans [trans]: "ledger_le L1 L2 \<Longrightarrow> ledger_le L2 L3 \<Longrightarrow> ledger_le L1 L3"
  unfolding ledger_le_def by (meson prefix_order.trans)

lemma ledger_le_extend: "ledger_le L (extend_ledger forest resp L)"
  by (simp add: ledger_le_def extend_ledger_def)

lemma ledger_wf_le:
  assumes "ledger_le L L'" and "ledger_wf L'"
  shows "ledger_wf L"
proof -
  have "length (led_receivers L s) \<le> length (led_receivers L' s)" for s
    using assms(1) by (simp add: ledger_le_def prefix_length_le)
  moreover have "length (led_senders L) \<le> length (led_senders L')"
    and "set (led_senders L) \<subseteq> set (led_senders L')"
    using assms(1) by (simp_all add: ledger_le_def prefix_length_le set_mono_prefix)
  ultimately show ?thesis
    using assms(2) unfolding ledger_wf_def list_all_iff
    by (meson le_less_trans subset_iff)
qed

lemma ledger_entry_le:
  assumes "ledger_le L L'" and "ledger_entry cd L k b"
  shows "ledger_entry cd L' k b"
proof -
  have nth: "xs ! i = ys ! i \<and> i < length ys" if "prefix xs ys" "i < length xs" for xs ys :: "'z list" and i
    using that by (auto simp: prefix_def nth_append)
  have r: "prefix (led_receivers L s) (led_receivers L' s)" for s
    using assms(1) by (simp add: ledger_le_def)
  have x: "prefix (led_senders L) (led_senders L')"
    using assms(1) by (simp add: ledger_le_def)
  show ?thesis
    using assms(2) nth [OF r] nth [OF x] unfolding ledger_entry_def by metis
qed

lemma cache_coherent_le: "ledger_le L L' \<Longrightarrow> cache_coherent cd lr L c \<Longrightarrow> cache_coherent cd lr L' c"
  by (auto simp: cache_coherent_def intro: ledger_entry_le)

section \<open>Lemmas: reconstructing the shards\<close>

lemma reconstruct_push_all:
  fixes resp :: "('u, 'n, 'o) pull_response"
  assumes "parameters_ok forest"
  shows "reconstruct_shards_from_pull_response forest resp =
    (if \<forall>r \<in> set (receivers resp). tree_index forest (fst r) \<noteq> None
     then Inr (push_all (map (\<lambda>r. (the (tree_index forest (fst r)), r)) (receivers resp)) [])
     else Inl (Indexer BadUtxo))"
proof -
  have "foldE (\<lambda>shards receiver.
          bindE (ok_or (Indexer BadUtxo) (tree_index forest (fst receiver))) (\<lambda>s.
            Inr (entry_push s receiver shards))) m rs =
    (if \<forall>r \<in> set rs. tree_index forest (fst r) \<noteq> None
     then Inr (push_all (map (\<lambda>r. (the (tree_index forest (fst r)), r)) rs) m)
     else Inl (Indexer BadUtxo))" for m and rs :: "('u, 'n) receiver_chunk"
    by (induction rs arbitrary: m) (auto simp: ok_or_def split: option.splits)
  then show ?thesis
    using assms by (simp add: reconstruct_shards_from_pull_response_def)
qed

lemma group_of_tree_index:
  assumes "\<forall>r \<in> set rs. tree_index forest (fst r) \<noteq> None"
  shows "group_of (map (\<lambda>r. (the (tree_index forest (fst r)), r)) rs) s =
    filter (\<lambda>r. tree_index forest (fst r) = Some s) rs"
  using assms by (induction rs) auto

text \<open>The map holds, for each shard that occurs, its receivers in the order of the response.\<close>

lemma reconstruct_entries:
  assumes "reconstruct_shards_from_pull_response forest resp = Inr shards"
  shows "distinct (map fst shards)"
    and "map_of shards s = (let g = filter (\<lambda>r. tree_index forest (fst r) = Some s) (receivers resp)
      in if g = [] then None else Some g)"
proof -
  have ok: "parameters_ok forest" and all: "\<forall>r \<in> set (receivers resp). tree_index forest (fst r) \<noteq> None"
    and shards: "shards = push_all (map (\<lambda>r. (the (tree_index forest (fst r)), r)) (receivers resp)) []"
    using assms reconstruct_push_all [of forest resp]
    by (auto simp: reconstruct_shards_from_pull_response_def split: if_splits)
  show "distinct (map fst shards)"
    unfolding shards by (rule distinct_push_all) simp
  show "map_of shards s = (let g = filter (\<lambda>r. tree_index forest (fst r) = Some s) (receivers resp)
      in if g = [] then None else Some g)"
    unfolding shards map_of_push_all group_of_tree_index [OF all] by (simp add: Let_def)
qed

section \<open>Lemmas: what a successful call has done\<close>

text \<open>These lemmas do not exclude faults of the engine: they speak about calls that returned a value.\<close>

lemma try_execute_Inr [simp]: "try_sqlx (execute sq op) = Inr u \<longleftrightarrow> sql_error sq op = None"
  by (auto simp: try_sqlx_def execute_def split: option.splits)

lemma insert_one_shard_Inr:
  assumes "insert_one_shard cd sq d s i u n = Inr d'" and "holds_ledger cd L d"
    and "unat i = length (led_receivers L s)" and "length (led_receivers L s) < 2 ^ 63"
  shows "holds_ledger cd (add_receiver s (u, n) L) d'" and "tbl_total d' = tbl_total d"
proof -
  have "as_i64 i = int (length (led_receivers L s))"
    using assms(3,4) by (simp add: as_i64_small)
  then have "d' = d\<lparr>tbl_shards := tbl_shards d @ [shard_row cd s (length (led_receivers L s)) (u, n)]\<rparr>"
    using assms(1) by (auto simp: insert_one_shard_def Let_def bindE_eq_Inr shard_row_def)
  then show "holds_ledger cd (add_receiver s (u, n) L) d'" and "tbl_total d' = tbl_total d"
    using assms(2) by (auto simp: holds_ledger_def add_receiver_def rows_snoc)
qed

lemma insert_one_nullifier_Inr:
  assumes "insert_one_nullifier cd sq d i nc on = Inr d'" and "holds_ledger cd L d"
    and "unat i = length (led_senders L)" and "length (led_senders L) < 2 ^ 63"
  shows "holds_ledger cd (add_sender (nc, on) L) d'" and "tbl_total d' = tbl_total d"
proof -
  have "as_i64 i = int (length (led_senders L))"
    using assms(3,4) by (simp add: as_i64_small)
  then have d': "d' = d\<lparr>tbl_nullifier := insert_or_replace nullifier_indexes (nullifier_row cd (length (led_senders L)) (nc, on)) (tbl_nullifier d)\<rparr>"
    using assms(1) by (auto simp: insert_one_nullifier_def Let_def bindE_eq_Inr nullifier_row_def)
  have "idx r \<noteq> int (length (led_senders L))" if "r \<in> set (tbl_nullifier d)" for r
    using that holds_nullifier_member [OF assms(2), of "\<lambda>r. idx r = int (length (led_senders L))"] by auto
  then have "filter (\<lambda>r. idx r \<noteq> int (length (led_senders L))) (tbl_nullifier d) = tbl_nullifier d"
    by (simp add: filter_id_conv)
  then show "holds_ledger cd (add_sender (nc, on) L) d'" and "tbl_total d' = tbl_total d"
    using assms(2) by (simp_all add: d' holds_ledger_def add_sender_def rows_snoc insert_or_replace_nullifier)
qed

definition add_receivers :: "u8 \<Rightarrow> ('u, 'n) receiver_chunk \<Rightarrow> ('u, 'n, 'o) ledger \<Rightarrow> ('u, 'n, 'o) ledger" where
  "add_receivers s items L = L\<lparr>led_receivers := (led_receivers L)(s := led_receivers L s @ items)\<rparr>"

definition add_senders :: "'o sender_chunk \<Rightarrow> ('u, 'n, 'o) ledger \<Rightarrow> ('u, 'n, 'o) ledger" where
  "add_senders xs L = L\<lparr>led_senders := led_senders L @ xs\<rparr>"

lemma add_items_Nil [simp]: "add_receivers s [] L = L" "add_senders [] L = L"
  by (simp_all add: add_receivers_def add_senders_def)

lemma add_items_Cons:
  "add_receivers s (r # rs) L = add_receivers s rs (add_receiver s r L)"
  "add_senders (x # xs) L = add_senders xs (add_sender x L)"
  by (simp_all add: add_receivers_def add_receiver_def add_senders_def add_sender_def fun_eq_iff)

lemma unat_offset: "unat (off :: u64) + n < 2 ^ 63 \<Longrightarrow> unat (off + word_of_nat n) = unat off + n"
  by (subst unat_add_u64) simp_all

lemma store_items_shard:
  assumes "foldE (\<lambda>d (offset, content).
      insert_one_shard cd sq d s (off + word_of_nat offset) (fst content) (snd content)) d (enumerate n items) = Inr d'"
    and "holds_ledger cd L d" and "unat off + n = length (led_receivers L s)"
    and "length (led_receivers L s) + length items < 2 ^ 63"
  shows "holds_ledger cd (add_receivers s items L) d' \<and> tbl_total d' = tbl_total d"
  using assms
proof (induction items arbitrary: n L d)
  case (Cons r items)
  from Cons.prems(1) obtain d1 where
    step: "insert_one_shard cd sq d s (off + word_of_nat n) (fst r) (snd r) = Inr d1"
    and rest: "foldE (\<lambda>d (offset, content).
      insert_one_shard cd sq d s (off + word_of_nat offset) (fst content) (snd content)) d1 (enumerate (Suc n) items) = Inr d'"
    by (auto split: sum.splits)
  have "unat (off + word_of_nat n) = length (led_receivers L s)" "length (led_receivers L s) < 2 ^ 63"
    using Cons.prems(3,4) unat_offset [of off n] by simp_all
  note d1 = insert_one_shard_Inr [OF step Cons.prems(2) this]
  show ?case
    using Cons.IH [OF rest d1(1)] Cons.prems(3,4) d1(2)
    by (simp add: add_items_Cons) (simp add: add_receiver_def)
qed simp

lemma store_items_senders:
  assumes "foldE (\<lambda>d (i, nul). insert_one_nullifier cd sq d (word_of_nat i + off) (fst nul) (snd nul))
      d (enumerate n xs) = Inr d'"
    and "holds_ledger cd L d" and "unat off + n = length (led_senders L)"
    and "length (led_senders L) + length xs < 2 ^ 63"
  shows "holds_ledger cd (add_senders xs L) d' \<and> tbl_total d' = tbl_total d"
  using assms
proof (induction xs arbitrary: n L d)
  case (Cons x xs)
  from Cons.prems(1) obtain d1 where
    step: "insert_one_nullifier cd sq d (word_of_nat n + off) (fst x) (snd x) = Inr d1"
    and rest: "foldE (\<lambda>d (i, nul). insert_one_nullifier cd sq d (word_of_nat i + off) (fst nul) (snd nul))
      d1 (enumerate (Suc n) xs) = Inr d'"
    by (auto split: sum.splits)
  have "unat (word_of_nat n + off) = length (led_senders L)" "length (led_senders L) < 2 ^ 63"
    using Cons.prems(3,4) unat_offset [of off n] by (simp_all add: add.commute)
  note d1 = insert_one_nullifier_Inr [OF step Cons.prems(2) this]
  show ?case
    using Cons.IH [OF rest d1(1)] Cons.prems(3,4) d1(2)
    by (simp add: add_items_Cons) (simp add: add_sender_def)
qed simp

lemma get_len_of_nullifier_Inr:
  "get_len_of_nullifier sq d = Inr n \<Longrightarrow> n = word_of_nat (length (tbl_nullifier d))"
  by (auto simp: get_len_of_nullifier_def bindE_eq_Inr split: if_splits)

lemma length_tbl_nullifier: "holds_ledger cd L d \<Longrightarrow> length (tbl_nullifier d) = length (led_senders L)"
  unfolding holds_ledger_def using mset_eq_length length_rows(2) by metis

text \<open>The content of a map of shards, as a function on the shards.\<close>

definition items_of :: "('u, 'n) shard_map \<Rightarrow> u8 \<Rightarrow> ('u, 'n) receiver_chunk" where
  "items_of gs s = (case map_of gs s of None \<Rightarrow> [] | Some items \<Rightarrow> items)"

lemma items_of_simps [simp]:
  "items_of [] s = []"
  "items_of ((s', items) # gs) s = (if s = s' then items else items_of gs s)"
  by (simp_all add: items_of_def)

lemma items_of_fresh: "s \<notin> fst ` set gs \<Longrightarrow> items_of gs s = []"
  by (simp add: items_of_def map_of_eq_None_iff [THEN iffD2])

lemma items_of_member: "distinct (map fst gs) \<Longrightarrow> (s, items) \<in> set gs \<Longrightarrow> items_of gs s = items"
  by (simp add: items_of_def)

lemma items_of_order:
  assumes "visits_each_once ord" and "distinct (map fst gs)"
  shows "items_of (ord gs) = items_of gs"
proof -
  have "distinct (map fst (ord gs))"
    using visits_each_once_distinct [OF assms(1)] assms(2) by blast
  then have "map_of (ord gs) = map_of gs"
    using assms(2) visits_each_once_props(2) [OF assms(1)] by (simp add: map_of_inject_set)
  then show ?thesis by (simp add: items_of_def fun_eq_iff)
qed

lemma items_of_reconstruct:
  assumes "reconstruct_shards_from_pull_response forest resp = Inr shards"
  shows "items_of shards s = filter (\<lambda>r. tree_index forest (fst r) = Some s) (receivers resp)"
  unfolding items_of_def reconstruct_entries(2) [OF assms] by (simp add: Let_def)

definition plus_shards :: "(u8 \<Rightarrow> ('u, 'n) receiver_chunk) \<Rightarrow> ('u, 'n, 'o) ledger \<Rightarrow> ('u, 'n, 'o) ledger" where
  "plus_shards g L = L\<lparr>led_receivers := (\<lambda>s. led_receivers L s @ g s)\<rparr>"

lemma extend_ledger_eq:
  "extend_ledger forest resp L =
     add_senders (senders resp) (plus_shards (\<lambda>s. filter (\<lambda>r. tree_index forest (fst r) = Some s) (receivers resp)) L)"
  by (simp add: extend_ledger_def add_senders_def plus_shards_def)

lemma plus_shards_Cons:
  assumes "s \<notin> fst ` set gs"
  shows "plus_shards (items_of gs) (add_receivers s items L) = plus_shards (items_of ((s, items) # gs)) L"
  using items_of_fresh [OF assms] by (auto simp: plus_shards_def add_receivers_def fun_eq_iff)

lemma store_shards_holds:
  assumes "foldE (store_shard cd sq ckp) d gs = Inr d'" and "holds_ledger cd L d" and "distinct (map fst gs)"
    and "\<forall>(s, items) \<in> set gs. unat (receiver_index ckp s) = length (led_receivers L s)
      \<and> length (led_receivers L s) + length items < 2 ^ 63"
  shows "holds_ledger cd (plus_shards (items_of gs) L) d' \<and> tbl_total d' = tbl_total d"
  using assms
proof (induction gs arbitrary: L d)
  case Nil
  then show ?case by (simp add: plus_shards_def)
next
  case (Cons g gs)
  obtain s items where g: "g = (s, items)" by (cases g)
  from Cons.prems(1) g obtain d1 where step: "store_shard cd sq ckp d (s, items) = Inr d1"
    and rest: "foldE (store_shard cd sq ckp) d1 gs = Inr d'"
    by (auto split: sum.splits)
  have fresh: "s \<notin> fst ` set gs" and dist: "distinct (map fst gs)"
    using Cons.prems(3) g by auto
  have d1: "holds_ledger cd (add_receivers s items L) d1 \<and> tbl_total d1 = tbl_total d"
    using step Cons.prems(2,4) g unfolding store_shard_def Let_def fst_conv snd_conv
    by (intro store_items_shard [where n = 0]) auto
  have "\<forall>(s', items') \<in> set gs. unat (receiver_index ckp s') = length (led_receivers (add_receivers s items L) s')
      \<and> length (led_receivers (add_receivers s items L) s') + length items' < 2 ^ 63"
    using Cons.prems(4) fresh by (force simp: add_receivers_def)
  from Cons.IH [OF rest conjunct1 [OF d1] dist this] d1
  have "holds_ledger cd (plus_shards (items_of gs) (add_receivers s items L)) d' \<and> tbl_total d' = tbl_total d"
    by simp
  then show ?case unfolding g plus_shards_Cons [OF fresh] .
qed

lemma fold_increase:
  assumes "distinct (map fst gs)"
  shows "fold (\<lambda>(i, utxos) ckp. ckp\<lparr>receiver_index := (receiver_index ckp)
         (i := receiver_index ckp i + word_of_nat (length utxos))\<rparr>) gs (ckp :: checkpoint) =
     ckp\<lparr>receiver_index := (\<lambda>s. receiver_index ckp s + word_of_nat (length (items_of gs s)))\<rparr>"
  using assms
proof (induction gs arbitrary: ckp)
  case (Cons g gs)
  obtain s items where g: "g = (s, items)" by (cases g)
  have "items_of gs s = []"
    using Cons.prems g by (intro items_of_fresh) simp
  then show ?case
    using Cons g by (auto simp: fun_eq_iff intro!: arg_cong [where f = "\<lambda>x. _\<lparr>receiver_index := x\<rparr>"])
qed simp

lemma increasing_checkpoint_eq:
  assumes "visits_each_once ord" and "distinct (map fst gs)"
  shows "increasing_checkpoint ord ckp n gs =
    \<lparr>receiver_index = (\<lambda>s. receiver_index ckp s + word_of_nat (length (items_of gs s))),
     sender_index = sender_index ckp + n\<rparr>"
proof -
  have "distinct (map fst (ord gs))"
    using visits_each_once_distinct [OF assms(1)] assms(2) by blast
  then show ?thesis
    by (simp add: increasing_checkpoint_def fold_increase items_of_order [OF assms])
qed

lemma checkpoint_of_extend:
  assumes "visits_each_once ord" and "reconstruct_shards_from_pull_response forest resp = Inr shards"
  shows "increasing_checkpoint ord (checkpoint_of L) (word_of_nat (length (senders resp))) shards =
    checkpoint_of (extend_ledger forest resp L)"
  unfolding increasing_checkpoint_eq [OF assms(1) reconstruct_entries(1) [OF assms(2)]]
  by (simp add: checkpoint_of_def extend_ledger_def items_of_reconstruct [OF assms(2)])

section \<open>Lemmas: one round\<close>

lemma unat_checkpoint_of:
  assumes "ledger_wf L"
  shows "unat (receiver_index (checkpoint_of L) s) = length (led_receivers L s)"
    and "unat (sender_index (checkpoint_of L)) = length (led_senders L)"
  using ledger_wfD(1) [OF assms, of s] ledger_wfD(2) [OF assms] by (simp_all add: checkpoint_of_def)

lemma store_response_holds:
  assumes "store_response cd sq ord (checkpoint_of L) d shards resp = Inr (d', n)"
    and "reconstruct_shards_from_pull_response forest resp = Inr shards"
    and "visits_each_once ord" and "holds_ledger cd L d" and "ledger_wf (extend_ledger forest resp L)"
  shows "holds_ledger cd (extend_ledger forest resp L) d'"
    and "tbl_total d' = Some (senders_receivers_total resp)"
    and "n = word_of_nat (length (led_senders L))"
proof -
  let ?g = "\<lambda>s. filter (\<lambda>r. tree_index forest (fst r) = Some s) (receivers resp)"
  have wf: "ledger_wf L"
    by (rule ledger_wf_le [OF ledger_le_extend assms(5)])
  have bound: "length (led_receivers L s) + length (?g s) < 2 ^ 47"
    and bound': "length (led_senders L) + length (senders resp) < 2 ^ 32" for s
    using ledger_wfD(1) [OF assms(5), of s] ledger_wfD(2) [OF assms(5)] by (simp_all add: extend_ledger_def)
  obtain d1 d2 where d1: "foldE (store_shard cd sq (checkpoint_of L)) d (ord shards) = Inr d1"
    and n: "get_len_of_nullifier sq d1 = Inr n"
    and d2: "store_senders cd sq n d1 (senders resp) = Inr d2"
    and d': "d' = d2\<lparr>tbl_total := Some (senders_receivers_total resp)\<rparr>"
    using assms(1)
    by (auto simp: store_response_def bindE_eq_Inr update_or_insert_total_senders_receivers_def)
  have dist: "distinct (map fst (ord shards))"
    using visits_each_once_distinct [OF assms(3)] reconstruct_entries(1) [OF assms(2)] by blast
  have items: "items_of (ord shards) = ?g"
    using items_of_order [OF assms(3) reconstruct_entries(1) [OF assms(2)]] items_of_reconstruct [OF assms(2)]
    by (simp add: fun_eq_iff)
  have "unat (receiver_index (checkpoint_of L) s) = length (led_receivers L s)
      \<and> length (led_receivers L s) + length xs < 2 ^ 63" if "(s, xs) \<in> set (ord shards)" for s xs
  proof -
    have "xs = ?g s"
      using items_of_member [OF dist that] items by simp
    then show ?thesis
      using unat_checkpoint_of(1) [OF wf] bound [of s] by simp
  qed
  then have h1: "holds_ledger cd (plus_shards ?g L) d1 \<and> tbl_total d1 = tbl_total d"
    using store_shards_holds [OF d1 assms(4) dist] unfolding items by blast
  have "length (tbl_nullifier d1) = length (led_senders L)"
    using length_tbl_nullifier [OF conjunct1 [OF h1]] by (simp add: plus_shards_def)
  then show nn: "n = word_of_nat (length (led_senders L))"
    using get_len_of_nullifier_Inr [OF n] by simp
  have "holds_ledger cd (add_senders (senders resp) (plus_shards ?g L)) d2 \<and> tbl_total d2 = tbl_total d1"
    using bound'
    by (intro store_items_senders [OF d2 [unfolded store_senders_def] conjunct1 [OF h1]])
      (simp_all add: nn plus_shards_def)
  then show "holds_ledger cd (extend_ledger forest resp L) d'" "tbl_total d' = Some (senders_receivers_total resp)"
    by (simp_all add: d' extend_ledger_eq holds_ledger_def)
qed

context lru_crate
begin

lemma put_batch_coherent_entries:
  assumes "cache_coherent cd ops L c" and "\<forall>(k, b) \<in> set kvs. ledger_entry cd L k b"
  shows "cache_coherent cd ops L (put_batch_lru ops c kvs)"
  using assms put_batch_lru_peek [of c kvs] unfolding cache_coherent_def by blast

lemma put_batches_coherent:
  "cache_coherent cd ops L c \<Longrightarrow> \<forall>b \<in> set bs. \<forall>(k, v) \<in> set b. ledger_entry cd L k v \<Longrightarrow>
   cache_coherent cd ops L (fold (\<lambda>b c. put_batch_lru ops c b) bs c)"
  by (induction bs arbitrary: c) (auto intro!: put_batch_coherent_entries)

end

text \<open>The batches that a refresh of the cache inserts, in their order.\<close>

definition refresh_batches ::
  "('u, 'n, 'o) codec \<Rightarrow> ('u, 'n) shard_order \<Rightarrow> checkpoint \<Rightarrow> usize \<Rightarrow> ('u, 'n) shard_map \<Rightarrow> 'o sender_chunk \<Rightarrow>
   (u64 \<times> bytes) list list" where
  "refresh_batches cd ord ckp n shards ss =
     map (\<lambda>(s, items). map (\<lambda>(offset, content).
         (receiver_key (ucast s) (receiver_index ckp s + word_of_nat offset), receiver_encode cd content))
       (enumerate 0 items)) (ord shards) @
     [map (\<lambda>(i, nul). (sender_key (n + word_of_nat i), sender_encode cd nul)) (enumerate 0 ss)]"

lemma refresh_lru_batches:
  "refresh_lru cd lr ord ckp n shards ss c = fold (\<lambda>b c. put_batch_lru lr c b) (refresh_batches cd ord ckp n shards ss) c"
  by (simp add: refresh_lru_def refresh_batches_def put_batch_receiver_def put_batch_sender_def fold_map comp_def
      case_prod_unfold)

lemma refresh_batches_genuine:
  assumes "visits_each_once ord" and "reconstruct_shards_from_pull_response forest resp = Inr shards"
  shows "\<forall>b \<in> set (refresh_batches cd ord (checkpoint_of L) (word_of_nat (length (led_senders L))) shards (senders resp)).
    \<forall>(k, v) \<in> set b. ledger_entry cd (extend_ledger forest resp L) k v"
proof -
  let ?L = "extend_ledger forest resp L"
  have receiver: "ledger_entry cd ?L (receiver_key (ucast s) (receiver_index (checkpoint_of L) s + word_of_nat i))
      (receiver_encode cd r)"
    if "(s, items) \<in> set shards" "i < length items" "items ! i = r" for s items i r
  proof -
    have "items_of shards s = items"
      by (rule items_of_member [OF reconstruct_entries(1) [OF assms(2)] that(1)])
    then have "led_receivers ?L s = led_receivers L s @ items"
      using items_of_reconstruct [OF assms(2), of s] by (simp add: extend_ledger_def)
    then show ?thesis
      unfolding ledger_entry_def using that(2,3)
      by (intro disjI1 exI [of _ s] exI [of _ "length (led_receivers L s) + i"]) (auto simp: checkpoint_of_def)
  qed
  have sender: "ledger_entry cd ?L (sender_key (word_of_nat (length (led_senders L)) + word_of_nat i))
      (sender_encode cd x)" if "i < length (senders resp)" "senders resp ! i = x" for i x
    unfolding ledger_entry_def using that
    by (intro disjI2 exI [of _ "length (led_senders L) + i"]) (auto simp: extend_ledger_def)
  show ?thesis
    using receiver sender visits_each_once_props(2) [OF assms(1)]
    by (auto simp: refresh_batches_def in_set_enumerate_eq)
qed

lemma refresh_lru_coherent:
  assumes "lru_crate lr" and "cache_coherent cd lr L c" and "visits_each_once ord"
    and "reconstruct_shards_from_pull_response forest resp = Inr shards"
  shows "cache_coherent cd lr (extend_ledger forest resp L)
    (refresh_lru cd lr ord (checkpoint_of L) (word_of_nat (length (led_senders L))) shards (senders resp) c)"
  unfolding refresh_lru_batches
  by (rule lru_crate.put_batches_coherent [OF assms(1) cache_coherent_le [OF ledger_le_extend assms(2)]
        refresh_batches_genuine [OF assms(3,4)]])

text \<open>A state that represents a ledger: the tables hold it and the cache is coherent with it.\<close>

definition represents ::
  "('u, 'n, 'o) codec \<Rightarrow> 'c lru_ops \<Rightarrow> ('u, 'n, 'o) ledger \<Rightarrow> 'c sync_state \<Rightarrow> bool" where
  "represents cd lr L st \<longleftrightarrow> holds_ledger cd L (st_db st) \<and> cache_coherent cd lr L (st_cache st)"

lemma sync_round_Inl:
  "sync_round cd lr forest w mc refresh ckp st = (Inl e, st') \<Longrightarrow> st' = st"
  by (auto simp: sync_round_def split: sum.splits prod.splits)

lemma sync_round_InrE:
  assumes "sync_round cd lr forest w mc refresh ckp st = (Inr (cont, ckp'), st')"
  obtains resp shards d n where "synchronize_ledger (node_of w) ckp (fst mc) (snd mc) = Inr resp"
    "reconstruct_shards_from_pull_response forest resp = Inr shards"
    "store_response cd (engine_of w) (order_of w) ckp (st_db st) shards resp = Inr (d, n)"
    "cont = should_continue resp"
    "ckp' = increasing_checkpoint (order_of w) ckp (word_of_nat (length (senders resp))) shards"
    "st' = st\<lparr>st_db := d, st_cache := (if refresh
                then refresh_lru cd lr (order_of w) ckp n shards (senders resp) (st_cache st) else st_cache st),
              init_syncing_finished := (\<not> should_continue resp \<or> init_syncing_finished st)\<rparr>"
  using assms by (auto simp: sync_round_def bindE_eq_Inr split: sum.splits prod.splits)

lemma sync_round_represents:
  assumes "lru_crate lr" and "visits_each_once (order_of w)" and "represents cd lr L st"
    and "sync_round cd lr forest w mc refresh (checkpoint_of L) st = (Inr (cont, ckp'), st')"
    and "\<And>resp. synchronize_ledger (node_of w) (checkpoint_of L) (fst mc) (snd mc) = Inr resp \<Longrightarrow>
      ledger_wf (extend_ledger forest resp L)"
  shows "\<exists>resp. synchronize_ledger (node_of w) (checkpoint_of L) (fst mc) (snd mc) = Inr resp \<and>
    cont = should_continue resp \<and> represents cd lr (extend_ledger forest resp L) st' \<and>
    ckp' = checkpoint_of (extend_ledger forest resp L) \<and>
    tbl_total (st_db st') = Some (senders_receivers_total resp) \<and>
    init_syncing_finished st' = (\<not> cont \<or> init_syncing_finished st)"
proof -
  from assms(4) obtain resp shards d n where
    resp: "synchronize_ledger (node_of w) (checkpoint_of L) (fst mc) (snd mc) = Inr resp" and
    shards: "reconstruct_shards_from_pull_response forest resp = Inr shards" and
    store: "store_response cd (engine_of w) (order_of w) (checkpoint_of L) (st_db st) shards resp = Inr (d, n)" and
    cont: "cont = should_continue resp" and
    ckp': "ckp' = increasing_checkpoint (order_of w) (checkpoint_of L) (word_of_nat (length (senders resp))) shards" and
    st': "st' = st\<lparr>st_db := d, st_cache := (if refresh
                then refresh_lru cd lr (order_of w) (checkpoint_of L) n shards (senders resp) (st_cache st) else st_cache st),
              init_syncing_finished := (\<not> should_continue resp \<or> init_syncing_finished st)\<rparr>"
    by (rule sync_round_InrE)
  have hold: "holds_ledger cd L (st_db st)" and coh: "cache_coherent cd lr L (st_cache st)"
    using assms(3) by (simp_all add: represents_def)
  note stored = store_response_holds [OF store shards assms(2) hold assms(5) [OF resp]]
  have "cache_coherent cd lr (extend_ledger forest resp L) (st_cache st')"
    using refresh_lru_coherent [OF assms(1) coh assms(2) shards]
      cache_coherent_le [OF ledger_le_extend coh, of forest resp]
    by (simp add: st' stored(3))
  then show ?thesis
    using resp cont ckp' stored checkpoint_of_extend [OF assms(2) shards, of L]
    by (auto simp: represents_def st')
qed

section \<open>Lemmas: a round without faults\<close>

lemma insert_one_shard_fault_free:
  assumes "fault_free sq"
  shows "\<exists>d'. insert_one_shard cd sq d s i u n = Inr d' \<and> tbl_nullifier d' = tbl_nullifier d"
  using assms by (simp add: insert_one_shard_def db_simps Let_def)

lemma store_shard_fault_free:
  assumes "fault_free sq"
  shows "\<exists>d'. store_shard cd sq ckp d sh = Inr d' \<and> tbl_nullifier d' = tbl_nullifier d"
  unfolding store_shard_def Let_def
  by (rule foldE_ex) (use insert_one_shard_fault_free [OF assms] in \<open>fastforce split: prod.splits\<close>)+

lemma store_response_fault_free:
  assumes "fault_free sq" and "length (tbl_nullifier d) < 2 ^ 32"
  shows "\<exists>d' n. store_response cd sq ord ckp d shards resp = Inr (d', n)"
proof -
  have "\<exists>d1. foldE (store_shard cd sq ckp) d (ord shards) = Inr d1 \<and> tbl_nullifier d1 = tbl_nullifier d"
    by (rule foldE_ex) (use store_shard_fault_free [OF assms(1)] in \<open>fastforce+\<close>)
  then obtain d1 where d1: "foldE (store_shard cd sq ckp) d (ord shards) = Inr d1" "tbl_nullifier d1 = tbl_nullifier d"
    by blast
  have "\<exists>d2. store_senders cd sq n d1 (senders resp) = Inr d2 \<and> True" for n
    unfolding store_senders_def
    by (rule foldE_ex) (auto simp: insert_one_nullifier_def db_simps assms(1) Let_def)
  then obtain d2 where "store_senders cd sq (word_of_nat (length (tbl_nullifier d))) d1 (senders resp) = Inr d2"
    by blast
  then show ?thesis
    using d1 assms
    by (simp add: store_response_def db_simps get_len_of_nullifier_def
        update_or_insert_total_senders_receivers_def)
qed

section \<open>The full node\<close>

text \<open>
  What a full node promises. It has a ledger of its own, the chain, that only grows. Asked from a
  checkpoint that lies on the chain, it answers with items of the chain from there on: adding
  them to the ledger of the checkpoint gives again a part of the chain. A node may fail to answer
  and the database may have faults.
\<close>

locale honest_world =
  fixes forest :: "'u forest"
    and world :: "nat \<Rightarrow> ('u, 'n, 'o) world"
    and chain :: "nat \<Rightarrow> ('u, 'n, 'o) ledger"
  assumes order: "visits_each_once (order_of (world t))"
    and chain_wf: "ledger_wf (chain t)"
    and chain_grows: "ledger_le (chain t) (chain (Suc t))"
    and on_chain: "ledger_le L (chain t) \<Longrightarrow> node_of (world t) meth (checkpoint_of L, a, b) = Inr resp \<Longrightarrow>
      ledger_le (extend_ledger forest resp L) (chain t)"
begin

lemma chain_mono: "t \<le> t' \<Longrightarrow> ledger_le (chain t) (chain t')"
  by (induction t' rule: dec_induct) (auto intro: ledger_le_trans chain_grows)

lemma response_wf:
  assumes "ledger_le L (chain t)"
    and "synchronize_ledger (node_of (world t)) (checkpoint_of L) ms mr = Inr resp"
  shows "ledger_le (extend_ledger forest resp L) (chain t)" and "ledger_wf (extend_ledger forest resp L)"
proof -
  from assms(2) show le: "ledger_le (extend_ledger forest resp L) (chain t)"
    by (auto simp: synchronize_ledger_def map_err_def Let_def intro: on_chain [OF assms(1)] split: sum.splits)
  show "ledger_wf (extend_ledger forest resp L)"
    by (rule ledger_wf_le [OF le chain_wf])
qed

text \<open>A round keeps the representation, whatever happens in it.\<close>

lemma round_safe:
  assumes "lru_crate lr" and "represents cd lr L st" and "ledger_le L (chain t)"
    and "sync_round cd lr forest (world t) mc refresh (checkpoint_of L) st = (r, st')"
  shows "\<exists>L'. ledger_le L L' \<and> ledger_le L' (chain t) \<and> represents cd lr L' st' \<and>
    (\<forall>cont ckp'. r = Inr (cont, ckp') \<longrightarrow> ckp' = checkpoint_of L')"
proof (cases r)
  case (Inl e)
  then have "st' = st"
    using assms(4) sync_round_Inl by blast
  then show ?thesis using assms(2,3) Inl by (intro exI [of _ L]) auto
next
  case (Inr v)
  obtain cont ckp' where v: "v = (cont, ckp')" by (cases v)
  obtain resp where resp: "synchronize_ledger (node_of (world t)) (checkpoint_of L) (fst mc) (snd mc) = Inr resp"
    "represents cd lr (extend_ledger forest resp L) st'" "ckp' = checkpoint_of (extend_ledger forest resp L)"
    using sync_round_represents [OF assms(1) order assms(2) assms(4) [unfolded Inr v]]
      response_wf(2) [OF assms(3)] by blast
  then show ?thesis
    using response_wf(1) [OF assms(3) resp(1)] ledger_le_extend Inr v by blast
qed

end

section \<open>Lemmas: the loop returns\<close>

text \<open>The number of items of a ledger, the measure of the loop.\<close>

definition led_size :: "('u, 'n, 'o) ledger \<Rightarrow> nat" where
  "led_size L = (\<Sum>s \<in> UNIV. length (led_receivers L s)) + length (led_senders L)"

lemma led_size_mono: "ledger_le L L' \<Longrightarrow> led_size L \<le> led_size L'"
  unfolding ledger_le_def led_size_def by (intro add_mono sum_mono) (simp_all add: prefix_length_le)

lemma sum_filter_shards:
  assumes "\<forall>r \<in> set rs. f r \<noteq> None"
  shows "(\<Sum>s \<in> (UNIV :: u8 set). length (filter (\<lambda>r. f r = Some s) rs)) = length rs"
  using assms
proof (induction rs)
  case (Cons r rs)
  then obtain s0 where s0: "f r = Some s0" by auto
  have "(\<Sum>s \<in> (UNIV :: u8 set). length (filter (\<lambda>r. f r = Some s) (r # rs))) =
      (\<Sum>s \<in> UNIV. (if s = s0 then 1 else 0) + length (filter (\<lambda>r. f r = Some s) rs))"
    using s0 by (intro sum.cong) auto
  then show ?case using Cons by (simp add: sum.distrib)
qed simp

lemma led_size_extend:
  assumes "\<forall>r \<in> set (receivers resp). tree_index forest (fst r) \<noteq> None"
  shows "led_size (extend_ledger forest resp L) = led_size L + length (receivers resp) + length (senders resp)"
  using sum_filter_shards [of "receivers resp" "\<lambda>r. tree_index forest (fst r)"] assms
  by (simp add: led_size_def extend_ledger_def sum.distrib)

text \<open>The stored total is that of a response of the node.\<close>

definition total_from :: "(nat \<Rightarrow> ('u, 'n, 'o) world) \<Rightarrow> db \<Rightarrow> bool" where
  "total_from world d \<longleftrightarrow> (\<exists>t q resp. node_of (world t) PULL_LEDGER_DIFF_METHODS q = Inr resp \<and>
     tbl_total d = Some (senders_receivers_total resp))"

lemma total_fromI:
  "node_of (world t) PULL_LEDGER_DIFF_METHODS q = Inr resp \<Longrightarrow> tbl_total d = Some (senders_receivers_total resp) \<Longrightarrow> total_from world d"
  unfolding total_from_def by blast

text \<open>
  What makes the loop return, and return up to date: no faults, a node that answers, with UTXOs
  that convert, that delivers something whenever it asks to continue, that has delivered
  everything when it does not, and whose chain does not outgrow \<open>bound\<close>.
\<close>

locale live_world = honest_world forest world chain
  for forest :: "'u forest" and world :: "nat \<Rightarrow> ('u, 'n, 'o) world" and chain :: "nat \<Rightarrow> ('u, 'n, 'o) ledger" +
  fixes bound :: "('u, 'n, 'o) ledger"
  assumes engine: "fault_free (engine_of (world t))"
    and hash_parameters: "parameters_ok forest"
    and bounded: "ledger_le (chain t) bound"
    and answers: "ledger_le L (chain t) \<Longrightarrow> \<exists>resp. node_of (world t) meth (checkpoint_of L, a, b) = Inr resp"
    and converts: "ledger_le L (chain t) \<Longrightarrow> node_of (world t) meth (checkpoint_of L, a, b) = Inr resp \<Longrightarrow>
      r \<in> set (receivers resp) \<Longrightarrow> tree_index forest (fst r) \<noteq> None"
    and progress: "ledger_le L (chain t) \<Longrightarrow> node_of (world t) meth (checkpoint_of L, min ms MAX_SENDERS, min mr MAX_RECEIVERS) = Inr resp \<Longrightarrow>
      0 < ms \<Longrightarrow> 0 < mr \<Longrightarrow> should_continue resp \<Longrightarrow> receivers resp \<noteq> [] \<or> senders resp \<noteq> []"
    and up_to_date: "ledger_le L (chain t) \<Longrightarrow> node_of (world t) meth (checkpoint_of L, a, b) = Inr resp \<Longrightarrow>
      \<not> should_continue resp \<Longrightarrow> extend_ledger forest resp L = chain t"
begin

lemma round_succeeds:
  assumes "lru_crate lr" and "represents cd lr L st" and "ledger_le L (chain t)"
  shows "\<exists>resp st'. node_of (world t) PULL_LEDGER_DIFF_METHODS
        (checkpoint_of L, min (fst mc) MAX_SENDERS, min (snd mc) MAX_RECEIVERS) = Inr resp \<and>
    sync_round cd lr forest (world t) mc refresh (checkpoint_of L) st =
      (Inr (should_continue resp, checkpoint_of (extend_ledger forest resp L)), st') \<and>
    represents cd lr (extend_ledger forest resp L) st' \<and>
    tbl_total (st_db st') = Some (senders_receivers_total resp) \<and>
    init_syncing_finished st' = (\<not> should_continue resp \<or> init_syncing_finished st)"
proof -
  obtain resp where node: "node_of (world t) PULL_LEDGER_DIFF_METHODS
      (checkpoint_of L, min (fst mc) MAX_SENDERS, min (snd mc) MAX_RECEIVERS) = Inr resp"
    using answers [OF assms(3)] by blast
  then have sync: "synchronize_ledger (node_of (world t)) (checkpoint_of L) (fst mc) (snd mc) = Inr resp"
    by (simp add: synchronize_ledger_def)
  obtain shards where "reconstruct_shards_from_pull_response forest resp = Inr shards"
    using reconstruct_push_all [OF hash_parameters, of resp] converts [OF assms(3) node] by auto
  moreover have "length (tbl_nullifier (st_db st)) < 2 ^ 32"
    using assms(2) length_tbl_nullifier ledger_wfD(2) [OF ledger_wf_le [OF assms(3) chain_wf]]
    by (fastforce simp: represents_def)
  then obtain d n where "store_response cd (engine_of (world t)) (order_of (world t)) (checkpoint_of L) (st_db st) shards resp = Inr (d, n)"
    using store_response_fault_free [OF engine] by blast
  ultimately obtain cont ckp' st' where r: "sync_round cd lr forest (world t) mc refresh (checkpoint_of L) st = (Inr (cont, ckp'), st')"
    using sync by (cases mc) (simp add: sync_round_def)
  show ?thesis
    using sync_round_represents [OF assms(1) order assms(2) r] response_wf(2) [OF assms(3)] sync node r
    by fastforce
qed

lemma loop_returns:
  assumes "lru_crate lr" and "0 < fst mc" and "0 < snd mc"
    and "represents cd lr L st" and "ledger_le L (chain t)"
  shows "\<exists>st' t'. sync_loop cd lr forest world mc refresh t (checkpoint_of L) st = Some (Inr (), st', Suc t') \<and>
    t \<le> t' \<and> represents cd lr (chain t') st' \<and> init_syncing_finished st' \<and> total_from world (st_db st')"
  using assms(4,5)
proof (induction "led_size bound - led_size L" arbitrary: L st t rule: less_induct)
  case less
  obtain resp st' where node: "node_of (world t) PULL_LEDGER_DIFF_METHODS
        (checkpoint_of L, min (fst mc) MAX_SENDERS, min (snd mc) MAX_RECEIVERS) = Inr resp"
    and round: "sync_round cd lr forest (world t) mc refresh (checkpoint_of L) st =
      (Inr (should_continue resp, checkpoint_of (extend_ledger forest resp L)), st')"
    and rep: "represents cd lr (extend_ledger forest resp L) st'"
    and tot: "tbl_total (st_db st') = Some (senders_receivers_total resp)"
    and fin: "init_syncing_finished st' = (\<not> should_continue resp \<or> init_syncing_finished st)"
    using round_succeeds [OF assms(1) less.prems] by blast
  have le: "ledger_le (extend_ledger forest resp L) (chain t)"
    by (rule on_chain [OF less.prems(2) node])
  show ?case
  proof (cases "should_continue resp")
    case False
    then show ?thesis
      using up_to_date [OF less.prems(2) node] round rep fin total_fromI [of world t, OF node tot]
      by (subst sync_loop.simps) auto
  next
    case True
    then have "receivers resp \<noteq> [] \<or> senders resp \<noteq> []"
      using progress [OF less.prems(2) node assms(2,3)] by blast
    then have "led_size L < led_size (extend_ledger forest resp L)"
      using led_size_extend [of resp forest L] converts [OF less.prems(2) node] by auto
    moreover have "led_size (extend_ledger forest resp L) \<le> led_size bound"
      by (rule led_size_mono [OF ledger_le_trans [OF le bounded]])
    ultimately have "led_size bound - led_size (extend_ledger forest resp L) < led_size bound - led_size L"
      by linarith
    from less.hyps [OF this rep ledger_le_trans [OF le chain_grows]] obtain st2 t2 where
      "sync_loop cd lr forest world mc refresh (Suc t) (checkpoint_of (extend_ledger forest resp L)) st' = Some (Inr (), st2, Suc t2)"
      "Suc t \<le> t2" "represents cd lr (chain t2) st2" "init_syncing_finished st2" "total_from world (st_db st2)"
      by blast
    then show ?thesis
      using round True by (subst sync_loop.simps) (auto intro!: exI [of _ st2] exI [of _ t2])
  qed
qed

end

section \<open>Lemmas: calls under faults\<close>

lemma foldE_count_Inr:
  "foldE (\<lambda>ckp s. bindE (f s) (\<lambda>count. Inr (g ckp s count))) c xs = Inr r \<Longrightarrow> s \<in> set xs \<Longrightarrow> \<exists>v. f s = Inr v"
proof (induction xs arbitrary: c)
  case (Cons x xs)
  then show ?case by (cases "f x") auto
qed simp

lemma get_latest_check_point_Inr:
  assumes "get_latest_check_point sq d = Inr ckp" and "holds_ledger cd L d"
  shows "ckp = checkpoint_of L"
proof -
  obtain c n where c: "foldE (\<lambda>ckp s. bindE (count_of_utxo sq d s) (\<lambda>count.
        Inr (ckp\<lparr>receiver_index := (receiver_index ckp)(s := as_usize count)\<rparr>))) checkpoint_default all_u8 = Inr c"
    and n: "get_len_of_nullifier sq d = Inr n" and ckp: "ckp = c\<lparr>sender_index := n\<rparr>"
    using assms(1) by (auto simp: get_latest_check_point_def bindE_eq_Inr)
  have "count_of_utxo sq d s = Inr (int (length (led_receivers L s)))" for s
  proof -
    obtain v where "count_of_utxo sq d s = Inr v"
      using foldE_count_Inr [OF c, of s] by auto
    moreover have "mset (filter (\<lambda>r. shard_index r = s) (tbl_shards d)) = mset (shard_rows cd s (led_receivers L s))"
      using assms(2) by (simp add: holds_ledger_def)
    from mset_eq_length [OF this]
    have "length (filter (\<lambda>r. shard_index r = s) (tbl_shards d)) = length (led_receivers L s)" by simp
    ultimately show ?thesis by (auto simp: count_of_utxo_def bindE_eq_Inr)
  qed
  from c [unfolded foldE_receiver_index [of all_u8 "count_of_utxo sq d", OF this]]
  show ?thesis
    using get_len_of_nullifier_Inr [OF n] length_tbl_nullifier [OF assms(2)]
    by (auto simp: ckp checkpoint_of_def checkpoint_default_def)
qed

context honest_world
begin

lemma loop_safe:
  fixes lr :: "'c lru_ops" and cd :: "('u, 'n, 'o) codec"
  assumes "lru_crate lr"
    and "sync_loop cd lr forest world mc refresh t ckp st = Some y"
    and "represents cd lr L st" and "ledger_le L (chain t)" and "ckp = checkpoint_of L"
  shows "\<exists>L'. ledger_le L L' \<and> ledger_le L' (chain (snd (snd y))) \<and> represents cd lr L' (fst (snd y))"
proof -
  define P where "P cd' lr' forest' world' mc' refresh' t ckp st y \<longleftrightarrow>
      cd' = cd \<and> lr' = lr \<and> forest' = forest \<and> world' = world \<longrightarrow>
      (\<forall>L. represents cd lr L st \<longrightarrow> ledger_le L (chain t) \<longrightarrow> ckp = checkpoint_of L \<longrightarrow>
        (\<exists>L'. ledger_le L L' \<and> ledger_le L' (chain (snd (snd y))) \<and> represents cd lr L' (fst (snd y))))"
    for cd' lr' forest' world' t ckp st and mc' :: "u64 \<times> u64" and refresh' :: bool
      and y :: "(anyhow_error + unit) \<times> 'c sync_state \<times> nat"
  have "P cd lr forest world mc refresh t ckp st y"
  proof (rule sync_loop.raw_induct [where P = P, OF _ assms(2)], goal_cases)
    case (1 rec cd' lr' forest' world' mc' refresh' t ckp st y)
    show ?case
      unfolding P_def
    proof (intro impI allI, elim conjE)
      fix L assume eqs: "cd' = cd" "lr' = lr" "forest' = forest" "world' = world"
        and rep: "represents cd lr L st" and le: "ledger_le L (chain t)" and ckp: "ckp = checkpoint_of L"
      obtain r st' where round: "sync_round cd lr forest (world t) mc' refresh' (checkpoint_of L) st = (r, st')"
        by fastforce
      from round_safe [OF assms(1) rep le round] obtain L1 where
        L1: "ledger_le L L1" "ledger_le L1 (chain t)" "represents cd lr L1 st'"
          "\<forall>cont ckp'. r = Inr (cont, ckp') \<longrightarrow> ckp' = checkpoint_of L1" by blast
      have le1: "ledger_le L1 (chain (Suc t))"
        by (rule ledger_le_trans [OF L1(2) chain_grows])
      show "\<exists>L'. ledger_le L L' \<and> ledger_le L' (chain (snd (snd y))) \<and> represents cd lr L' (fst (snd y))"
      proof (cases "\<exists>ckp'. r = Inr (True, ckp')")
        case True
        then have "r = Inr (True, checkpoint_of L1)" using L1(4) by blast
        with round have "sync_round cd lr forest (world t) mc' refresh' (checkpoint_of L) st =
            (Inr (True, checkpoint_of L1), st')" by (simp only:)
        then have "rec cd lr forest world mc' refresh' (Suc t) (checkpoint_of L1) st' = Some y"
          using 1(2) unfolding eqs ckp by simp
        from 1(1) [OF this] obtain L2 where
          "ledger_le L1 L2" "ledger_le L2 (chain (snd (snd y)))" "represents cd lr L2 (fst (snd y))"
          using L1(3) le1 unfolding P_def by blast
        then show ?thesis using ledger_le_trans [OF L1(1)] by blast
      next
        case False
        then have "fst (snd y) = st' \<and> snd (snd y) = Suc t"
          using 1(2) round unfolding eqs ckp by (auto split: sum.splits)
        then show ?thesis using L1(1,3) le1 by auto
      qed
    qed
  qed
  then show ?thesis using assms(3-5) by (simp add: P_def)
qed

end

end
