(* ===== verification/Full_Node.thy ===== *)
theory Full_Node
  imports Sync_Spec
begin

text \<open>
  A full node that satisfies the contract of \<open>Sync_Spec\<close>: it serves a fixed ledger, greedily up to
  the limits of the request and in ledger order. It interprets the locales \<open>honest_world\<close> and
  \<open>live_world\<close>; the properties of the synchronisation are stated here and applied to it.
\<close>

section \<open>A node that serves a ledger\<close>

text \<open>The UTXOs of a shard have the tree index of the shard.\<close>

definition sharded_by :: "'u forest \<Rightarrow> ('u, 'n, 'o) ledger \<Rightarrow> bool" where
  "sharded_by forest C \<longleftrightarrow> (\<forall>s. \<forall>r \<in> set (led_receivers C s). tree_index forest (fst r) = Some s)"

definition served :: "('u, 'n, 'o) ledger \<Rightarrow> checkpoint \<Rightarrow> nat \<Rightarrow> u8 \<Rightarrow> ('u, 'n) receiver_chunk" where
  "served C ckp limit s = take (greedy_count (avail C (receiver_index ckp)) limit all_u8 s)
     (drop (unat (receiver_index ckp s)) (led_receivers C s))"

definition serve ::
  "('u, 'n, 'o) ledger \<Rightarrow> checkpoint \<Rightarrow> u64 \<Rightarrow> u64 \<Rightarrow> ('u, 'n, 'o) pull_response" where
  "serve C ckp max_receivers max_senders =
     \<lparr>should_continue = (unat max_receivers < (\<Sum>s \<leftarrow> all_u8. avail C (receiver_index ckp) s)
        \<or> unat (sender_index ckp) + unat max_senders < length (led_senders C)),
      receivers = concat (map (served C ckp (unat max_receivers)) all_u8),
      senders = take (unat max_senders) (drop (unat (sender_index ckp)) (led_senders C)),
      senders_receivers_total = replicate 16 0\<rparr>"

definition serving_world :: "sqlite \<Rightarrow> ('u, 'n) shard_order \<Rightarrow> ('u, 'n, 'o) ledger \<Rightarrow> ('u, 'n, 'o) world" where
  "serving_world sq ord C =
     \<lparr>engine_of = sq, node_of = (\<lambda>_ (ckp, a, b). Inr (serve C ckp a b)), order_of = ord\<rparr>"

lemma filter_concat_tagged:
  assumes "distinct xs" and "\<And>x r. r \<in> set (f x) \<Longrightarrow> key r = Some x"
  shows "filter (\<lambda>r. key r = Some s) (concat (map f xs)) = (if s \<in> set xs then f s else [])"
  using assms(1)
proof (induction xs)
  case (Cons x xs)
  have "filter (\<lambda>r. key r = Some s) (f x) = (if x = s then f x else [])"
    using assms(2) [of _ x] by (auto simp: filter_empty_conv filter_id_conv)
  then show ?case using Cons by auto
qed simp

locale serving =
  fixes C :: "('u, 'n, 'o) ledger" and forest :: "'u forest" and sq :: sqlite and ord :: "('u, 'n) shard_order"
  assumes served_wf: "ledger_wf C" and sharded: "sharded_by forest C" and params: "parameters_ok forest"
    and no_faults: "fault_free sq" and any_order: "visits_each_once ord"
begin

lemma served_tree_index: "r \<in> set (served C ckp n s) \<Longrightarrow> tree_index forest (fst r) = Some s"
  using sharded unfolding sharded_by_def served_def by (meson in_set_dropD in_set_takeD)

text \<open>From the checkpoint of a part of the chain, the next items of each shard are served.\<close>

lemma extend_serve:
  assumes "ledger_le L C"
  shows "led_receivers (extend_ledger forest (serve C (checkpoint_of L) a b) L) s =
      take (length (led_receivers L s) +
        greedy_count (avail C (receiver_index (checkpoint_of L))) (unat a) all_u8 s) (led_receivers C s)"
    and "led_senders (extend_ledger forest (serve C (checkpoint_of L) a b) L) =
      take (length (led_senders L) + unat b) (led_senders C)"
proof -
  note wfL = ledger_wf_le [OF assms served_wf]
  have "filter (\<lambda>r. tree_index forest (fst r) = Some s) (receivers (serve C (checkpoint_of L) a b)) =
      served C (checkpoint_of L) (unat a) s"
    by (simp add: serve_def filter_concat_tagged served_tree_index)
  moreover have r: "take (length (led_receivers L s)) (led_receivers C s) = led_receivers L s"
    and x: "take (length (led_senders L)) (led_senders C) = led_senders L"
    using assms by (auto simp: ledger_le_def prefix_def dest: spec [of _ s])
  ultimately show "led_receivers (extend_ledger forest (serve C (checkpoint_of L) a b) L) s =
      take (length (led_receivers L s) +
        greedy_count (avail C (receiver_index (checkpoint_of L))) (unat a) all_u8 s) (led_receivers C s)"
    by (simp add: extend_ledger_def served_def unat_checkpoint_of [OF wfL] take_add)
  show "led_senders (extend_ledger forest (serve C (checkpoint_of L) a b) L) =
      take (length (led_senders L) + unat b) (led_senders C)"
    using x by (simp add: extend_ledger_def serve_def unat_checkpoint_of [OF wfL] take_add)
qed

lemma serve_on_chain: "ledger_le L C \<Longrightarrow> ledger_le (extend_ledger forest (serve C (checkpoint_of L) a b) L) C"
  by (simp add: ledger_le_def [of _ C] extend_serve take_is_prefix)

lemma avail_checkpoint:
  assumes "ledger_le L C"
  shows "avail C (receiver_index (checkpoint_of L)) s = length (led_receivers C s) - length (led_receivers L s)"
  by (simp add: avail_def unat_checkpoint_of [OF ledger_wf_le [OF assms served_wf]])

lemma length_served: "length (served C ckp n s) = greedy_count (avail C (receiver_index ckp)) n all_u8 s"
  using greedy_count_le [of "avail C (receiver_index ckp)" n all_u8 s] by (simp add: served_def avail_def)

lemma length_serve:
  "length (receivers (serve C ckp a b)) = min (unat a) (\<Sum>s \<leftarrow> all_u8. avail C (receiver_index ckp) s)"
  using length_served
  by (simp add: serve_def length_concat comp_def sum_greedy_count)

lemma serve_progress:
  assumes "ledger_le L C" and "0 < a" and "0 < b" and "should_continue (serve C (checkpoint_of L) a b)"
  shows "receivers (serve C (checkpoint_of L) a b) \<noteq> [] \<or> senders (serve C (checkpoint_of L) a b) \<noteq> []"
proof -
  have "0 < unat a" "0 < unat b"
    using assms(2,3) by (simp_all add: word_less_nat_alt)
  moreover have "unat a < (\<Sum>s \<leftarrow> all_u8. avail C (receiver_index (checkpoint_of L)) s)
      \<or> unat (sender_index (checkpoint_of L)) + unat b < length (led_senders C)"
    using assms(4) by (simp add: serve_def)
  ultimately show ?thesis
  proof (elim disjE)
    assume "unat a < (\<Sum>s \<leftarrow> all_u8. avail C (receiver_index (checkpoint_of L)) s)" "0 < unat a"
    then have "0 < length (receivers (serve C (checkpoint_of L) a b))"
      unfolding length_serve by simp
    then show ?thesis by simp
  qed (simp add: serve_def)
qed

lemma serve_up_to_date:
  assumes "ledger_le L C" and "\<not> should_continue (serve C (checkpoint_of L) a b)"
  shows "extend_ledger forest (serve C (checkpoint_of L) a b) L = C"
proof -
  let ?av = "avail C (receiver_index (checkpoint_of L))"
  have "(\<Sum>s \<leftarrow> all_u8. ?av s) \<le> unat a"
    and b: "length (led_senders C) \<le> length (led_senders L) + unat b"
    using assms(2) unat_checkpoint_of(2) [OF ledger_wf_le [OF assms(1) served_wf]] by (auto simp: serve_def)
  then have "greedy_count ?av (unat a) all_u8 s = ?av s" for s
    by (intro greedy_complete) simp_all
  then have "led_receivers (extend_ledger forest (serve C (checkpoint_of L) a b) L) s = led_receivers C s" for s
    by (simp add: extend_serve [OF assms(1)] avail_checkpoint [OF assms(1)])
  then show ?thesis
    using extend_serve(2) [OF assms(1)] b by (intro ledger.equality) (auto simp: fun_eq_iff)
qed

end

sublocale serving \<subseteq> live: live_world forest "\<lambda>_. serving_world sq ord C" "\<lambda>_. C" C
proof (unfold_locales, goal_cases)
  case (8 L t meth a b resp r)
  then show ?case
    using served_tree_index by (fastforce simp: serving_world_def serve_def)
next
  case (9 L t meth ms mr resp)
  have "0 < min ms MAX_SENDERS" "0 < min mr MAX_RECEIVERS"
    using 9 by (simp_all add: min_def MAX_SENDERS_def MAX_RECEIVERS_def)
  then show ?case
    using serve_progress [OF 9(1)] 9 by (auto simp: serving_world_def)
qed (use served_wf params no_faults any_order in \<open>auto simp: serving_world_def serve_on_chain serve_up_to_date\<close>)

section \<open>A concrete full node\<close>

definition demo_forest :: "u8 forest" where
  "demo_forest = \<lparr>parameters_ok = True,
     tree_index = (\<lambda>u. if u \<in> {10, 20, 30} then Some 0 else if u = 40 then Some 3 else None)\<rparr>"

lemma demo_parameters: "parameters_ok demo_forest"
  by (simp add: demo_forest_def)

lemma demo_sharded: "sharded_by demo_forest demo_ledger"
  by (auto simp: sharded_by_def demo_ledger_def demo_forest_def split: if_splits)

interpretation demo_node: serving demo_ledger demo_forest demo_sqlite rev
  by unfold_locales
    (simp_all add: demo.ledger demo.engine demo_sharded demo_parameters visits_each_once_def)

text \<open>A database just created, with an empty cache.\<close>

definition fresh_state :: "recency_list sync_state" where
  "fresh_state = \<lparr>st_db = empty_db, st_cache = lru_new recency_lru 8, init_syncing_finished = False\<rparr>"

lemma fresh_state_represents: "represents byte_codec recency_lru empty_ledger fresh_state"
  by (simp add: represents_def fresh_state_def empty_db_holds empty_cache_coherent [OF recency.lru_crate_axioms])

lemma empty_ledger_le [simp]: "ledger_le empty_ledger L"
  by (simp add: ledger_le_def empty_ledger_def)

section \<open>Properties: one round\<close>

text \<open>
  C18. Reconstructing the shards of a response: it succeeds exactly when every UTXO converts, and
  reports \<open>BadUtxo\<close> otherwise; on success the map has one entry per shard that occurs, and the
  entry holds the receivers of the shard in the order of the response.
\<close>

theorem reconstruct_shards_groups:
  assumes "parameters_ok forest"
  shows "if \<exists>r \<in> set (receivers resp). tree_index forest (fst r) = None
    then reconstruct_shards_from_pull_response forest resp = Inl (Indexer BadUtxo)
    else \<exists>shards. reconstruct_shards_from_pull_response forest resp = Inr shards \<and> distinct (map fst shards) \<and>
      (\<forall>s. map_of shards s = (let g = filter (\<lambda>r. tree_index forest (fst r) = Some s) (receivers resp)
         in if g = [] then None else Some g))"
proof (cases "\<exists>r \<in> set (receivers resp). tree_index forest (fst r) = None")
  case True
  then show ?thesis by (simp add: reconstruct_push_all [OF assms])
next
  case False
  then obtain shards where shards: "reconstruct_shards_from_pull_response forest resp = Inr shards"
    by (simp add: reconstruct_push_all [OF assms])
  show ?thesis
    using False shards reconstruct_entries [OF shards] by simp
qed

theorem reconstruct_shards_groups_witness:
  "reconstruct_shards_from_pull_response demo_forest
     \<lparr>should_continue = False, receivers = [(10, 11), (99, 0 :: u8)], senders = ([] :: u8 sender_chunk),
      senders_receivers_total = []\<rparr> = Inl (Indexer BadUtxo)"
  using reconstruct_shards_groups [of demo_forest "\<lparr>should_continue = False, receivers = [(10, 11), (99, 0 :: u8)],
      senders = ([] :: u8 sender_chunk), senders_receivers_total = []\<rparr>"]
  by (simp add: demo_forest_def)

text \<open>
  C6. A successful round extends the ledger by the response. If the tables hold a ledger, the cache
  is coherent with it and the checkpoint in memory is the one of the ledger, then after a round
  that returned a value the tables hold the ledger with each receiver of the response appended to
  its shard and the senders appended, in the order of the response; the cache is coherent with the
  new ledger, with or without refresh; the checkpoint in memory is again the one of the ledger;
  the total is the one of the response. This holds for every iteration order of the hash map of
  shards and on an engine that may have faults.
\<close>

theorem sync_round_extends_ledger:
  assumes "lru_crate lr" and "visits_each_once (order_of w)" and "represents cd lr L st"
    and "sync_round cd lr forest w mc refresh (checkpoint_of L) st = (Inr (cont, ckp'), st')"
    and "\<forall>resp. synchronize_ledger (node_of w) (checkpoint_of L) (fst mc) (snd mc) = Inr resp \<longrightarrow>
      ledger_wf (extend_ledger forest resp L)"
  shows "\<exists>resp. synchronize_ledger (node_of w) (checkpoint_of L) (fst mc) (snd mc) = Inr resp \<and>
    cont = should_continue resp \<and> represents cd lr (extend_ledger forest resp L) st' \<and>
    ckp' = checkpoint_of (extend_ledger forest resp L) \<and>
    tbl_total (st_db st') = Some (senders_receivers_total resp) \<and>
    init_syncing_finished st' = (\<not> cont \<or> init_syncing_finished st)"
  using sync_round_represents [OF assms(1-4)] assms(5) by blast

lemma demo_round:
  "\<exists>(resp :: (u8, u8, u8) pull_response) st'. sync_round byte_codec recency_lru demo_forest (serving_world demo_sqlite rev demo_ledger) (2, 2) True
      (checkpoint_of (empty_ledger :: (u8, u8, u8) ledger)) fresh_state =
    (Inr (should_continue resp, checkpoint_of (extend_ledger demo_forest resp empty_ledger)), st')"
  using demo_node.live.round_succeeds [OF recency.lru_crate_axioms fresh_state_represents empty_ledger_le,
      of "(2, 2)" True] by blast

theorem sync_round_extends_ledger_witness:
  "\<exists>L. represents byte_codec recency_lru L
    (snd (sync_round byte_codec recency_lru demo_forest (serving_world demo_sqlite rev demo_ledger) (2, 2) True
      (checkpoint_of (empty_ledger :: (u8, u8, u8) ledger)) fresh_state))"
proof -
  obtain resp :: "(u8, u8, u8) pull_response" and st' where r: "sync_round byte_codec recency_lru demo_forest (serving_world demo_sqlite rev demo_ledger)
      (2, 2) True (checkpoint_of (empty_ledger :: (u8, u8, u8) ledger)) fresh_state =
    (Inr (should_continue resp, checkpoint_of (extend_ledger demo_forest resp empty_ledger)), st')"
    using demo_round by blast
  have "visits_each_once (order_of (serving_world demo_sqlite rev demo_ledger))"
    by (rule demo_node.live.order)
  from sync_round_extends_ledger [OF recency.lru_crate_axioms this fresh_state_represents r]
  show ?thesis
    using demo_node.live.response_wf(2) [OF empty_ledger_le] r by auto
qed

section \<open>Lemmas: synchronisation calls\<close>

lemma call_safe:
  assumes "lru_crate lr" and "honest_world forest world chain" and "represents cd lr L st"
    and "ledger_le L (chain t)"
    and "sync_shards_from_full_node cd lr forest world mc refresh t st = Some (r, st', t')"
  shows "\<exists>L'. ledger_le L L' \<and> ledger_le L' (chain t') \<and> represents cd lr L' st'"
proof (cases "get_latest_check_point (engine_of (world t)) (st_db st)")
  case (Inl e)
  then have "st' = st" "t' = Suc t"
    using assms(5) by (auto simp: sync_shards_from_full_node_def)
  then show ?thesis
    using assms(3,4) honest_world.chain_grows [OF assms(2)] by (intro exI [of _ L]) (auto intro: ledger_le_trans)
next
  case (Inr ckp)
  then have "ckp = checkpoint_of L"
    using assms(3) get_latest_check_point_Inr by (auto simp: represents_def)
  then show ?thesis
    using honest_world.loop_safe [OF assms(2,1) _ assms(3,4)] assms(5) Inr
    by (fastforce simp: sync_shards_from_full_node_def)
qed

lemma call_completes:
  assumes "lru_crate lr" and "live_world forest world chain bound" and "0 < fst mc" and "0 < snd mc"
    and "represents cd lr L st" and "ledger_le L (chain t)"
  shows "\<exists>st' t'. sync_shards_from_full_node cd lr forest world mc refresh t st = Some (Inr (), st', Suc t') \<and>
    t \<le> t' \<and> represents cd lr (chain t') st' \<and> init_syncing_finished st' \<and> total_from world (st_db st')"
proof -
  have "honest_world forest world chain"
    using assms(2) by (simp add: live_world_def)
  then have "ledger_wf L"
    using ledger_wf_le [OF assms(6)] honest_world.chain_wf by blast
  then have "get_latest_check_point (engine_of (world t)) (st_db st) = Inr (checkpoint_of L)"
    using assms(5) get_latest_check_point_ledger [OF live_world.engine [OF assms(2)]] by (auto simp: represents_def)
  then show ?thesis
    using live_world.loop_returns [OF assms(2,1,3-6)] by (simp add: sync_shards_from_full_node_def)
qed

section \<open>Properties: synchronisation calls\<close>

text \<open>
  C9. Safety of a call under faults: whatever statements fail and whatever requests go unanswered,
  when a call of \<open>sync_shards_from_full_node\<close> ends, with a value or with an error, the tables hold
  a ledger that extends the one from before and lies on the chain of the node, and the cache is
  coherent with it.
\<close>

theorem sync_call_safe:
  assumes "lru_crate lr" and "honest_world forest world chain" and "represents cd lr L st"
    and "ledger_le L (chain t)"
    and "sync_shards_from_full_node cd lr forest world mc refresh t st = Some (r, st', t')"
  shows "\<exists>L'. ledger_le L L' \<and> ledger_le L' (chain t') \<and> represents cd lr L' st'"
  using assms by (rule call_safe)

text \<open>
  C7. A call returns, and returns up to date: with a node that answers, no faults and positive
  limits, \<open>sync_shards_from_full_node\<close> ends without an error after finitely many rounds; then the
  tables hold the whole chain as of the last request, the cache is coherent with it, the total of
  one of its responses is stored, and the flag of the initial synchronisation is set.
\<close>

theorem sync_call_completes:
  assumes "lru_crate lr" and "live_world forest world chain bound" and "0 < fst mc" and "0 < snd mc"
    and "represents cd lr L st" and "ledger_le L (chain t)"
  shows "\<exists>st' t'. sync_shards_from_full_node cd lr forest world mc refresh t st = Some (Inr (), st', Suc t') \<and>
    t \<le> t' \<and> represents cd lr (chain t') st' \<and> init_syncing_finished st' \<and> total_from world (st_db st')"
  using assms by (rule call_completes)

theorem sync_call_completes_witness:
  "\<exists>st' t'. sync_shards_from_full_node byte_codec recency_lru demo_forest
      (\<lambda>_. serving_world demo_sqlite rev demo_ledger) (2, 2) True 0 fresh_state = Some (Inr (), st', Suc t') \<and>
    represents byte_codec recency_lru demo_ledger st' \<and> init_syncing_finished st'"
  using sync_call_completes [where mc = "(2, 2)" and refresh = True and t = 0,
      OF recency.lru_crate_axioms demo_node.live.live_world_axioms _ _ fresh_state_represents empty_ledger_le] by auto

theorem sync_call_safe_witness:
  "\<exists>st' t' L'. sync_shards_from_full_node byte_codec recency_lru demo_forest
      (\<lambda>_. serving_world demo_sqlite rev demo_ledger) (2, 2) True 0 fresh_state = Some (Inr (), st', t') \<and>
    ledger_le L' demo_ledger \<and> represents byte_codec recency_lru L' st'"
proof -
  have "get_latest_check_point demo_sqlite empty_db = Inr (checkpoint_of (empty_ledger :: (u8, u8, u8) ledger))"
    by (rule get_latest_check_point_ledger [OF demo.engine(2) empty_db_holds [of byte_codec]])
      (simp add: ledger_wf_def empty_ledger_def)
  then obtain st' t' where "sync_shards_from_full_node byte_codec recency_lru demo_forest
      (\<lambda>_. serving_world demo_sqlite rev demo_ledger) (2, 2) True 0 fresh_state = Some (Inr (), st', t')"
    using demo_node.live.loop_returns [where mc = "(2, 2)" and refresh = True and t = 0,
        OF recency.lru_crate_axioms _ _ fresh_state_represents empty_ledger_le]
    by (auto simp: sync_shards_from_full_node_def serving_world_def fresh_state_def)
  then show ?thesis
    using sync_call_safe [OF recency.lru_crate_axioms demo_node.live.honest_world_axioms
        fresh_state_represents empty_ledger_le] by blast
qed

end
