(* ===== verification/Sync_Job.thy ===== *)
theory Sync_Job
  imports Full_Node
begin

text \<open>
  The synchronisation job and the client walks: the counters and the state after each iteration,
  the end of the job at a shutdown, the agreement of the two ways in which the sources advance a
  checkpoint, and the checkpoint that a walk over a node arrives at.
\<close>

section \<open>Advancing a checkpoint\<close>

lemma fold_set_index:
  fixes ckp :: checkpoint
  assumes "distinct (map fst gs)"
  shows "fold (\<lambda>(i, utxos) ckp. ckp\<lparr>receiver_index := (receiver_index ckp)
         (i := receiver_index prev i + word_of_nat (length utxos))\<rparr>) gs ckp =
     ckp\<lparr>receiver_index := (\<lambda>s. if s \<in> fst ` set gs
        then receiver_index prev s + word_of_nat (length (items_of gs s)) else receiver_index ckp s)\<rparr>"
  using assms
proof (induction gs arbitrary: ckp)
  case (Cons g gs)
  obtain s items where g: "g = (s, items)" by (cases g)
  then show ?case
    using Cons by (auto simp: fun_eq_iff intro!: arg_cong [where f = "\<lambda>x. _\<lparr>receiver_index := x\<rparr>"])
qed simp

lemma calculate_next_checkpoint_eq:
  assumes "visits_each_once ord" and "distinct (map fst gs)"
  shows "calculate_next_checkpoint ord gs ckp ckp n =
    \<lparr>receiver_index = (\<lambda>s. receiver_index ckp s + word_of_nat (length (items_of gs s))),
     sender_index = sender_index ckp + n\<rparr>"
proof -
  have dist: "distinct (map fst (ord gs))"
    using visits_each_once_distinct [OF assms(1)] assms(2) by blast
  show ?thesis
    unfolding calculate_next_checkpoint_def fold_set_index [OF dist]
    by (auto simp: items_of_order [OF assms] visits_each_once_props(2) [OF assms(1)] fun_eq_iff items_of_fresh
        intro!: checkpoint.equality)
qed

text \<open>
  The two ways of advancing a checkpoint agree: when the walks call it, with the previous
  checkpoint equal to the next one, \<open>calculate_next_checkpoint\<close> computes what
  \<open>increasing_checkpoint\<close> computes in the synchronisation, each under its own iteration order of
  the hash map.
\<close>

lemma checkpoint_advances_agree:
  assumes "visits_each_once ord" and "visits_each_once ord'" and "distinct (map fst shards)"
  shows "calculate_next_checkpoint ord shards ckp ckp n = increasing_checkpoint ord' ckp n shards"
  by (simp add: calculate_next_checkpoint_eq [OF assms(1,3)] increasing_checkpoint_eq [OF assms(2,3)])

section \<open>Walks over a node\<close>

context live_world
begin

lemma walk_returns:
  assumes "ledger_le L (chain t)" and "0 < ms" and "0 < mr"
  shows "\<exists>t'. t \<le> t' \<and> walk_checkpoints forest (\<lambda>t. order_of (world t))
      (\<lambda>t ckp _. (synchronize_ledger (node_of (world t)) ckp ms mr, ())) t (checkpoint_of L) (checkpoint_of L) () =
    Some (Inr (checkpoint_of (chain t')), ())"
  using assms(1)
proof (induction "led_size bound - led_size L" arbitrary: L t rule: less_induct)
  case less
  obtain resp where node: "node_of (world t) PULL_LEDGER_DIFF_METHODS
      (checkpoint_of L, min ms MAX_SENDERS, min mr MAX_RECEIVERS) = Inr resp"
    using answers [OF less.prems] by blast
  then have sync: "synchronize_ledger (node_of (world t)) (checkpoint_of L) ms mr = Inr resp"
    by (simp add: synchronize_ledger_def)
  obtain shards where shards: "reconstruct_shards_from_pull_response forest resp = Inr shards"
    using reconstruct_push_all [OF hash_parameters, of resp] converts [OF less.prems node] by auto
  have nxt: "calculate_next_checkpoint (order_of (world t)) shards (checkpoint_of L) (checkpoint_of L)
      (word_of_nat (length (senders resp))) = checkpoint_of (extend_ledger forest resp L)"
    using checkpoint_of_extend [OF order [of t] shards, of L]
      calculate_next_checkpoint_eq [OF order [of t] reconstruct_entries(1) [OF shards]]
      increasing_checkpoint_eq [OF order [of t] reconstruct_entries(1) [OF shards]]
    by metis
  have le: "ledger_le (extend_ledger forest resp L) (chain t)"
    by (rule on_chain [OF less.prems node])
  show ?case
  proof (cases "should_continue resp")
    case False
    then show ?thesis
      using up_to_date [OF less.prems node] sync shards nxt
      by (subst walk_checkpoints.simps) (auto intro!: exI [of _ t])
  next
    case True
    then have "receivers resp \<noteq> [] \<or> senders resp \<noteq> []"
      using progress [OF less.prems node assms(2,3)] by blast
    then have "led_size L < led_size (extend_ledger forest resp L)"
      using led_size_extend [of resp forest L] converts [OF less.prems node] by auto
    moreover have "led_size (extend_ledger forest resp L) \<le> led_size bound"
      by (rule led_size_mono [OF ledger_le_trans [OF le bounded]])
    ultimately have "led_size bound - led_size (extend_ledger forest resp L) < led_size bound - led_size L"
      by linarith
    from less.hyps [OF this ledger_le_trans [OF le chain_grows]] obtain t' where
      "Suc t \<le> t'" "walk_checkpoints forest (\<lambda>t. order_of (world t))
        (\<lambda>t ckp _. (synchronize_ledger (node_of (world t)) ckp ms mr, ())) (Suc t)
        (checkpoint_of (extend_ledger forest resp L)) (checkpoint_of (extend_ledger forest resp L)) () =
        Some (Inr (checkpoint_of (chain t')), ())" by blast
    then show ?thesis
      using True sync shards nxt by (subst walk_checkpoints.simps) (auto intro!: exI [of _ t'])
  qed
qed

end

lemma checkpoint_of_empty: "checkpoint_of empty_ledger = checkpoint_default"
  by (simp add: checkpoint_of_def empty_ledger_def checkpoint_default_def)

text \<open>
  Walking over a node from the default checkpoint ends, and ends at the checkpoint of the
  chain as of the last request.
\<close>

lemma get_check_point_from_node_correct:
  assumes "live_world forest world chain bound"
  shows "\<exists>t'. get_check_point_from_node forest (\<lambda>t. order_of (world t)) (Inr (\<lambda>t. node_of (world t))) =
    Some (Inr (checkpoint_of (chain t')))"
  using live_world.walk_returns [OF assms empty_ledger_le, of "1024 * 15" "1024 * 15" 0]
  by (auto simp: get_check_point_from_node_def checkpoint_of_empty)

section \<open>The job\<close>

text \<open>
  What the job makes of the outcomes of its calls. \<open>sync_calls\<close> runs calls one after the other, each
  from the state and the clock that the one before it left, and compares their results with a
  list of outcomes; the result is the last state and clock, if every call returned as listed.
\<close>

fun sync_calls ::
  "(nat \<Rightarrow> 'st \<Rightarrow> ((anyhow_error + unit) \<times> 'st \<times> nat) option) \<Rightarrow> nat \<Rightarrow> 'st \<Rightarrow> (anyhow_error + unit) list \<Rightarrow>
   ('st \<times> nat) option" where
  "sync_calls call t st [] = Some (st, t)"
| "sync_calls call t st (r # rs) =
     (case call t st of
        Some (r', st', t') \<Rightarrow> if r' = r then sync_calls call t' st' rs else None
      | None \<Rightarrow> None)"

fun succeeded :: "anyhow_error + unit \<Rightarrow> bool" where
  "succeeded (Inr _) = True"
| "succeeded (Inl _) = False"

fun panicked :: "anyhow_error + unit \<Rightarrow> bool" where
  "panicked (Inl (Panic _)) = True"
| "panicked _ = False"

fun task_result :: "anyhow_error + unit \<Rightarrow> string + unit" where
  "task_result (Inl (Panic msg)) = Inl msg"
| "task_result _ = Inr ()"

text \<open>The end of a job whose calls had the outcomes \<open>rs\<close> and left the state and the clock \<open>p\<close>.\<close>

definition job_after :: "u64 \<Rightarrow> (anyhow_error + unit) list \<Rightarrow> 'c sync_state \<times> nat \<Rightarrow> 'c job_state \<Rightarrow> 'c job_state" where
  "job_after frequency rs p job = job\<lparr>job_sync := fst p, job_clock := snd p,
     synced_times := synced_times job + word_of_nat (length (filter succeeded rs)),
     sync_error_count := sync_error_count job + length (filter (\<lambda>r. \<not> succeeded r \<and> \<not> panicked r) rs),
     slept := slept job @ replicate (length (filter succeeded rs)) frequency\<rparr>"

text \<open>
  The outcomes after which the job ends: a panic, or a call behind which the flag is found up; none
  before it.
\<close>

fun job_stops :: "(nat \<Rightarrow> bool) \<Rightarrow> nat \<Rightarrow> (anyhow_error + unit) list \<Rightarrow> bool" where
  "job_stops shutdown k [] = False"
| "job_stops shutdown k [r] = (panicked r \<or> shutdown k)"
| "job_stops shutdown k (r # rs) = (\<not> panicked r \<and> \<not> shutdown k \<and> job_stops shutdown (Suc k) rs)"

abbreviation job_call :: "('u, 'n, 'o) codec \<Rightarrow> 'c lru_ops \<Rightarrow> 'u forest \<Rightarrow> (nat \<Rightarrow> ('u, 'n, 'o) world) \<Rightarrow> u64 \<times> u64 \<Rightarrow>
    nat \<Rightarrow> 'c sync_state \<Rightarrow> ((anyhow_error + unit) \<times> 'c sync_state \<times> nat) option" where
  "job_call cd lr forest world mc \<equiv> sync_shards_from_full_node cd lr forest world mc True"

lemma job_iteration_after:
  "job_iteration cd lr forest world mc frequency job =
     (case job_call cd lr forest world mc (job_clock job) (job_sync job) of
        None \<Rightarrow> None
      | Some (r, st, t) \<Rightarrow> Some (task_result r, job_after frequency [r] (st, t) job))"
  by (auto simp: job_iteration_def job_after_def split: option.split sum.split anyhow_error.split)

lemma job_after_Cons:
  "job_after frequency rs p (job_after frequency [r] q job) = job_after frequency (r # rs) p job"
  by (simp add: job_after_def algebra_simps)

lemma panicked_iff: "panicked r \<longleftrightarrow> task_result r \<noteq> Inr ()"
  by (cases r rule: panicked.cases) auto

lemma job_loop_step:
  "job_loop cd lr forest world mc frequency shutdown k job =
     (case job_call cd lr forest world mc (job_clock job) (job_sync job) of
        None \<Rightarrow> None
      | Some (r, st, t) \<Rightarrow>
          if panicked r \<or> shutdown k then Some (task_result r, job_after frequency [r] (st, t) job)
          else job_loop cd lr forest world mc frequency shutdown (Suc k) (job_after frequency [r] (st, t) job))"
  by (subst job_loop.simps)
    (auto simp: job_iteration_after panicked_iff split: option.split sum.split)

lemma job_loop_outcomes:
  assumes "job_loop cd lr forest world mc frequency shutdown k job = Some y"
  shows "\<exists>rs p. job_stops shutdown k rs \<and>
    sync_calls (job_call cd lr forest world mc) (job_clock job) (job_sync job) rs = Some p \<and>
    y = (task_result (last rs), job_after frequency rs p job)"
  using assms
proof (rule job_loop.raw_induct [rotated], goal_cases)
  case (1 rec cd lr forest world mc frequency shutdown k job y)
  obtain r st t where call: "job_call cd lr forest world mc (job_clock job) (job_sync job) = Some (r, st, t)"
    using 1(2) by (auto simp: job_iteration_after split: option.splits)
  show ?case
  proof (cases "panicked r \<or> shutdown k")
    case True
    then have "y = (task_result r, job_after frequency [r] (st, t) job)"
      using 1(2) call by (auto simp: job_iteration_after panicked_iff split: sum.splits)
    then show ?thesis
      using True call by (intro exI [of _ "[r]"]) auto
  next
    case False
    then have "rec cd lr forest world mc frequency shutdown (Suc k) (job_after frequency [r] (st, t) job) = Some y"
      using 1(2) call by (auto simp: job_iteration_after panicked_iff split: sum.splits)
    from 1(1) [OF this] obtain rs p where "job_stops shutdown (Suc k) rs"
      "sync_calls (job_call cd lr forest world mc) t st rs = Some p"
      "y = (task_result (last rs), job_after frequency (r # rs) p job)"
      unfolding job_after_Cons by (auto simp: job_after_def)
    then show ?thesis
      using False call by (intro exI [of _ "r # rs"]) (cases rs; auto)
  qed
qed

lemma outcomes_job_loop:
  assumes "job_stops shutdown k rs"
    and "sync_calls (job_call cd lr forest world mc) (job_clock job) (job_sync job) rs = Some p"
  shows "job_loop cd lr forest world mc frequency shutdown k job = Some (task_result (last rs), job_after frequency rs p job)"
  using assms
proof (induction shutdown k rs arbitrary: job rule: job_stops.induct)
  case (2 shutdown k r)
  then show ?case
    by (subst job_loop_step) (auto split: option.splits if_splits)
next
  case (3 shutdown k r r' rs)
  obtain st t where call: "job_call cd lr forest world mc (job_clock job) (job_sync job) = Some (r, st, t)"
    and rest: "sync_calls (job_call cd lr forest world mc) t st (r' # rs) = Some p"
    using "3.prems"(2) by (auto split: option.splits if_splits)
  have "job_loop cd lr forest world mc frequency shutdown (Suc k) (job_after frequency [r] (st, t) job) =
      Some (task_result (last (r' # rs)), job_after frequency (r # r' # rs) p job)"
    using "3.IH" [of "job_after frequency [r] (st, t) job"] "3.prems"(1) rest
    unfolding job_after_Cons by (simp add: job_after_def)
  then show ?case
    using "3.prems"(1) call by (subst job_loop_step) simp
qed simp

lemma sync_calls_safe:
  assumes "lru_crate lr" and "honest_world forest world chain"
    and "sync_calls (job_call cd lr forest world mc) t st rs = Some p" and "represents cd lr L st" and "ledger_le L (chain t)"
  shows "\<exists>L'. ledger_le L L' \<and> ledger_le L' (chain (snd p)) \<and> represents cd lr L' (fst p)"
  using assms(3-)
proof (induction rs arbitrary: t st L)
  case (Cons r rs)
  obtain st' t' where call: "job_call cd lr forest world mc t st = Some (r, st', t')"
    and rest: "sync_calls (job_call cd lr forest world mc) t' st' rs = Some p"
    using Cons.prems(1) by (auto split: option.splits if_splits)
  obtain L1 where "ledger_le L L1" "ledger_le L1 (chain t')" "represents cd lr L1 st'"
    using call_safe [OF assms(1,2) Cons.prems(2,3) call] by blast
  then show ?case
    using Cons.IH [OF rest] ledger_le_trans by blast
qed (auto intro: ledger_le_refl)

text \<open>
  C21. What the job makes of the outcomes of its calls, under any faults: it ends exactly when there is
  a sequence of calls, each from the state that the one before it left, of which the last one
  panicked or was followed by a check that found the shutdown flag up, and no earlier one. The
  counter of synchronisations is then the number of calls that succeeded (modulo \<open>2 ^ 32\<close>), the
  error counter that of the calls that returned an error, and the job has slept exactly once per
  success: after an error it asks the node again at once. A panic ends the job, is counted nowhere and
  is the result of its task. Tables and cache represent at the end a ledger that extends the first
  one and lies on the chain of the node.
\<close>

theorem job_counts_outcomes:
  assumes "lru_crate lr" and "honest_world forest world chain"
    and "represents cd lr L st" and "ledger_le L (chain 0)"
  shows "start_sync_ledger_job cd lr forest world mc frequency shutdown st = Some (res, job) \<longleftrightarrow>
    (\<exists>rs st' t'. job_stops shutdown 0 rs \<and>
      sync_calls (sync_shards_from_full_node cd lr forest world mc True) 0 st rs = Some (st', t') \<and>
      res = task_result (last rs) \<and>
      job = \<lparr>job_sync = st', job_clock = t', synced_times = word_of_nat (length (filter succeeded rs)),
        sync_error_count = length (filter (\<lambda>r. \<not> succeeded r \<and> \<not> panicked r) rs),
        slept = replicate (length (filter succeeded rs)) frequency\<rparr> \<and>
      (\<exists>L'. ledger_le L L' \<and> ledger_le L' (chain t') \<and> represents cd lr L' st'))" (is "?start \<longleftrightarrow> ?outcomes")
proof
  assume ?start
  then obtain rs p where rs: "job_stops shutdown 0 rs" "sync_calls (job_call cd lr forest world mc) 0 st rs = Some p"
    "res = task_result (last rs)"
    "job = job_after frequency rs p \<lparr>job_sync = st, job_clock = 0, synced_times = 0, sync_error_count = 0, slept = []\<rparr>"
    unfolding start_sync_ledger_job_def by (auto dest!: job_loop_outcomes)
  then show ?outcomes
    using sync_calls_safe [OF assms(1,2) rs(2) assms(3,4)]
    by (intro exI [of _ rs] exI [of _ "fst p"] exI [of _ "snd p"]) (auto simp: job_after_def)
next
  assume ?outcomes
  then show ?start
    unfolding start_sync_ledger_job_def by (auto simp: outcomes_job_loop job_after_def)
qed

lemma job_iteration_live:
  assumes "lru_crate lr" and "live_world forest world chain bound" and "0 < fst mc" and "0 < snd mc"
    and "represents cd lr L (job_sync job)" and "ledger_le L (chain (job_clock job))"
  shows "\<exists>job' t'. job_iteration cd lr forest world mc frequency job = Some (Inr (), job') \<and> job_clock job' = Suc t' \<and>
    job_clock job \<le> t' \<and> represents cd lr (chain t') (job_sync job') \<and> synced_times job' = synced_times job + 1 \<and>
    sync_error_count job' = sync_error_count job \<and> slept job' = slept job @ [frequency]"
proof -
  obtain st' t' where "sync_shards_from_full_node cd lr forest world (fst mc, snd mc) True (job_clock job) (job_sync job) =
      Some (Inr (), st', Suc t')" "job_clock job \<le> t'" "represents cd lr (chain t') st'"
    using call_completes [OF assms(1,2) _ _ assms(5,6), of "(fst mc, snd mc)" True] assms(3,4) by auto
  then show ?thesis by (auto simp: job_iteration_def)
qed

lemma job_loop_live:
  assumes "lru_crate lr" and "live_world forest world chain bound" and "0 < fst mc" and "0 < snd mc"
    and "represents cd lr L (job_sync job)" and "ledger_le L (chain (job_clock job))"
    and "shutdown (k + n)" and "\<forall>j < n. \<not> shutdown (k + j)"
  shows "\<exists>job' t'. job_loop cd lr forest world mc frequency shutdown k job = Some (Inr (), job') \<and>
    job_clock job' = Suc t' \<and> represents cd lr (chain t') (job_sync job') \<and> synced_times job' = synced_times job + word_of_nat (Suc n) \<and>
    sync_error_count job' = sync_error_count job \<and> slept job' = slept job @ replicate (Suc n) frequency"
  using assms(5-)
proof (induction n arbitrary: k job L)
  case 0
  obtain job' t' where "job_iteration cd lr forest world mc frequency job = Some (Inr (), job')" "job_clock job' = Suc t'"
    "represents cd lr (chain t') (job_sync job')" "synced_times job' = synced_times job + 1"
    "sync_error_count job' = sync_error_count job" "slept job' = slept job @ [frequency]"
    using job_iteration_live [OF assms(1-4) "0.prems"(1,2)] by blast
  then show ?case
    using "0.prems"(3) by (subst job_loop.simps) auto
next
  case (Suc n)
  obtain job1 t1 where it: "job_iteration cd lr forest world mc frequency job = Some (Inr (), job1)" "job_clock job1 = Suc t1"
    "represents cd lr (chain t1) (job_sync job1)" "synced_times job1 = synced_times job + 1"
    "sync_error_count job1 = sync_error_count job" "slept job1 = slept job @ [frequency]"
    using job_iteration_live [OF assms(1-4) Suc.prems(1,2)] by blast
  have "honest_world forest world chain"
    using assms(2) by (simp add: live_world_def)
  then have "ledger_le (chain t1) (chain (job_clock job1))"
    unfolding it(2) by (rule honest_world.chain_grows)
  moreover have "shutdown (Suc k + n)" "\<forall>j < n. \<not> shutdown (Suc k + j)" "\<not> shutdown k"
    using Suc.prems(3,4) by (auto dest: spec [of _ 0] spec [of _ "Suc _"])
  ultimately show ?case
    using Suc.IH [OF it(3), of "Suc k"] it by (subst job_loop.simps) (auto simp: algebra_simps)
qed

lemma job_live:
  assumes "lru_crate lr" and "live_world forest world chain bound" and "0 < fst mc" and "0 < snd mc"
    and "represents cd lr L st" and "ledger_le L (chain 0)"
    and "shutdown n" and "\<forall>j < n. \<not> shutdown j"
  shows "\<exists>job t'. start_sync_ledger_job cd lr forest world mc frequency shutdown st = Some (Inr (), job) \<and>
    job_clock job = Suc t' \<and> represents cd lr (chain t') (job_sync job) \<and> synced_times job = word_of_nat (Suc n) \<and>
    sync_error_count job = 0 \<and> slept job = replicate (Suc n) frequency"
  using job_loop_live [OF assms(1-4), of cd L "\<lparr>job_sync = st, job_clock = 0, synced_times = 0,
      sync_error_count = 0, slept = []\<rparr>" shutdown 0 n frequency] assms(5-8)
  by (simp add: start_sync_ledger_job_def)

text \<open>
  C12. The job ends at the first check of the shutdown flag that finds it up, after one complete
  synchronisation per check: with a node that answers and no faults, the tables then hold the whole
  chain as of the last request (that before the final value of the clock), no error was counted, the counter of synchronisations is the
  number of checks modulo \<open>2 ^ 32\<close>, and the job has slept once per synchronisation.
\<close>

theorem sync_job_ends_at_shutdown:
  assumes "lru_crate lr" and "live_world forest world chain bound" and "0 < fst mc" and "0 < snd mc"
    and "represents cd lr L st" and "ledger_le L (chain 0)"
    and "shutdown n" and "\<forall>j < n. \<not> shutdown j"
  shows "\<exists>job t'. start_sync_ledger_job cd lr forest world mc frequency shutdown st = Some (Inr (), job) \<and>
    job_clock job = Suc t' \<and> represents cd lr (chain t') (job_sync job) \<and> synced_times job = word_of_nat (Suc n) \<and>
    sync_error_count job = 0 \<and> slept job = replicate (Suc n) frequency"
  by (rule job_live [OF assms])

theorem sync_job_ends_at_shutdown_witness:
  "\<exists>job. start_sync_ledger_job byte_codec recency_lru demo_forest (\<lambda>_. serving_world demo_sqlite rev demo_ledger)
      (MAX_RECEIVERS, MAX_SENDERS) 2 (\<lambda>k. 2 \<le> k) fresh_state = Some (Inr (), job) \<and>
    represents byte_codec recency_lru demo_ledger (job_sync job) \<and> synced_times job = 3 \<and> slept job = [2, 2, 2]"
proof -
  have "0 < fst (MAX_RECEIVERS, MAX_SENDERS)" "0 < snd (MAX_RECEIVERS, MAX_SENDERS)"
    by (simp_all add: MAX_RECEIVERS_def MAX_SENDERS_def)
  from sync_job_ends_at_shutdown [OF recency.lru_crate_axioms demo_node.live.live_world_axioms this
      fresh_state_represents empty_ledger_le, of "\<lambda>k. 2 \<le> k" 2 2]
  show ?thesis by (auto simp: numeral_eq_Suc)
qed

theorem job_counts_outcomes_witness:
  "\<exists>job rs. start_sync_ledger_job byte_codec recency_lru demo_forest (\<lambda>_. serving_world demo_sqlite rev demo_ledger)
      (2, 2) 5 (\<lambda>k. 1 \<le> k) fresh_state = Some (Inr (), job) \<and> job_stops (\<lambda>k. 1 \<le> k) 0 rs \<and>
    slept job = replicate (length (filter succeeded rs)) 5"
proof -
  obtain job where job: "start_sync_ledger_job byte_codec recency_lru demo_forest (\<lambda>_. serving_world demo_sqlite rev demo_ledger)
      (2, 2) 5 (\<lambda>k. 1 \<le> k) fresh_state = Some (Inr (), job)"
    using job_live [OF recency.lru_crate_axioms demo_node.live.live_world_axioms _ _ fresh_state_represents empty_ledger_le,
        of "(2, 2)" "\<lambda>k. 1 \<le> k" 1 5] by auto
  with job_counts_outcomes [OF recency.lru_crate_axioms demo_node.live.honest_world_axioms fresh_state_represents
      empty_ledger_le, of "(2, 2)" 5 "\<lambda>k. 1 \<le> k" "Inr ()" job]
  show ?thesis by auto
qed

end
