(* ===== verification/Indexer_Api.thy ===== *)
theory Indexer_Api
  imports Pull_Spec
begin

text \<open>
  \<open>src/indexer/mod.rs\<close>: the two RPC methods of the indexer, their limits and their error mapping.

  \<open>show_error\<close> is \<open>to_string\<close> of an \<open>anyhow::Error\<close>. The conversion of the \<open>jsonrpsee\<close> error into
  a JSON-RPC error object by the macro is left out: an error is returned as it is.
\<close>

section \<open>The methods\<close>

definition pull_ledger_diff_impl ::
  "(anyhow_error \<Rightarrow> string) \<Rightarrow> ('u, 'n, 'o) codec \<Rightarrow> 'c lru_ops \<Rightarrow> sqlite \<Rightarrow> db \<Rightarrow> 'c \<Rightarrow> checkpoint \<Rightarrow> u64 \<Rightarrow> u64 \<Rightarrow>
   (jsonrpsee_error + ('u, 'n, 'o) pull_response \<times> checkpoint) \<times> 'c" where
  "pull_ledger_diff_impl show_error cd lr sq d cache ckp max_receivers max_senders =
     (let max_receivers = min max_receivers MAX_RECEIVERS;
          max_senders = min max_senders MAX_SENDERS;
          (r, cache') = pull_ledger_diff cd lr sq d cache ckp max_receivers max_senders
      in (map_err (\<lambda>e. Custom (show_error e)) r, cache'))"

definition rpc_pull_ledger_diff ::
  "(anyhow_error \<Rightarrow> string) \<Rightarrow> ('u, 'n, 'o) codec \<Rightarrow> 'c lru_ops \<Rightarrow> sqlite \<Rightarrow> db \<Rightarrow> 'c \<Rightarrow> checkpoint \<Rightarrow> u64 \<Rightarrow> u64 \<Rightarrow>
   (jsonrpsee_error + ('u, 'n, 'o) pull_response) \<times> 'c" where
  "rpc_pull_ledger_diff show_error cd lr sq d cache ckp max_receivers max_senders =
     (let (r, cache') = pull_ledger_diff_impl show_error cd lr sq d cache ckp max_receivers max_senders
      in (bindE r (\<lambda>response. Inr (fst response)), cache'))"

definition rpc_dense_pull_ledger_diff ::
  "(anyhow_error \<Rightarrow> string) \<Rightarrow> ('u, 'n, 'o) codec \<Rightarrow> 'c lru_ops \<Rightarrow> sqlite \<Rightarrow> db \<Rightarrow> 'c \<Rightarrow> checkpoint \<Rightarrow> u64 \<Rightarrow> u64 \<Rightarrow>
   (jsonrpsee_error + dense_pull_response) \<times> 'c" where
  "rpc_dense_pull_ledger_diff show_error cd lr sq d cache ckp max_receivers max_senders =
     (let (r, cache') = pull_ledger_diff_impl show_error cd lr sq d cache ckp max_receivers max_senders
      in (bindE r (\<lambda>(raw, next_ckp). Inr
            \<lparr>dense_should_continue = should_continue raw,
             dense_receivers = base64_encode cd (receivers_encode cd (receivers raw)),
             dense_senders = base64_encode cd (senders_encode cd (senders raw)),
             dense_senders_receivers_total = senders_receivers_total raw,
             next_checkpoint = Some next_ckp\<rparr>), cache'))"

text \<open>The names that the macro registers: the namespace of the trait in front of the names of the methods.\<close>

definition indexer_api_methods :: "string list" where
  "indexer_api_methods = map (\<lambda>name. ''mantaPay'' @ ''_'' @ name) [''pull_ledger_diff'', ''dense_pull_ledger_diff'']"

text \<open>What a client reads from a dense response.\<close>

definition undense :: "('u, 'n, 'o) codec \<Rightarrow> dense_pull_response \<Rightarrow> ('u, 'n, 'o) pull_response option" where
  "undense cd r =
     Option.bind (Option.bind (base64_decode cd (dense_receivers r)) (receivers_decode cd)) (\<lambda>rs.
     Option.bind (Option.bind (base64_decode cd (dense_senders r)) (senders_decode cd)) (\<lambda>ss.
       Some \<lparr>should_continue = dense_should_continue r, receivers = rs, senders = ss,
             senders_receivers_total = dense_senders_receivers_total r\<rparr>))"

section \<open>Properties\<close>

lemma unat_min: "unat (min a b :: u64) = min (unat a) (unat b)"
  by (simp add: min_def word_le_nat_alt)

lemma unat_limits: "unat MAX_RECEIVERS = 4096" "unat MAX_SENDERS = 4096"
  by (simp_all add: MAX_RECEIVERS_def MAX_SENDERS_def)

text \<open>A response from tables and a cache that represent a ledger.\<close>

lemma rpc_response_ok:
  assumes "scale_codec cd" "lru_crate lr" "ledger_wf L" "sqlite_ok sq" "fault_free sq" "holds_ledger cd L d"
    and "cache_coherent cd lr L cache" and "unat (sender_index ckp) \<le> 2 ^ 47"
    and "tbl_total d = Some tot" and "length tot = 16"
  shows "\<exists>resp cache'. rpc_pull_ledger_diff show_error cd lr sq d cache ckp max_receivers max_senders = (Inr resp, cache') \<and>
    length (receivers resp) \<le> 4096 \<and> length (senders resp) \<le> 4096 \<and>
    (\<forall>r \<in> set (receivers resp). \<exists>s. r \<in> set (led_receivers L s)) \<and> set (senders resp) \<subseteq> set (led_senders L) \<and>
    cache_coherent cd lr L cache'"
proof -
  let ?mr = "min max_receivers MAX_RECEIVERS" and ?ms = "min max_senders MAX_SENDERS"
  have mr: "unat ?mr \<le> 4096" and ms: "unat ?ms \<le> 4096"
    by (simp_all add: unat_min unat_limits)
  have "unat ?mr \<le> 2 ^ 47" "unat (sender_index ckp) + unat ?ms \<le> 2 ^ 48"
    using mr ms assms(8) by simp_all
  from pull_env.pull_ledger_diff_ok [OF pull_envI [OF assms(1-6)] assms(7) this assms(9,10)]
  obtain chunks ss cache' resp nxt where
    r: "pull_ledger_diff cd lr sq d cache ckp ?mr ?ms = (Inr (resp, nxt), cache')"
    and resp: "receivers resp = concat (map chunks all_u8)" "senders resp = ss"
    and chunks: "\<forall>s. mset (chunks s) = mset (take (greedy_count (avail L (receiver_index ckp)) (unat ?mr) all_u8 s)
      (drop (unat (receiver_index ckp s)) (led_receivers L s)))"
    and ss: "mset ss = mset (take (unat ?ms) (drop (unat (sender_index ckp)) (led_senders L)))"
    and coh: "cache_coherent cd lr L cache'" by force
  have "set (chunks s) \<subseteq> set (led_receivers L s)" for s
    using mset_eq_setD [OF spec [OF chunks, of s]] by (metis set_drop_subset set_take_subset subset_trans)
  moreover have "set ss \<subseteq> set (led_senders L)"
    using mset_eq_setD [OF ss] by (metis set_drop_subset set_take_subset subset_trans)
  moreover have "length (receivers resp) \<le> 4096"
    using length_chunks [OF chunks] mr resp(1) by simp
  moreover have "length ss \<le> 4096"
    using mset_eq_length [OF ss] ms by simp
  ultimately show ?thesis
    using r resp coh by (fastforce simp: rpc_pull_ledger_diff_def pull_ledger_diff_impl_def Let_def)
qed

text \<open>
  C16. The dense method carries the raw response: on the same request and state both methods leave
  the same cache, they fail with the same error, and when they succeed, decoding the dense response
  gives the raw response; the dense one has a next checkpoint in addition.
\<close>

theorem dense_response_equals_raw:
  assumes "scale_codec cd"
    and "\<forall>resp nxt cache'. pull_ledger_diff cd lr sq d cache ckp (min mr MAX_RECEIVERS) (min ms MAX_SENDERS) =
      (Inr (resp, nxt), cache') \<longrightarrow> list_all sender_wf (senders resp)"
  shows "snd (rpc_dense_pull_ledger_diff show_error cd lr sq d cache ckp mr ms) =
      snd (rpc_pull_ledger_diff show_error cd lr sq d cache ckp mr ms) \<and>
    (case fst (rpc_pull_ledger_diff show_error cd lr sq d cache ckp mr ms) of
       Inl e \<Rightarrow> fst (rpc_dense_pull_ledger_diff show_error cd lr sq d cache ckp mr ms) = Inl e
     | Inr resp \<Rightarrow> \<exists>dense nxt. fst (rpc_dense_pull_ledger_diff show_error cd lr sq d cache ckp mr ms) = Inr dense \<and>
         undense cd dense = Some resp \<and> next_checkpoint dense = Some nxt)"
proof (cases "pull_ledger_diff cd lr sq d cache ckp (min mr MAX_RECEIVERS) (min ms MAX_SENDERS)")
  case (Pair r cache')
  show ?thesis
  proof (cases r)
    case (Inl e)
    then show ?thesis
      using Pair by (simp add: rpc_dense_pull_ledger_diff_def rpc_pull_ledger_diff_def pull_ledger_diff_impl_def)
  next
    case (Inr v)
    obtain resp nxt where v: "v = (resp, nxt)" by (cases v)
    have "list_all sender_wf (senders resp)"
      using assms(2) Pair Inr v by blast
    then show ?thesis
      using Pair Inr v scale_codec.base64_roundtrip [OF assms(1)] scale_codec.receivers_roundtrip [OF assms(1)]
        scale_codec.senders_roundtrip [OF assms(1)]
      by (simp add: rpc_dense_pull_ledger_diff_def rpc_pull_ledger_diff_def pull_ledger_diff_impl_def undense_def)
  qed
qed

lemma delivered_senders_wf:
  assumes "ledger_wf L" and "mset ss = mset (take n (drop i (led_senders L)))"
  shows "list_all sender_wf ss"
proof -
  have "set ss \<subseteq> set (led_senders L)"
    using mset_eq_setD [OF assms(2)] by (metis set_drop_subset set_take_subset subset_trans)
  then show ?thesis using assms(1) by (auto simp: ledger_wf_def list_all_iff)
qed

theorem dense_response_equals_raw_witness:
  "\<exists>dense resp nxt. fst (rpc_pull_ledger_diff (\<lambda>_. []) byte_codec recency_lru demo_sqlite demo_db (lru_new recency_lru 8)
      checkpoint_default 5 5) = Inr resp \<and>
    fst (rpc_dense_pull_ledger_diff (\<lambda>_. []) byte_codec recency_lru demo_sqlite demo_db (lru_new recency_lru 8)
      checkpoint_default 5 5) = Inr dense \<and> undense byte_codec dense = Some resp \<and> next_checkpoint dense = Some nxt"
proof -
  let ?pull = "pull_ledger_diff byte_codec recency_lru demo_sqlite demo_db (lru_new recency_lru 8) checkpoint_default
    (min 5 MAX_RECEIVERS) (min 5 MAX_SENDERS)"
  have min5: "min 5 MAX_RECEIVERS = 5" "min 5 MAX_SENDERS = 5"
    by (simp_all add: MAX_RECEIVERS_def MAX_SENDERS_def min_def)
  have "tbl_total demo_db = Some (replicate 16 6)" by (simp add: demo_db_def)
  then obtain chunks ss cache' resp nxt where pull: "?pull = (Inr (resp, nxt), cache')" "senders resp = ss"
    "mset ss = mset (take (unat (5 :: u64)) (drop (unat (sender_index checkpoint_default)) (led_senders demo_ledger)))"
    using demo.pull_ledger_diff_ok [of "lru_new recency_lru 8" 5 checkpoint_default 5 "replicate 16 6"]
      empty_cache_coherent [OF recency.lru_crate_axioms, of 8 byte_codec demo_ledger]
    unfolding min5 by (fastforce simp: checkpoint_default_def)
  then have "list_all sender_wf (senders resp)"
    using delivered_senders_wf [OF demo.ledger] by blast
  then show ?thesis
    using dense_response_equals_raw [OF one_byte.scale_codec_axioms, of recency_lru demo_sqlite demo_db
        "lru_new recency_lru 8" checkpoint_default 5 5 "\<lambda>_. []"] pull
    by (simp add: rpc_pull_ledger_diff_def pull_ledger_diff_impl_def min5)
qed

end
