(* ===== verification/Indexer_System.thy ===== *)
theory Indexer_System
  imports Sync_Job Indexer_Api
begin

text \<open>
  The running indexer: the synchronisation job and the requests of clients, interleaved. A step is
  the start of a synchronisation call, one round of it with any outcome, or one request; the
  database engine may have faults in every step. Each step is atomic; theory \<open>Concurrent_System\<close>
  interleaves the accesses inside a round with those inside requests.
\<close>

section \<open>Requests under faults keep the cache coherent\<close>

lemma all_images:
  assumes "\<forall>x \<in> set xs. \<exists>j. P j \<and> x = f j"
  shows "\<exists>js. xs = map f js \<and> (\<forall>j \<in> set js. P j)"
  using assms
proof (induction xs)
  case (Cons x xs)
  then obtain j js where "P j" "x = f j" "xs = map f js" "\<forall>j \<in> set js. P j" by auto
  then show ?case by (intro exI [of _ "j # js"]) simp
qed simp

lemma shard_query_rows:
  assumes "sqlite_ok sq" and "holds_ledger cd L d" and "get_batched_shards_by_idxs sq d s is = Inr rows"
  shows "\<exists>js. rows = map (\<lambda>j. shard_row cd s j (led_receivers L s ! j)) js \<and> (\<forall>j \<in> set js. j < length (led_receivers L s))"
proof (rule all_images, rule ballI)
  fix r assume r: "r \<in> set rows"
  have "set rows \<subseteq> {r \<in> set (tbl_shards d). shard_index r = s}"
    using mset_eq_setD [OF get_batched_shards_by_idxs_Inr [OF assms(1,3)]] by auto
  then show "\<exists>j. j < length (led_receivers L s) \<and> r = shard_row cd s j (led_receivers L s ! j)"
    using r holds_shard_member [OF assms(2), of s "\<lambda>r'. r' = r"] by auto
qed

lemma nullifier_query_rows:
  assumes "sqlite_ok sq" and "holds_ledger cd L d" and "get_batched_nullifier_by_idxs sq d is = Inr rows"
  shows "\<exists>js. rows = map (\<lambda>j. nullifier_row cd j (led_senders L ! j)) js \<and> (\<forall>j \<in> set js. j < length (led_senders L))"
proof (rule all_images, rule ballI)
  fix r assume r: "r \<in> set rows"
  have "set rows \<subseteq> set (tbl_nullifier d)"
    using mset_eq_setD [OF get_batched_nullifier_by_idxs_Inr [OF assms(1,3)]] by auto
  then show "\<exists>j. j < length (led_senders L) \<and> r = nullifier_row cd j (led_senders L ! j)"
    using r holds_nullifier_member [OF assms(2), of "\<lambda>r'. r' = r"] by auto
qed

locale pull_store = scale_codec cd + lru_crate lr
  for cd :: "('u, 'n, 'o) codec" and lr :: "'c lru_ops" +
  fixes L :: "('u, 'n, 'o) ledger" and sq :: sqlite and d :: db
  assumes store_wf: "ledger_wf L" and scans: "sqlite_ok sq" and stored: "holds_ledger cd L d"
begin

lemma lookup_coherent:
  "cache_coherent cd lr L c \<Longrightarrow> cache_coherent cd lr L (snd (get_batch_lru lr c ks))"
  using get_batch_lru_eq [of c ks] by (simp add: cache_coherent_def)

lemma shard_pull_coherent:
  assumes "cache_coherent cd lr L c"
  shows "cache_coherent cd lr L (snd (pull_receivers_for_shard cd lr sq d c s i amount out))"
proof -
  define c1 where "c1 = snd (get_batch_shard_receiver lr c s (range_u64 i (i + amount)))"
  have c1: "cache_coherent cd lr L c1"
    unfolding c1_def get_batch_shard_receiver_def by (rule lookup_coherent [OF assms])
  have "cache_coherent cd lr L (put_batch_receiver lr c1 s wb)"
    if q: "get_batched_shards_by_idxs sq d s is = Inr rows" and w: "decode_shards cd rows out1 = Inr (out2, wb)"
    for "is" rows out1 out2 wb
  proof -
    obtain js where js: "rows = map (\<lambda>j. shard_row cd s j (led_receivers L s ! j)) js"
      "\<forall>j \<in> set js. j < length (led_receivers L s)"
      using shard_query_rows [OF scans stored q] by blast
    then have wb: "wb = map (\<lambda>j. (word_of_nat j, receiver_encode cd (led_receivers L s ! j))) js"
      using w decode_shards_rows [of s "led_receivers L s" js] by simp
    show ?thesis
      unfolding put_batch_receiver_def wb
      by (rule put_batch_coherent_entries [OF c1]) (use js(2) in \<open>auto simp: ledger_entry_def\<close>)
  qed
  then show ?thesis
    using c1 by (auto simp: pull_receivers_for_shard_def Let_def c1_def split_beta split: sum.splits)
qed

lemma receivers_loop_coherent:
  "cache_coherent cd lr L c \<Longrightarrow>
   cache_coherent cd lr L (snd (pull_receivers_loop cd lr sq d indices m ss more_rs nxt out remain c))"
proof (induction ss arbitrary: more_rs nxt out remain c)
  case (Cons s ss)
  obtain r c1 where p: "pull_receivers_for_shard cd lr sq d c s (indices s) remain out = (r, c1)" by fastforce
  then have "cache_coherent cd lr L c1"
    using shard_pull_coherent [OF Cons.prems, of s "indices s" remain out] by simp
  then show ?case
    using Cons p by (cases r) (auto simp: Let_def split: prod.splits)
qed simp

lemma senders_pull_coherent:
  assumes "cache_coherent cd lr L c"
  shows "cache_coherent cd lr L (snd (pull_senders cd lr sq d c i amount))"
proof -
  define c1 where "c1 = snd (get_batch_sender lr c (range_u64 i (i + amount)))"
  have c1: "cache_coherent cd lr L c1"
    unfolding c1_def get_batch_sender_def by (rule lookup_coherent [OF assms])
  have "cache_coherent cd lr L (put_batch_sender lr c1 wb)"
    if q: "get_batched_nullifier_by_idxs sq d is = Inr rows" and w: "decode_nullifiers cd rows out1 = Inr (out2, wb)"
    for "is" rows out1 out2 wb
  proof -
    obtain js where js: "rows = map (\<lambda>j. nullifier_row cd j (led_senders L ! j)) js"
      "\<forall>j \<in> set js. j < length (led_senders L)"
      using nullifier_query_rows [OF scans stored q] by blast
    moreover have "length (fst (led_senders L ! j)) = 32" if "j \<in> set js" for j
      using that js(2) ledger_wfD(3) [OF store_wf] by simp
    ultimately have wb: "wb = map (\<lambda>j. (word_of_nat j, sender_encode cd (led_senders L ! j))) js"
      using w decode_nullifiers_rows [of js "led_senders L"] by simp
    show ?thesis
      unfolding put_batch_sender_def wb
      by (rule put_batch_coherent_entries [OF c1]) (use js(2) in \<open>auto simp: ledger_entry_def\<close>)
  qed
  then show ?thesis
    using c1 by (auto simp: pull_senders_def Let_def c1_def split_beta split: sum.splits)
qed

lemma request_coherent:
  assumes "cache_coherent cd lr L c"
  shows "cache_coherent cd lr L (snd (pull_ledger_diff cd lr sq d c ckp mr ms))"
proof -
  obtain r c1 where p: "pull_receivers cd lr sq d c (receiver_index ckp) mr = (r, c1)" by fastforce
  have c1: "cache_coherent cd lr L c1"
    using receivers_loop_coherent [OF assms] p unfolding pull_receivers_def by (metis snd_conv)
  obtain q c2 where s: "pull_senders cd lr sq d c1 (sender_index ckp) ms = (q, c2)" by fastforce
  have "cache_coherent cd lr L c2"
    using senders_pull_coherent [OF c1, of "sender_index ckp" ms] s by simp
  then show ?thesis
    using p s c1 by (cases r; cases q) (auto simp: pull_ledger_diff_def split: prod.splits)
qed

end

interpretation demo_store: pull_store byte_codec recency_lru demo_ledger demo_sqlite demo_db
  by unfold_locales (simp_all add: demo.ledger demo.engine demo.tables)

section \<open>The system\<close>

text \<open>\<open>sys_ckp\<close> is the checkpoint that a running synchronisation call has in memory.\<close>

record 'c system =
  sys_sync :: "'c sync_state"
  sys_ckp :: "checkpoint option"
  sys_clock :: nat

definition initial_system :: "'c sync_state \<Rightarrow> 'c system" where
  "initial_system st = \<lparr>sys_sync = st, sys_ckp = None, sys_clock = 0\<rparr>"

text \<open>What a request leaves behind: the cache.\<close>

definition after_request ::
  "('u, 'n, 'o) codec \<Rightarrow> 'c lru_ops \<Rightarrow> sqlite \<Rightarrow> checkpoint \<Rightarrow> u64 \<Rightarrow> u64 \<Rightarrow> 'c sync_state \<Rightarrow> 'c sync_state" where
  "after_request cd lr sq ckp mr ms st =
     st\<lparr>st_cache := snd (rpc_pull_ledger_diff (\<lambda>_. []) cd lr sq (st_db st) (st_cache st) ckp mr ms)\<rparr>"

inductive sys_step ::
  "('u, 'n, 'o) codec \<Rightarrow> 'c lru_ops \<Rightarrow> 'u forest \<Rightarrow> (nat \<Rightarrow> ('u, 'n, 'o) world) \<Rightarrow> u64 \<times> u64 \<Rightarrow>
   'c system \<Rightarrow> 'c system \<Rightarrow> bool"
  for cd lr forest world mc where
  call_starts: "sys_ckp s = None \<Longrightarrow>
    get_latest_check_point (engine_of (world (sys_clock s))) (st_db (sys_sync s)) = Inr ckp \<Longrightarrow>
    sys_step cd lr forest world mc s (s\<lparr>sys_ckp := Some ckp\<rparr>)"
| call_fails: "sys_ckp s = None \<Longrightarrow>
    get_latest_check_point (engine_of (world (sys_clock s))) (st_db (sys_sync s)) = Inl e \<Longrightarrow>
    sys_step cd lr forest world mc s (s\<lparr>sys_clock := Suc (sys_clock s)\<rparr>)"
| round_done: "sys_ckp s = Some ckp \<Longrightarrow>
    sync_round cd lr forest (world (sys_clock s)) mc True ckp (sys_sync s) = (Inr (cont, ckp'), st') \<Longrightarrow>
    sys_step cd lr forest world mc s
      \<lparr>sys_sync = st', sys_ckp = (if cont then Some ckp' else None), sys_clock = Suc (sys_clock s)\<rparr>"
| round_fails: "sys_ckp s = Some ckp \<Longrightarrow>
    sync_round cd lr forest (world (sys_clock s)) mc True ckp (sys_sync s) = (Inl e, st') \<Longrightarrow>
    sys_step cd lr forest world mc s \<lparr>sys_sync = st', sys_ckp = None, sys_clock = Suc (sys_clock s)\<rparr>"
| request: "sqlite_ok sq \<Longrightarrow>
    sys_step cd lr forest world mc s (s\<lparr>sys_sync := after_request cd lr sq ckp mr ms (sys_sync s)\<rparr>)"

inductive sys_reachable ::
  "('u, 'n, 'o) codec \<Rightarrow> 'c lru_ops \<Rightarrow> 'u forest \<Rightarrow> (nat \<Rightarrow> ('u, 'n, 'o) world) \<Rightarrow> u64 \<times> u64 \<Rightarrow>
   'c sync_state \<Rightarrow> 'c system \<Rightarrow> bool"
  for cd lr forest world mc st0 where
  sys_start: "sys_reachable cd lr forest world mc st0 (initial_system st0)"
| sys_next: "sys_reachable cd lr forest world mc st0 s \<Longrightarrow> sys_step cd lr forest world mc s s' \<Longrightarrow>
    sys_reachable cd lr forest world mc st0 s'"

text \<open>
  The invariant: tables and cache represent a part of the chain, and a checkpoint in memory is the
  one of the tables.
\<close>

definition sys_inv ::
  "('u, 'n, 'o) codec \<Rightarrow> 'c lru_ops \<Rightarrow> (nat \<Rightarrow> ('u, 'n, 'o) ledger) \<Rightarrow> ('u, 'n, 'o) ledger \<Rightarrow> 'c system \<Rightarrow> bool" where
  "sys_inv cd lr chain L s \<longleftrightarrow> represents cd lr L (sys_sync s) \<and> ledger_le L (chain (sys_clock s)) \<and>
     (\<forall>ckp. sys_ckp s = Some ckp \<longrightarrow> ckp = checkpoint_of L)"

lemma after_request_represents:
  assumes "scale_codec cd" and "lru_crate lr" and "ledger_wf L" and "sqlite_ok sq" and "represents cd lr L st"
  shows "represents cd lr L (after_request cd lr sq ckp mr ms st)"
proof -
  have "pull_store cd lr L sq (st_db st)"
    using assms by (simp add: pull_store_def pull_store_axioms_def represents_def)
  from pull_store.request_coherent [OF this] show ?thesis
    using assms(5)
    by (simp add: represents_def after_request_def rpc_pull_ledger_diff_def pull_ledger_diff_impl_def Let_def split_beta)
qed

lemma sys_step_inv:
  assumes "scale_codec cd" and "lru_crate lr" and "honest_world forest world chain"
    and "sys_step cd lr forest world mc s s'" and "sys_inv cd lr chain L s"
  shows "\<exists>L'. ledger_le L L' \<and> sys_inv cd lr chain L' s'"
proof -
  have rep: "represents cd lr L (sys_sync s)" and le: "ledger_le L (chain (sys_clock s))"
    and ckp: "\<And>ckp. sys_ckp s = Some ckp \<Longrightarrow> ckp = checkpoint_of L"
    using assms(5) by (simp_all add: sys_inv_def)
  note grow = ledger_le_trans [OF _ honest_world.chain_grows [OF assms(3)]]
  show ?thesis
    using assms(4)
  proof (cases rule: sys_step.cases)
    case (call_starts ckp)
    have "holds_ledger cd L (st_db (sys_sync s))"
      using rep by (simp add: represents_def)
    then have "ckp = checkpoint_of L"
      by (rule get_latest_check_point_Inr [OF call_starts(3)])
    then show ?thesis
      using call_starts rep le by (intro exI [of _ L]) (simp add: sys_inv_def)
  next
    case (call_fails e)
    then show ?thesis
      using rep grow [OF le] by (intro exI [of _ L]) (simp add: sys_inv_def)
  next
    case (round_done ckp cont ckp' st')
    then have "sync_round cd lr forest (world (sys_clock s)) mc True (checkpoint_of L) (sys_sync s) = (Inr (cont, ckp'), st')"
      using ckp by blast
    from honest_world.round_safe [OF assms(3,2) rep le this] obtain L' where
      "ledger_le L L'" "ledger_le L' (chain (sys_clock s))" "represents cd lr L' st'" "ckp' = checkpoint_of L'"
      by blast
    then show ?thesis
      using round_done grow by (intro exI [of _ L']) (simp add: sys_inv_def)
  next
    case (round_fails ckp e st')
    then have "st' = sys_sync s"
      using sync_round_Inl by blast
    then show ?thesis
      using round_fails rep grow [OF le] by (intro exI [of _ L]) (simp add: sys_inv_def)
  next
    case (request sq ckp mr ms)
    have "ledger_wf L"
      by (rule ledger_wf_le [OF le honest_world.chain_wf [OF assms(3)]])
    then show ?thesis
      using request after_request_represents [OF assms(1,2) _ request(2) rep] le ckp
      by (intro exI [of _ L]) (auto simp: sys_inv_def)
  qed
qed

lemma sys_reachable_inv:
  assumes "scale_codec cd" and "lru_crate lr" and "honest_world forest world chain"
    and "represents cd lr L0 st0" and "ledger_le L0 (chain 0)"
    and "sys_reachable cd lr forest world mc st0 s"
  shows "\<exists>L. ledger_le L0 L \<and> sys_inv cd lr chain L s"
  using assms(6)
proof (induction rule: sys_reachable.induct)
  case sys_start
  then show ?case
    using assms(4,5) by (intro exI [of _ L0]) (simp add: sys_inv_def initial_system_def)
next
  case (sys_next s s')
  then show ?case
    using sys_step_inv [OF assms(1-3)] ledger_le_trans by meson
qed

section \<open>Properties\<close>

lemma ledger_le_items:
  assumes "ledger_le L L'"
  shows "set (led_receivers L s) \<subseteq> set (led_receivers L' s)" and "set (led_senders L) \<subseteq> set (led_senders L')"
  using assms set_mono_prefix by (auto simp: ledger_le_def)

lemma rpc_needs_total:
  assumes "rpc_pull_ledger_diff show_error cd lr sq d cache ckp mr ms = (Inr resp, cache')"
  shows "\<exists>tot. tbl_total d = Some tot \<and> length tot = 16"
proof -
  obtain tot where "get_total_senders_receivers sq d = Inr tot"
    using assms by (auto simp: rpc_pull_ledger_diff_def pull_ledger_diff_impl_def pull_ledger_diff_def Let_def map_err_def
        bindE_eq_Inr split: prod.splits sum.splits)
  then show ?thesis
    by (auto simp: get_total_senders_receivers_def fetch_one_def try_sqlx_def map_err_def bindE_eq_Inr
        split: option.splits sum.splits if_splits)
qed

text \<open>
  C4. The running system serves nothing but the chain. In every state that synchronisation calls,
  rounds with any outcome and requests reach, in any interleaving and with faults of the engine
  and of the node, the tables and the cache represent one ledger that extends the initial one and
  lies on the chain of the node, and a checkpoint that a running call has in memory is the
  checkpoint of that ledger. In each of these states a request whose queries meet no fault and whose
  sender cursor is at most \<open>2 ^ 47\<close> is answered if a total of 16 bytes is stored, with at most 4096
  receivers and 4096 senders, all of them on the chain; without such a total it is an error.
\<close>

theorem system_serves_chain:
  assumes "scale_codec cd" and "lru_crate lr" and "honest_world forest world chain"
    and "represents cd lr L0 st0" and "ledger_le L0 (chain 0)"
    and "sys_reachable cd lr forest world mc st0 s"
  shows "(\<exists>L. ledger_le L0 L \<and> ledger_le L (chain (sys_clock s)) \<and> represents cd lr L (sys_sync s) \<and>
      (\<forall>c. sys_ckp s = Some c \<longrightarrow> c = checkpoint_of L)) \<and>
    (\<forall>sq ckp mr ms. sqlite_ok sq \<and> fault_free sq \<and> unat (sender_index ckp) \<le> 2 ^ 47 \<longrightarrow>
      (if \<exists>tot. tbl_total (st_db (sys_sync s)) = Some tot \<and> length tot = 16
       then \<exists>resp cache'. rpc_pull_ledger_diff show_error cd lr sq (st_db (sys_sync s)) (st_cache (sys_sync s)) ckp mr ms =
           (Inr resp, cache') \<and> length (receivers resp) \<le> 4096 \<and> length (senders resp) \<le> 4096 \<and>
         (\<forall>r \<in> set (receivers resp). \<exists>s'. r \<in> set (led_receivers (chain (sys_clock s)) s')) \<and>
         set (senders resp) \<subseteq> set (led_senders (chain (sys_clock s)))
       else \<exists>e cache'. rpc_pull_ledger_diff show_error cd lr sq (st_db (sys_sync s)) (st_cache (sys_sync s)) ckp mr ms =
           (Inl e, cache')))"
proof -
  obtain L where L: "ledger_le L0 L" "represents cd lr L (sys_sync s)" "ledger_le L (chain (sys_clock s))"
    "\<forall>c. sys_ckp s = Some c \<longrightarrow> c = checkpoint_of L"
    using sys_reachable_inv [OF assms(1-6)] by (auto simp: sys_inv_def)
  have wf: "ledger_wf L"
    by (rule ledger_wf_le [OF L(3) honest_world.chain_wf [OF assms(3)]])
  have rep: "holds_ledger cd L (st_db (sys_sync s))" "cache_coherent cd lr L (st_cache (sys_sync s))"
    using L(2) by (simp_all add: represents_def)
  let ?rpc = "\<lambda>sq. rpc_pull_ledger_diff show_error cd lr sq (st_db (sys_sync s)) (st_cache (sys_sync s))"
  let ?total = "\<exists>tot. tbl_total (st_db (sys_sync s)) = Some tot \<and> length tot = 16"
  have answered: "\<exists>resp cache'. ?rpc sq ckp mr ms = (Inr resp, cache') \<and> length (receivers resp) \<le> 4096 \<and> length (senders resp) \<le> 4096 \<and>
      (\<forall>r \<in> set (receivers resp). \<exists>s'. r \<in> set (led_receivers (chain (sys_clock s)) s')) \<and>
      set (senders resp) \<subseteq> set (led_senders (chain (sys_clock s)))"
    if total: "?total" and side: "sqlite_ok sq \<and> fault_free sq \<and> unat (sender_index ckp) \<le> 2 ^ 47" for sq ckp mr ms
  proof -
    obtain tot where "tbl_total (st_db (sys_sync s)) = Some tot" "length tot = 16" using total by blast
    with rpc_response_ok [OF assms(1,2) wf _ _ rep, of sq ckp tot show_error mr ms] side
    show ?thesis using ledger_le_items [OF L(3)] by blast
  qed
  have error: "\<exists>e cache'. ?rpc sq ckp mr ms = (Inl e, cache')" if "\<not> ?total" for sq ckp mr ms
  proof -
    obtain r c where "?rpc sq ckp mr ms = (r, c)" by fastforce
    with rpc_needs_total [of show_error cd lr sq] that show ?thesis by (cases r) blast+
  qed
  show ?thesis
  proof (intro conjI allI impI, goal_cases)
    case 1
    then show ?case using L by blast
  next
    case (2 sq ckp mr ms)
    show ?case
    proof (cases ?total)
      case True
      then show ?thesis unfolding if_P [OF True] by (rule answered) (rule 2)
    next
      case False
      then show ?thesis unfolding if_not_P [OF False] by (rule error)
    qed
  qed
qed

definition loaded_state :: "recency_list sync_state" where
  "loaded_state = \<lparr>st_db = demo_db, st_cache = lru_new recency_lru 8, init_syncing_finished = True\<rparr>"

lemma loaded_state_represents: "represents byte_codec recency_lru demo_ledger loaded_state"
  by (simp add: represents_def loaded_state_def demo.tables empty_cache_coherent [OF recency.lru_crate_axioms])

text \<open>A state after a request, whose write-back has filled the cache.\<close>

definition queried_system :: "recency_list system" where
  "queried_system = (initial_system loaded_state)\<lparr>sys_sync := after_request byte_codec recency_lru demo_sqlite
     checkpoint_default 5 5 (sys_sync (initial_system loaded_state))\<rparr>"

lemma queried_system_reachable:
  "sys_reachable byte_codec recency_lru demo_forest (\<lambda>_. serving_world demo_sqlite rev demo_ledger) (2, 2) loaded_state
     queried_system"
  unfolding queried_system_def by (rule sys_next [OF sys_start request]) (rule demo.engine(1))

theorem system_serves_chain_witness:
  "\<exists>resp cache'. rpc_pull_ledger_diff (\<lambda>_. []) byte_codec recency_lru demo_sqlite (st_db (sys_sync queried_system))
      (st_cache (sys_sync queried_system)) checkpoint_default 9 9 = (Inr resp, cache') \<and>
    set (senders resp) \<subseteq> set (led_senders demo_ledger)"
proof -
  have total: "\<exists>tot. tbl_total (st_db (sys_sync queried_system)) = Some tot \<and> length tot = 16"
    by (simp add: queried_system_def initial_system_def after_request_def loaded_state_def demo_db_def)
  have "sqlite_ok demo_sqlite \<and> fault_free demo_sqlite \<and> unat (sender_index checkpoint_default) \<le> 2 ^ 47"
    using demo.engine by (simp add: checkpoint_default_def)
  from system_serves_chain [OF one_byte.scale_codec_axioms recency.lru_crate_axioms
        demo_node.live.honest_world_axioms loaded_state_represents ledger_le_refl queried_system_reachable, of "\<lambda>_. []",
        THEN conjunct2, rule_format, OF this, of 9 9, unfolded if_P [OF total]]
  show ?thesis by blast
qed

end
