(* ===== verification/Pull_Programs.thy ===== *)
theory Pull_Programs
  imports Indexer_Api
begin

text \<open>
  The pull request of \<open>src/indexer/pull.rs\<close> and \<open>src/indexer/mod.rs\<close>, statement by statement. Between
  two accesses to the database or to the cache the task may be suspended (each is an \<open>await\<close> in the
  source), and other tasks run. A program is the tree of its accesses: one query of the database,
  whose engine may have faults of its own each time, or one operation under the lock of the cache.

  The definitions of the theories \<open>Pull\<close> and \<open>Indexer_Api\<close> are the runs of these programs that nothing
  interrupts.
\<close>

section \<open>Programs\<close>

datatype ('c, 'a) prog =
    Done 'a
  | Query "sqlite \<times> db \<Rightarrow> ('c, 'a) prog"
  | With_Cache "'c \<Rightarrow> 'c" "'c \<Rightarrow> ('c, 'a) prog"

text \<open>\<open>With_Cache upd k\<close> updates the cache by \<open>upd\<close> and goes on with what \<open>k\<close> makes of the old cache.\<close>

primrec prog_bind :: "('c, 'a) prog \<Rightarrow> ('a \<Rightarrow> ('c, 'b) prog) \<Rightarrow> ('c, 'b) prog" where
  "prog_bind (Done a) k = k a"
| "prog_bind (Query f) k = Query (\<lambda>x. prog_bind (f x) k)"
| "prog_bind (With_Cache upd g) k = With_Cache upd (\<lambda>c. prog_bind (g c) k)"

text \<open>A run without interruption on fixed tables and a fixed engine.\<close>

primrec run_prog :: "sqlite \<Rightarrow> db \<Rightarrow> ('c, 'a) prog \<Rightarrow> 'c \<Rightarrow> 'a \<times> 'c" where
  "run_prog sq d (Done a) c = (a, c)"
| "run_prog sq d (Query f) c = run_prog sq d (f (sq, d)) c"
| "run_prog sq d (With_Cache upd g) c = run_prog sq d (g c) (upd c)"

text \<open>The operator \<open>?\<close> on the result of a program.\<close>

definition tryP :: "('c, 'e + 'a) prog \<Rightarrow> ('a \<Rightarrow> ('c, 'e + 'b) prog) \<Rightarrow> ('c, 'e + 'b) prog" where
  "tryP p k = prog_bind p (\<lambda>r. case r of Inl e \<Rightarrow> Done (Inl e) | Inr x \<Rightarrow> k x)"

section \<open>The request as a program\<close>

definition shard_prog ::
  "('u, 'n, 'o) codec \<Rightarrow> 'c lru_ops \<Rightarrow> u8 \<Rightarrow> usize \<Rightarrow> u64 \<Rightarrow> ('u, 'n) receiver_chunk \<Rightarrow>
   ('c, anyhow_error + bool \<times> ('u, 'n) receiver_chunk) prog" where
  "shard_prog cd lr s i amount out =
     (let max_receiver_index = i + amount;
          all_indices = range_u64 i max_receiver_index
      in With_Cache (\<lambda>c. snd (get_batch_shard_receiver lr c s all_indices)) (\<lambda>c.
           tryP (Done (split_cached (receiver_decode cd) all_indices (fst (get_batch_shard_receiver lr c s all_indices)) out))
             (\<lambda>(out1, cached_values, query_db_indices).
           Query (\<lambda>(sq, d).
           tryP (Done (get_batched_shards_by_idxs sq d s query_db_indices)) (\<lambda>rows.
           tryP (Done (decode_shards cd rows out1)) (\<lambda>(out2, write_back).
           With_Cache (\<lambda>c. put_batch_receiver lr c s write_back) (\<lambda>_.
             if length rows + cached_values = unat amount
             then Query (\<lambda>(sq, d). Done (Inr (has_shard sq d s max_receiver_index, out2)))
             else Done (Inr (False, out2)))))))))"

fun receivers_prog ::
  "('u, 'n, 'o) codec \<Rightarrow> 'c lru_ops \<Rightarrow> receiver_index_array \<Rightarrow> u64 \<Rightarrow> u8 list \<Rightarrow> bool \<Rightarrow> receiver_index_array \<Rightarrow>
   ('u, 'n) receiver_chunk \<Rightarrow> u64 \<Rightarrow>
   ('c, anyhow_error + bool \<times> receiver_index_array \<times> ('u, 'n) receiver_chunk) prog" where
  "receivers_prog cd lr indices max_amount [] more_rs next_indices out remain = Done (Inr (more_rs, next_indices, out))"
| "receivers_prog cd lr indices max_amount (s # ss) more_rs next_indices out remain =
     (let i = indices s in
      Query (\<lambda>(sq, d).
        if \<not> has_shard sq d s i
        then receivers_prog cd lr indices max_amount ss more_rs next_indices out remain
        else tryP (shard_prog cd lr s i remain out) (\<lambda>(more_in_shard, out1).
               let more1 = (more_rs \<or> more_in_shard);
                   next1 = next_indices(s := i + word_of_nat (length out1) - word_of_nat (length out))
               in if length out1 = unat max_amount then Done (Inr (more1, next1, out1))
                  else receivers_prog cd lr indices max_amount ss more1 next1 out1
                         (max_amount - word_of_nat (length out1)))))"

definition senders_prog ::
  "('u, 'n, 'o) codec \<Rightarrow> 'c lru_ops \<Rightarrow> u64 \<Rightarrow> u64 \<Rightarrow> ('c, anyhow_error + bool \<times> u64 \<times> 'o sender_chunk) prog" where
  "senders_prog cd lr i amount =
     (let all_indices = range_u64 i (i + amount)
      in With_Cache (\<lambda>c. snd (get_batch_sender lr c all_indices)) (\<lambda>c.
           tryP (Done (split_cached (sender_decode cd) all_indices (fst (get_batch_sender lr c all_indices)) []))
             (\<lambda>(out1, cached_values, query_db_indices).
           Query (\<lambda>(sq, d).
           tryP (Done (get_batched_nullifier_by_idxs sq d query_db_indices)) (\<lambda>rows.
           tryP (Done (decode_nullifiers cd rows out1)) (\<lambda>(out2, write_back).
           With_Cache (\<lambda>c. put_batch_sender lr c write_back) (\<lambda>_.
           Query (\<lambda>(sq, d). Done (Inr (has_nullifier sq d (i + amount), i + amount, out2))))))))))"

definition diff_prog ::
  "('u, 'n, 'o) codec \<Rightarrow> 'c lru_ops \<Rightarrow> checkpoint \<Rightarrow> u64 \<Rightarrow> u64 \<Rightarrow>
   ('c, anyhow_error + ('u, 'n, 'o) pull_response \<times> checkpoint) prog" where
  "diff_prog cd lr ckp max_receivers max_senders =
     tryP (receivers_prog cd lr (receiver_index ckp) max_receivers all_u8 False (receiver_index ckp) [] max_receivers)
       (\<lambda>(more_receivers, next_receiver_index, rs).
     tryP (senders_prog cd lr (sender_index ckp) max_senders) (\<lambda>(more_senders, next_sender_index, ss).
     Query (\<lambda>(sq, d). Done (bindE (get_total_senders_receivers sq d) (\<lambda>tot.
       Inr (\<lparr>should_continue = (more_receivers \<or> more_senders),
             receivers = rs, senders = ss, senders_receivers_total = tot\<rparr>,
            \<lparr>receiver_index = next_receiver_index, sender_index = next_sender_index\<rparr>))))))"

text \<open>Both RPC methods run \<open>impl_prog\<close>, and their responses are functions of its result.\<close>

definition impl_prog ::
  "(anyhow_error \<Rightarrow> string) \<Rightarrow> ('u, 'n, 'o) codec \<Rightarrow> 'c lru_ops \<Rightarrow> checkpoint \<Rightarrow> u64 \<Rightarrow> u64 \<Rightarrow>
   ('c, jsonrpsee_error + ('u, 'n, 'o) pull_response \<times> checkpoint) prog" where
  "impl_prog show_error cd lr ckp max_receivers max_senders =
     (let max_receivers = min max_receivers MAX_RECEIVERS;
          max_senders = min max_senders MAX_SENDERS
      in prog_bind (diff_prog cd lr ckp max_receivers max_senders)
           (\<lambda>r. Done (map_err (\<lambda>e. Custom (show_error e)) r)))"

section \<open>Lemmas: uninterrupted runs\<close>

lemma run_bind: "run_prog sq d (prog_bind p k) c = (case run_prog sq d p c of (a, c') \<Rightarrow> run_prog sq d (k a) c')"
  by (induction p arbitrary: c) simp_all

lemma run_tryP:
  "run_prog sq d (tryP p k) c =
     (case run_prog sq d p c of (Inl e, c') \<Rightarrow> (Inl e, c') | (Inr x, c') \<Rightarrow> run_prog sq d (k x) c')"
  by (auto simp: tryP_def run_bind split: prod.splits sum.splits)

lemma run_shard_prog: "run_prog sq d (shard_prog cd lr s i amount out) c = pull_receivers_for_shard cd lr sq d c s i amount out"
  by (auto simp: shard_prog_def pull_receivers_for_shard_def run_tryP Let_def split_beta split: sum.splits)

lemma run_receivers_prog:
  "run_prog sq d (receivers_prog cd lr indices max_amount ss m nxt out remain) c =
     pull_receivers_loop cd lr sq d indices max_amount ss m nxt out remain c"
  by (induction ss arbitrary: m nxt out remain c)
    (auto simp: run_tryP run_shard_prog Let_def split: sum.splits prod.splits)

lemma run_senders_prog: "run_prog sq d (senders_prog cd lr i amount) c = pull_senders cd lr sq d c i amount"
  by (auto simp: senders_prog_def pull_senders_def run_tryP Let_def split_beta split: sum.splits)

lemma run_diff_prog: "run_prog sq d (diff_prog cd lr ckp mr ms) c = pull_ledger_diff cd lr sq d c ckp mr ms"
  by (auto simp: diff_prog_def pull_ledger_diff_def pull_receivers_def run_tryP run_receivers_prog run_senders_prog
      split: sum.splits prod.splits)

lemma run_impl_prog:
  "run_prog sq d (impl_prog show_error cd lr ckp mr ms) c = pull_ledger_diff_impl show_error cd lr sq d c ckp mr ms"
  by (simp add: impl_prog_def run_bind run_diff_prog pull_ledger_diff_impl_def Let_def split_beta)

end
