(* ===== verification/Interleaving.thy ===== *)
theory Interleaving
  imports Indexer_System Pull_Programs
begin

text \<open>
  The running indexer at the granularity of single accesses: any number of requests, each a program
  of theory \<open>Pull_Programs\<close>, and the synchronisation job interleave their queries, their operations
  on the cache, the commit of a round and the batches of its cache refresh.

  A program is judged in the rely-guarantee style, once for engines with faults and once (\<open>clean\<close>) for
  the case that none of its queries meets a fault. Between two of its accesses the ledger that tables
  and cache represent may grow; each of its own operations on the cache has to keep the cache
  coherent; and what it returns has to be right for the ledger of that time: the slices that start at
  the cursor of the request and end at that of the response.
\<close>

section \<open>Programs under interference\<close>

primrec prog_ok ::
  "bool \<Rightarrow> ('u, 'n, 'o) codec \<Rightarrow> 'c lru_ops \<Rightarrow> (('u, 'n, 'o) ledger \<Rightarrow> 'a \<Rightarrow> bool) \<Rightarrow> ('c, 'a) prog \<Rightarrow> ('u, 'n, 'o) ledger \<Rightarrow> bool" where
  "prog_ok clean cd lr Q (Done a) L \<longleftrightarrow> Q L a"
| "prog_ok clean cd lr Q (Query f) L \<longleftrightarrow> (\<forall>L' sq d. ledger_le L L' \<longrightarrow> ledger_wf L' \<longrightarrow> sqlite_ok sq \<longrightarrow>
     holds_ledger cd L' d \<longrightarrow> (clean \<longrightarrow> fault_free sq) \<longrightarrow> prog_ok clean cd lr Q (f (sq, d)) L')"
| "prog_ok clean cd lr Q (With_Cache upd g) L \<longleftrightarrow> (\<forall>L' c. ledger_le L L' \<longrightarrow> ledger_wf L' \<longrightarrow> cache_coherent cd lr L' c \<longrightarrow>
     cache_coherent cd lr L' (upd c) \<and> prog_ok clean cd lr Q (g c) L')"

lemma prog_ok_QueryI:
  "(\<And>L' sq d. ledger_le L L' \<Longrightarrow> ledger_wf L' \<Longrightarrow> sqlite_ok sq \<Longrightarrow> holds_ledger cd L' d \<Longrightarrow> (clean \<longrightarrow> fault_free sq) \<Longrightarrow>
     prog_ok clean cd lr Q (f (sq, d)) L') \<Longrightarrow> prog_ok clean cd lr Q (Query f) L"
  by simp

lemma prog_ok_CacheI:
  "(\<And>L' c. ledger_le L L' \<Longrightarrow> ledger_wf L' \<Longrightarrow> cache_coherent cd lr L' c \<Longrightarrow> cache_coherent cd lr L' (upd c)) \<Longrightarrow>
   (\<And>L' c. ledger_le L L' \<Longrightarrow> ledger_wf L' \<Longrightarrow> cache_coherent cd lr L' c \<Longrightarrow> prog_ok clean cd lr Q (g c) L') \<Longrightarrow>
   prog_ok clean cd lr Q (With_Cache upd g) L"
  by simp

text \<open>Interference does no harm: the judgement is stable when the ledger grows.\<close>

lemma prog_ok_grows:
  assumes "prog_ok clean cd lr Q p L" and "ledger_le L L'" and "\<And>a. Q L a \<Longrightarrow> Q L' a"
  shows "prog_ok clean cd lr Q p L'"
  using assms by (cases p) (auto intro: ledger_le_trans)

lemma prog_ok_bind:
  assumes "prog_ok clean cd lr Q p L" and "ledger_wf L"
    and "\<And>L' a. ledger_le L L' \<Longrightarrow> ledger_wf L' \<Longrightarrow> Q L' a \<Longrightarrow> prog_ok clean cd lr R (k a) L'"
  shows "prog_ok clean cd lr R (prog_bind p k) L"
  using assms
proof (induction p arbitrary: L)
  case (Query f)
  show ?case
    unfolding prog_bind.simps
  proof (rule prog_ok_QueryI)
    fix L' sq d assume L': "ledger_le L L'" "ledger_wf L'" "sqlite_ok sq" "holds_ledger cd L' d" "clean \<longrightarrow> fault_free sq"
    then show "prog_ok clean cd lr R (prog_bind (f (sq, d)) k) L'"
      using Query.prems(1) by (intro Query.IH) (auto intro: Query.prems(3) ledger_le_trans)
  qed
next
  case (With_Cache upd g)
  show ?case
    unfolding prog_bind.simps
  proof (rule prog_ok_CacheI)
    fix L' c assume L': "ledger_le L L'" "ledger_wf L'" "cache_coherent cd lr L' c"
    then show "cache_coherent cd lr L' (upd c)"
      using With_Cache.prems(1) by simp
    show "prog_ok clean cd lr R (prog_bind (g c) k) L'"
      using With_Cache.prems(1) L' by (intro With_Cache.IH) (auto intro: With_Cache.prems(3) ledger_le_trans)
  qed
qed auto

lemma prog_bind_Done: "prog_bind p Done = p"
  by (induction p) (auto simp: fun_eq_iff)

lemma prog_ok_weaken:
  assumes "prog_ok clean cd lr Q p L" and "ledger_wf L" and "\<And>L' a. ledger_le L L' \<Longrightarrow> Q L' a \<Longrightarrow> R L' a"
  shows "prog_ok clean cd lr R p L"
  using prog_ok_bind [OF assms(1,2), of R Done] assms(3) by (simp add: prog_bind_Done)

declare prog_ok.simps(2,3) [simp del]

text \<open>A result that is an error is always acceptable; \<open>okE\<close> judges the others.\<close>

definition okE :: "('l \<Rightarrow> 'a \<Rightarrow> bool) \<Rightarrow> 'l \<Rightarrow> anyhow_error + 'a \<Rightarrow> bool" where
  "okE Q L r \<longleftrightarrow> (\<forall>x. r = Inr x \<longrightarrow> Q L x)"

lemma okE_simps [simp]: "okE Q L (Inl e)" "okE Q L (Inr x) \<longleftrightarrow> Q L x"
  by (simp_all add: okE_def)

lemma prog_ok_tryP:
  assumes "prog_ok clean cd lr (okE Q) p L" and "ledger_wf L"
    and "\<And>L' x. ledger_le L L' \<Longrightarrow> ledger_wf L' \<Longrightarrow> Q L' x \<Longrightarrow> prog_ok clean cd lr (okE R) (k x) L'"
  shows "prog_ok clean cd lr (okE R) (tryP p k) L"
  unfolding tryP_def
proof (rule prog_ok_bind [OF assms(1,2)])
  fix L' r assume "ledger_le L L'" "ledger_wf L'" "okE Q L' r"
  then show "prog_ok clean cd lr (okE R) (case r of Inl e \<Rightarrow> Done (Inl e) | Inr x \<Rightarrow> k x) L'"
    using assms(3) by (cases r) auto
qed

lemma prog_ok_try_Done:
  "(\<And>x. r = Inr x \<Longrightarrow> prog_ok clean cd lr (okE R) (k x) L) \<Longrightarrow> prog_ok clean cd lr (okE R) (tryP (Done r) k) L"
  by (cases r) (simp_all add: tryP_def)

section \<open>Slices\<close>

text \<open>\<open>ys\<close> are the items of \<open>xs\<close> from position \<open>i\<close> on, as many as there are, in some order.\<close>

definition slice_of :: "'a list \<Rightarrow> nat \<Rightarrow> 'a list \<Rightarrow> bool" where
  "slice_of xs i ys \<longleftrightarrow> mset ys = mset (take (length ys) (drop i xs))"

lemma slice_of_Nil [simp]: "slice_of xs i []"
  by (simp add: slice_of_def)

lemma slice_ofI: "mset ys = mset (take n (drop i xs)) \<Longrightarrow> slice_of xs i ys"
  using mset_eq_length [of ys "take n (drop i xs)"] by (auto simp: slice_of_def min_def take_all)

lemma slice_of_length: "slice_of xs i ys \<Longrightarrow> length ys \<le> length xs - i"
  using mset_eq_length unfolding slice_of_def by fastforce

lemma slice_of_subset: "slice_of xs i ys \<Longrightarrow> set ys \<subseteq> set xs"
  using mset_eq_setD set_drop_subset set_take_subset unfolding slice_of_def by (metis order_trans)

lemma slice_of_grows:
  assumes "prefix xs xs'" and "slice_of xs i ys"
  shows "slice_of xs' i ys"
proof -
  obtain zs where "xs' = xs @ zs"
    using assms(1) by (auto simp: prefix_def)
  then show ?thesis
    using slice_of_length [OF assms(2)] assms(2) by (simp add: slice_of_def)
qed

section \<open>What a batch delivers\<close>

text \<open>The cached part of a batch: genuine items, one per index that is not left for the query.\<close>

lemma split_cached_genuine:
  assumes "\<forall>i \<in> set is. \<forall>b. f i = Some b \<longrightarrow> (\<exists>x \<in> X. dec b = Some x)"
    and "split_cached dec is (map f is) out = Inr (out1, n, q)" and "distinct is"
  shows "\<exists>new. out1 = out @ new \<and> set new \<subseteq> X \<and> length new + length q = length is \<and> distinct q"
proof -
  define item where "item i = the (dec (the (f i)))" for i
  have item: "dec b = Some (item i) \<and> item i \<in> X" if "i \<in> set is" "f i = Some b" for i b
    using assms(1) that by (force simp: item_def)
  have "split_cached dec is (map f is) out =
      Inr (out @ map item (filter (\<lambda>i. f i \<noteq> None) is), length (filter (\<lambda>i. f i \<noteq> None) is),
        map as_i64 (filter (\<lambda>i. f i = None) is))"
    using item by (intro split_cached_eq) blast
  then have eq: "out1 = out @ map item (filter (\<lambda>i. f i \<noteq> None) is)" "q = map as_i64 (filter (\<lambda>i. f i = None) is)"
    using assms(2) by simp_all
  have "set (map item (filter (\<lambda>i. f i \<noteq> None) is)) \<subseteq> X"
    using item by auto
  moreover have "length (filter (\<lambda>i. f i \<noteq> None) is) + length (filter (\<lambda>i. f i = None) is) = length is"
    using sum_length_filter_compl [of "\<lambda>i. f i \<noteq> None" "is"] by simp
  moreover have "distinct q"
    using assms(3) by (simp add: eq(2) distinct_map inj_on_def)
  ultimately show ?thesis using eq by auto
qed

text \<open>A query delivers at most one row per index asked for.\<close>

lemma rows_at_most:
  assumes "distinct (map key rows)" and "key ` set rows \<subseteq> set q"
  shows "length rows \<le> length q"
proof -
  have "length rows = card (key ` set rows)"
    using distinct_card [OF assms(1)] by simp
  also have "\<dots> \<le> card (set q)"
    by (rule card_mono) (use assms(2) in simp_all)
  also have "\<dots> \<le> length q" by (rule card_length)
  finally show ?thesis .
qed

lemma holds_nullifier_keys:
  assumes "holds_ledger cd L d"
  shows "distinct (map idx (tbl_nullifier d))"
proof -
  have "mset (map idx (tbl_nullifier d)) = mset (map idx (nullifier_rows cd (led_senders L)))"
    using assms by (simp add: holds_ledger_def)
  moreover have "distinct (map idx (nullifier_rows cd (led_senders L)))"
    by (simp add: nullifier_rows_def nullifier_row_def comp_def distinct_map)
  ultimately show ?thesis by (metis mset_eq_imp_distinct_iff)
qed

lemma nullifier_query_at_most:
  assumes "sqlite_ok sq" and "holds_ledger cd L d" and "get_batched_nullifier_by_idxs sq d q = Inr rows"
  shows "length rows \<le> length q"
proof -
  have rows: "mset rows = mset (filter (\<lambda>r. idx r \<in> set q) (tbl_nullifier d))"
    by (rule get_batched_nullifier_by_idxs_Inr [OF assms(1,3)])
  have "distinct (map idx (filter (\<lambda>r. idx r \<in> set q) (tbl_nullifier d)))"
    by (rule distinct_map_filter [OF holds_nullifier_keys [OF assms(2)]])
  then have "distinct (map idx rows)"
    using rows by (metis mset_map mset_eq_imp_distinct_iff)
  then show ?thesis
    by (rule rows_at_most) (use mset_eq_setD [OF rows] in auto)
qed

section \<open>Requests\<close>

text \<open>
  What the parts of a request may return at a time when the ledger is \<open>L\<close>. A shard contributes a
  slice from its cursor on, the new cursor is the end of the slice, and a flag is raised only when
  there is an item behind it. The senders are a slice as long as their indices fit into the cache
  key; with larger indices they are still senders of the ledger. \<open>known\<close> is how many items the tables
  had when the request arrived: unless the limit is used up, these are delivered; for the shards as a
  whole this needs \<open>clean\<close>, because a shard is skipped when the query for its first item fails.
\<close>

definition shard_post ::
  "nat \<Rightarrow> u8 \<Rightarrow> u64 \<Rightarrow> nat \<Rightarrow> ('u, 'n) receiver_chunk \<Rightarrow> ('u, 'n, 'o) ledger \<Rightarrow> bool \<times> ('u, 'n) receiver_chunk \<Rightarrow> bool" where
  "shard_post known s i n out L r \<longleftrightarrow> (\<exists>new. snd r = out @ new \<and> slice_of (led_receivers L s) (unat i) new \<and> length new \<le> n \<and>
     (length new = n \<or> known \<le> unat i + length new) \<and>
     (fst r \<longrightarrow> unat i + length new < length (led_receivers L s)))"

definition receivers_post ::
  "bool \<Rightarrow> (u8 \<Rightarrow> nat) \<Rightarrow> u8 list \<Rightarrow> receiver_index_array \<Rightarrow> receiver_index_array \<Rightarrow> bool \<Rightarrow> ('u, 'n) receiver_chunk \<Rightarrow> nat \<Rightarrow> ('u, 'n, 'o) ledger \<Rightarrow>
   bool \<times> receiver_index_array \<times> ('u, 'n) receiver_chunk \<Rightarrow> bool" where
  "receivers_post clean known ss indices nxt0 more0 out n L r \<longleftrightarrow> (\<exists>chunks. snd (snd r) = out @ concat (map chunks ss) \<and>
     (\<forall>s \<in> set ss. slice_of (led_receivers L s) (unat (indices s)) (chunks s) \<and>
        unat (fst (snd r) s) = unat (indices s) + length (chunks s)) \<and>
     (\<forall>s. s \<notin> set ss \<longrightarrow> fst (snd r) s = nxt0 s) \<and> length (snd (snd r)) \<le> n \<and>
     (clean \<longrightarrow> length (snd (snd r)) = n \<or> (\<forall>s \<in> set ss. known s \<le> unat (fst (snd r) s))) \<and>
     (fst r \<longrightarrow> more0 \<or> (\<exists>s \<in> set ss. unat (fst (snd r) s) < length (led_receivers L s))))"

definition senders_post :: "nat \<Rightarrow> u64 \<Rightarrow> u64 \<Rightarrow> ('u, 'n, 'o) ledger \<Rightarrow> bool \<times> u64 \<times> 'o sender_chunk \<Rightarrow> bool" where
  "senders_post known i n L r \<longleftrightarrow> set (snd (snd r)) \<subseteq> set (led_senders L) \<and> length (snd (snd r)) \<le> unat n \<and> fst (snd r) = i + n \<and>
     (unat i + unat n \<le> 2 ^ 48 \<longrightarrow> slice_of (led_senders L) (unat i) (snd (snd r)) \<and>
        (length (snd (snd r)) = unat n \<or> known \<le> unat i + length (snd (snd r)))) \<and>
     (fst r \<longrightarrow> unat (i + n) < length (led_senders L))"

text \<open>What a request may answer at a time when the ledger is \<open>L\<close>.\<close>

definition delivers ::
  "u64 \<Rightarrow> u64 \<Rightarrow> ('u, 'n, 'o) ledger \<Rightarrow> checkpoint \<Rightarrow> ('u, 'n, 'o) pull_response \<Rightarrow> checkpoint \<Rightarrow> bool" where
  "delivers mr ms L ckp resp nxt \<longleftrightarrow>
     (\<exists>chunks. receivers resp = concat (map chunks all_u8) \<and>
        (\<forall>s. slice_of (led_receivers L s) (unat (receiver_index ckp s)) (chunks s) \<and>
             unat (receiver_index nxt s) = unat (receiver_index ckp s) + length (chunks s))) \<and>
     length (receivers resp) \<le> unat mr \<and>
     set (senders resp) \<subseteq> set (led_senders L) \<and> length (senders resp) \<le> unat ms \<and> sender_index nxt = sender_index ckp + ms \<and>
     (unat (sender_index ckp) + unat ms \<le> 2 ^ 48 \<longrightarrow> slice_of (led_senders L) (unat (sender_index ckp)) (senders resp)) \<and>
     (should_continue resp \<longrightarrow> (\<exists>s. unat (receiver_index nxt s) < length (led_receivers L s)) \<or>
        unat (sender_index nxt) < length (led_senders L))"

text \<open>
  Nothing that was stored when the request arrived is left out: the limit is used up or every such item
  lies before the next cursor.
\<close>

definition complete ::
  "bool \<Rightarrow> (u8 \<Rightarrow> nat) \<Rightarrow> nat \<Rightarrow> u64 \<Rightarrow> u64 \<Rightarrow> checkpoint \<Rightarrow> ('u, 'n, 'o) pull_response \<Rightarrow> checkpoint \<Rightarrow> bool" where
  "complete clean known_receivers known_senders mr ms ckp resp nxt \<longleftrightarrow>
     (clean \<longrightarrow> length (receivers resp) = unat mr \<or> (\<forall>s. known_receivers s \<le> unat (receiver_index nxt s))) \<and>
     (unat (sender_index ckp) + unat ms \<le> 2 ^ 48 \<longrightarrow>
        length (senders resp) = unat ms \<or> known_senders \<le> unat (sender_index ckp) + length (senders resp))"

definition answer_ok ::
  "bool \<Rightarrow> (u8 \<Rightarrow> nat) \<Rightarrow> nat \<Rightarrow> u64 \<Rightarrow> u64 \<Rightarrow> checkpoint \<Rightarrow> ('u, 'n, 'o) ledger \<Rightarrow> 'e + ('u, 'n, 'o) pull_response \<times> checkpoint \<Rightarrow> bool" where
  "answer_ok clean kr ks mr ms ckp L r \<longleftrightarrow> (\<forall>resp nxt. r = Inr (resp, nxt) \<longrightarrow>
     delivers mr ms L ckp resp nxt \<and> complete clean kr ks mr ms ckp resp nxt)"

lemma okE_delivers:
  "okE (\<lambda>L (resp, nxt). delivers mr ms L ckp resp nxt \<and> complete clean kr ks mr ms ckp resp nxt) =
   answer_ok clean kr ks mr ms ckp"
  by (intro ext) (auto simp: okE_def answer_ok_def)

lemma ledger_grows:
  assumes "ledger_le L L'"
  shows "slice_of (led_receivers L s) i rs \<Longrightarrow> slice_of (led_receivers L' s) i rs"
    and "slice_of (led_senders L) i ss \<Longrightarrow> slice_of (led_senders L') i ss"
    and "n < length (led_receivers L s) \<Longrightarrow> n < length (led_receivers L' s)"
    and "n < length (led_senders L) \<Longrightarrow> n < length (led_senders L')"
proof -
  have p: "prefix (led_receivers L s) (led_receivers L' s)" "prefix (led_senders L) (led_senders L')"
    using assms by (simp_all add: ledger_le_def)
  show "slice_of (led_receivers L s) i rs \<Longrightarrow> slice_of (led_receivers L' s) i rs"
    and "slice_of (led_senders L) i ss \<Longrightarrow> slice_of (led_senders L') i ss"
    by (rule slice_of_grows [OF p(1)], assumption) (rule slice_of_grows [OF p(2)], assumption)
  show "n < length (led_receivers L s) \<Longrightarrow> n < length (led_receivers L' s)"
    and "n < length (led_senders L) \<Longrightarrow> n < length (led_senders L')"
    using prefix_length_le [OF p(1)] prefix_length_le [OF p(2)] by simp_all
qed

lemma ledger_lengths:
  "ledger_le L L' \<Longrightarrow> length (led_receivers L s) \<le> length (led_receivers L' s)"
  "ledger_le L L' \<Longrightarrow> length (led_senders L) \<le> length (led_senders L')"
  by (simp_all add: ledger_le_def prefix_length_le)

lemma shard_post_grows:
  assumes "ledger_le L L'" and "shard_post known s i n out L r"
  shows "shard_post known s i n out L' r"
  using assms(2) ledger_grows [OF assms(1)] by (auto simp: shard_post_def)

lemma receivers_post_grows:
  assumes "ledger_le L L'" and "receivers_post clean known ss indices nxt0 m out n L r"
  shows "receivers_post clean known ss indices nxt0 m out n L' r"
proof -
  obtain chunks where "snd (snd r) = out @ concat (map chunks ss)"
    "\<forall>s \<in> set ss. slice_of (led_receivers L s) (unat (indices s)) (chunks s) \<and>
       unat (fst (snd r) s) = unat (indices s) + length (chunks s)"
    "\<forall>s. s \<notin> set ss \<longrightarrow> fst (snd r) s = nxt0 s" "length (snd (snd r)) \<le> n"
    "clean \<longrightarrow> length (snd (snd r)) = n \<or> (\<forall>s \<in> set ss. known s \<le> unat (fst (snd r) s))"
    "fst r \<longrightarrow> m \<or> (\<exists>s \<in> set ss. unat (fst (snd r) s) < length (led_receivers L s))"
    using assms(2) unfolding receivers_post_def by blast
  then show ?thesis
    unfolding receivers_post_def using ledger_grows [OF assms(1)] by (intro exI [of _ chunks]) blast
qed

lemma senders_post_grows:
  assumes "ledger_le L L'" and "senders_post known i n L r"
  shows "senders_post known i n L' r"
  using assms(2) ledger_grows [OF assms(1)] ledger_le_items(2) [OF assms(1)] by (auto simp: senders_post_def)

lemma delivers_grows:
  assumes "ledger_le L L'" and "delivers mr ms L ckp resp nxt"
  shows "delivers mr ms L' ckp resp nxt"
proof -
  obtain chunks where "receivers resp = concat (map chunks all_u8)"
    "\<forall>s. slice_of (led_receivers L s) (unat (receiver_index ckp s)) (chunks s) \<and>
       unat (receiver_index nxt s) = unat (receiver_index ckp s) + length (chunks s)"
    using assms(2) by (auto simp: delivers_def)
  then have "\<exists>chunks. receivers resp = concat (map chunks all_u8) \<and>
      (\<forall>s. slice_of (led_receivers L' s) (unat (receiver_index ckp s)) (chunks s) \<and>
       unat (receiver_index nxt s) = unat (receiver_index ckp s) + length (chunks s))"
    using ledger_grows(1) [OF assms(1)] by (intro exI [of _ chunks]) blast
  then show ?thesis
    using assms(2) ledger_grows(2-) [OF assms(1)] ledger_le_items(2) [OF assms(1)] unfolding delivers_def by blast
qed

text \<open>How the posts of the shards compose.\<close>

lemma receivers_post_end:
  assumes "\<forall>s \<in> set ss. nxt s = indices s" and "length out \<le> n" and "ss = [] \<or> length out = n"
  shows "receivers_post clean known ss indices nxt m out n L (m, nxt, out)"
  unfolding receivers_post_def using assms by (intro exI [of _ "\<lambda>_. []"]) auto

lemma receivers_post_step:
  assumes "shard_post known_s s (indices s) k out L (b, out1)"
    and "receivers_post clean known ss indices (nxt(s := j)) (m \<or> b) out1 n L r"
    and "s \<notin> set ss" and "unat j = unat (indices s) + (length out1 - length out)"
    and "clean \<longrightarrow> length out1 = n \<or> known s \<le> unat (indices s) + (length out1 - length out)"
  shows "receivers_post clean known (s # ss) indices nxt m out n L r"
proof -
  obtain new where new: "out1 = out @ new" "slice_of (led_receivers L s) (unat (indices s)) new"
    "b \<longrightarrow> unat (indices s) + length new < length (led_receivers L s)"
    using assms(1) by (auto simp: shard_post_def)
  obtain chunks where chunks: "snd (snd r) = out1 @ concat (map chunks ss)"
    "\<forall>s \<in> set ss. slice_of (led_receivers L s) (unat (indices s)) (chunks s) \<and>
       unat (fst (snd r) s) = unat (indices s) + length (chunks s)"
    "\<forall>s'. s' \<notin> set ss \<longrightarrow> fst (snd r) s' = (nxt(s := j)) s'" "length (snd (snd r)) \<le> n"
    "clean \<longrightarrow> length (snd (snd r)) = n \<or> (\<forall>s \<in> set ss. known s \<le> unat (fst (snd r) s))"
    "fst r \<longrightarrow> (m \<or> b) \<or> (\<exists>s \<in> set ss. unat (fst (snd r) s) < length (led_receivers L s))"
    using assms(2) unfolding receivers_post_def by blast
  have j: "unat (fst (snd r) s) = unat (indices s) + length new"
    using chunks(3) assms(3,4) new(1) by simp
  have "clean \<longrightarrow> length (snd (snd r)) = n \<or> (\<forall>s' \<in> set (s # ss). known s' \<le> unat (fst (snd r) s'))"
    using assms(5) chunks(1,4,5) j new(1) by auto
  moreover have "map (chunks(s := new)) ss = map chunks ss"
    using assms(3) by simp
  ultimately show ?thesis
    unfolding receivers_post_def
    using new chunks j assms(3) by (intro exI [of _ "chunks(s := new)"]) auto
qed

lemma receivers_post_skip:
  assumes "receivers_post clean known ss indices nxt m out n L r" and "s \<notin> set ss" and "nxt s = indices s"
    and "clean \<longrightarrow> known s \<le> unat (indices s)"
  shows "receivers_post clean known (s # ss) indices nxt m out n L r"
proof (rule receivers_post_step [where b = False and ?out1.0 = out and j = "indices s" and k = 0 and known_s = 0])
  show "shard_post 0 s (indices s) 0 out L (False, out)"
    by (simp add: shard_post_def)
  have "nxt(s := indices s) = nxt"
    using assms(3) by (metis fun_upd_triv)
  then show "receivers_post clean known ss indices (nxt(s := indices s)) (m \<or> False) out n L r"
    using assms(1) by simp
qed (use assms in simp_all)

lemma shard_post_cursor:
  assumes "ledger_wf L" and "shard_post known s i (unat remain) out L (b, out1)" and "unat n \<le> 2 ^ 47"
    and "length out \<le> unat n" and "unat remain = unat n - length out"
  shows "length out1 \<le> unat n"
    and "length out1 = unat n \<or> known \<le> unat i + (length out1 - length out)"
    and "unat (i + word_of_nat (length out1) - word_of_nat (length out)) = unat i + (length out1 - length out)"
proof -
  obtain new where new: "out1 = out @ new" "slice_of (led_receivers L s) (unat i) new" "length new \<le> unat remain"
      "length new = unat remain \<or> known \<le> unat i + length new"
    using assms(2) by (auto simp: shard_post_def)
  then show "length out1 \<le> unat n" and "length out1 = unat n \<or> known \<le> unat i + (length out1 - length out)"
    using assms(4,5) by auto
  show "unat (i + word_of_nat (length out1) - word_of_nat (length out)) = unat i + (length out1 - length out)"
  proof (cases "new = []")
    case False
    then have "unat i + length new < 2 ^ 47"
      using slice_of_length [OF new(2)] ledger_wfD(1) [OF assms(1), of s] by (cases "length new") auto
    then have "unat (i + word_of_nat (length new)) = unat i + length new"
      by (subst unat_add_u64) (simp_all add: unat_word_of_nat_u64)
    then show ?thesis by (simp add: new(1))
  qed (simp add: new(1))
qed

lemma delivers_parts:
  assumes "receivers_post clean kr all_u8 (receiver_index ckp) (receiver_index ckp) False [] (unat mr) L (m1, nxt, rs)"
    and "senders_post ks (sender_index ckp) ms L (m2, j, ss)"
  shows "delivers mr ms L ckp \<lparr>should_continue = (m1 \<or> m2), receivers = rs, senders = ss, senders_receivers_total = tot\<rparr>
    \<lparr>receiver_index = nxt, sender_index = j\<rparr>"
    and "complete clean kr ks mr ms ckp
      \<lparr>should_continue = (m1 \<or> m2), receivers = rs, senders = ss, senders_receivers_total = tot\<rparr>
      \<lparr>receiver_index = nxt, sender_index = j\<rparr>"
  using assms unfolding delivers_def complete_def receivers_post_def senders_post_def by auto

lemma ledger_entry_receiver:
  "j < length (led_receivers L s) \<Longrightarrow>
   ledger_entry cd L (receiver_key (ucast s) (word_of_nat j)) (receiver_encode cd (led_receivers L s ! j))"
  by (auto simp: ledger_entry_def)

lemma ledger_entry_sender:
  "j < length (led_senders L) \<Longrightarrow> ledger_entry cd L (sender_key (word_of_nat j)) (sender_encode cd (led_senders L ! j))"
  by (auto simp: ledger_entry_def)

locale request_env = scale_codec cd + lru_crate lr
  for cd :: "('u, 'n, 'o) codec" and lr :: "'c lru_ops"
begin

lemma cached_sender:
  assumes "cache_coherent cd lr L c" and "ledger_wf L" and "lru_peek lr c (sender_key i) = Some b"
  shows "\<exists>x \<in> set (led_senders L). sender_decode cd b = Some x"
proof -
  have "ledger_entry cd L (sender_key i) b"
    using assms(1,3) by (simp add: cache_coherent_def)
  then obtain j where "j < length (led_senders L)" "b = sender_encode cd (led_senders L ! j)"
    by (auto simp: ledger_entry_def receiver_key_neq_sender_key [symmetric])
  moreover from this have "sender_wf (led_senders L ! j)"
    using assms(2) by (simp add: ledger_wf_def list_all_length)
  ultimately show ?thesis using sender_roundtrip by auto
qed

lemma lookup_keeps_coherent: "cache_coherent cd lr L c \<Longrightarrow> cache_coherent cd lr L (snd (get_batch_lru lr c ks))"
  using get_batch_lru_eq [of c ks] by (simp add: cache_coherent_def)

lemma view: "ledger_wf L \<Longrightarrow> ledger_view cd lr L"
  by (rule ledger_viewI) unfold_locales

text \<open>The write-back of a query stores genuine entries.\<close>

lemma written_back_receivers:
  assumes "sqlite_ok sq" and "holds_ledger cd L d" and "get_batched_shards_by_idxs sq d s q = Inr rows"
    and "decode_shards cd rows out = Inr (out2, wb)" and le: "ledger_le L L'" and coh: "cache_coherent cd lr L' c"
  shows "cache_coherent cd lr L' (put_batch_receiver lr c s wb)"
proof -
  obtain js where js: "rows = map (\<lambda>j. shard_row cd s j (led_receivers L s ! j)) js" "\<forall>j \<in> set js. j < length (led_receivers L s)"
    using shard_query_rows [OF assms(1-3)] by blast
  then have wb: "wb = map (\<lambda>j. (word_of_nat j, receiver_encode cd (led_receivers L s ! j))) js"
    using assms(4) decode_shards_rows [of s "led_receivers L s" js out] by simp
  have "ledger_entry cd L' (receiver_key (ucast s) (word_of_nat j)) (receiver_encode cd (led_receivers L s ! j))"
    if "j \<in> set js" for j
    by (rule ledger_entry_le [OF le ledger_entry_receiver]) (use js(2) that in blast)
  then show ?thesis
    unfolding put_batch_receiver_def wb by (intro put_batch_coherent_entries [OF coh]) auto
qed

lemma queried_senders:
  assumes "ledger_wf L" and "sqlite_ok sq" and "holds_ledger cd L d" and "get_batched_nullifier_by_idxs sq d q = Inr rows"
    and "decode_nullifiers cd rows out = Inr (out2, wb)"
  shows "\<exists>new. out2 = out @ new \<and> set new \<subseteq> set (led_senders L) \<and> length new = length rows \<and> length rows \<le> length q"
    and "ledger_le L L' \<Longrightarrow> cache_coherent cd lr L' c \<Longrightarrow> cache_coherent cd lr L' (put_batch_sender lr c wb)"
proof -
  obtain js where js: "rows = map (\<lambda>j. nullifier_row cd j (led_senders L ! j)) js" "\<forall>j \<in> set js. j < length (led_senders L)"
    using nullifier_query_rows [OF assms(2-4)] by blast
  moreover have "length (fst (led_senders L ! j)) = 32" if "j \<in> set js" for j
    using that js(2) ledger_wfD(3) [OF assms(1)] by simp
  ultimately have out: "out2 = out @ map ((!) (led_senders L)) js"
    and wb: "wb = map (\<lambda>j. (word_of_nat j, sender_encode cd (led_senders L ! j))) js"
    using assms(5) decode_nullifiers_rows [of js "led_senders L" out] by simp_all
  show "\<exists>new. out2 = out @ new \<and> set new \<subseteq> set (led_senders L) \<and> length new = length rows \<and> length rows \<le> length q"
    using js out nullifier_query_at_most [OF assms(2-4)] by auto
  show "cache_coherent cd lr L' (put_batch_sender lr c wb)"
    if le: "ledger_le L L'" and coh: "cache_coherent cd lr L' c"
  proof -
    have "ledger_entry cd L' (sender_key (word_of_nat j)) (sender_encode cd (led_senders L ! j))"
      if "j \<in> set js" for j
      by (rule ledger_entry_le [OF le ledger_entry_sender]) (use js(2) that in blast)
    then show ?thesis
      unfolding put_batch_sender_def wb by (intro put_batch_coherent_entries [OF coh]) auto
  qed
qed

lemma length_range_from: "length (range_u64 i (i + n)) \<le> unat n"
proof (cases "unat i + unat n < 2 ^ 64")
  case True
  then show ?thesis by (simp add: unat_add_u64)
next
  case False
  then have "unat (i + n) = unat i + unat n - 2 ^ 64"
    using unat_bound_u64 [of i] unat_bound_u64 [of n] by (simp add: unat_word_ariths mod_if)
  then show ?thesis using unat_bound_u64 [of n] by simp
qed

lemma shard_finish_ok:
  assumes "ledger_wf L" and "sqlite_ok sq" and "holds_ledger cd L d" and "cache_coherent cd lr L c"
    and "unat i + unat n \<le> 2 ^ 48" and "known \<le> length (led_receivers L s)"
    and "split_cached (receiver_decode cd) (range_u64 i (i + n))
      (fst (get_batch_shard_receiver lr c s (range_u64 i (i + n)))) out = Inr (out1, cached, q)"
  shows "prog_ok clean cd lr (okE (shard_post known s i (unat n) out))
    (tryP (Done (get_batched_shards_by_idxs sq d s q)) (\<lambda>rows.
        tryP (Done (decode_shards cd rows out1)) (\<lambda>(out2, write_back).
          With_Cache (\<lambda>c. put_batch_receiver lr c s write_back) (\<lambda>_.
            if length rows + cached = unat n then Query (\<lambda>(sq, d). Done (Inr (has_shard sq d s (i + n), out2)))
            else Done (Inr (False, out2)))))) L"
proof (rule prog_ok_try_Done, rule prog_ok_try_Done)
  fix rows x assume rows: "get_batched_shards_by_idxs sq d s q = Inr rows" and x: "decode_shards cd rows out1 = Inr x"
  obtain out2 wb where x': "x = (out2, wb)" by (cases x)
  note q = rows x [unfolded x']
  obtain new where new: "out2 = out @ new" "mset new = mset (take (unat n) (drop (unat i) (led_receivers L s)))"
    "length new = length rows + cached"
    using ledger_view.receiver_batch [OF view [OF assms(1)] assms(4,5,2,3,7) q] by blast
  have "length new \<le> unat n" "length new = unat n \<or> known \<le> unat i + length new"
    using mset_eq_length [OF new(2)] assms(6) by auto
  then have no_more: "shard_post known s i (unat n) out L (False, out2)"
    using new slice_ofI [OF new(2)] by (simp add: shard_post_def)
  show "prog_ok clean cd lr (okE (shard_post known s i (unat n) out)) (case x of (out2, write_back) \<Rightarrow>
      With_Cache (\<lambda>c. put_batch_receiver lr c s write_back) (\<lambda>_.
        if length rows + cached = unat n then Query (\<lambda>(sq, d). Done (Inr (has_shard sq d s (i + n), out2)))
        else Done (Inr (False, out2)))) L"
    unfolding x' prod.case
  proof (rule prog_ok_CacheI)
    fix L2 c assume "ledger_le L L2" "cache_coherent cd lr L2 c"
    then show "cache_coherent cd lr L2 (put_batch_receiver lr c s wb)"
      by (rule written_back_receivers [OF assms(2,3) q])
  next
    fix L2 assume L2: "ledger_le L L2"
    have "prog_ok clean cd lr (okE (shard_post known s i (unat n) out)) (Query (\<lambda>(sq, d). Done (Inr (has_shard sq d s (i + n), out2)))) L2"
      if "length new = unat n"
    proof (rule prog_ok_QueryI)
      fix L3 sq' d' assume L3: "ledger_le L2 L3" "ledger_wf L3" "sqlite_ok sq'" "holds_ledger cd L3 d'"
      have "unat i + length new < length (led_receivers L3 s)" if "has_shard sq' d' s (i + n)"
        using has_shard_genuine [OF L3(3,4,2) that] \<open>length new = unat n\<close> unat_add_u64 [of i n] assms(5) by simp
      then show "prog_ok clean cd lr (okE (shard_post known s i (unat n) out)) ((\<lambda>(sq, d). Done (Inr (has_shard sq d s (i + n), out2))) (sq', d')) L3"
        using shard_post_grows [OF ledger_le_trans [OF L2 L3(1)] no_more] new(1) by (simp add: shard_post_def)
    qed
    then show "prog_ok clean cd lr (okE (shard_post known s i (unat n) out))
        (if length rows + cached = unat n then Query (\<lambda>(sq, d). Done (Inr (has_shard sq d s (i + n), out2)))
         else Done (Inr (False, out2))) L2"
      using shard_post_grows [OF L2 no_more] new(3) by simp
  qed
qed

lemma shard_prog_ok:
  assumes "unat i + unat n \<le> 2 ^ 48" and "known \<le> length (led_receivers L s)"
  shows "prog_ok clean cd lr (okE (shard_post known s i (unat n) out)) (shard_prog cd lr s i n out) L"
  unfolding shard_prog_def Let_def
proof (rule prog_ok_CacheI, goal_cases)
  case (1 L1 c)
  then show ?case by (simp add: get_batch_shard_receiver_def lookup_keeps_coherent)
next
  case (2 L1 c)
  show ?case
  proof (rule prog_ok_try_Done)
    fix x assume x: "split_cached (receiver_decode cd) (range_u64 i (i + n))
      (fst (get_batch_shard_receiver lr c s (range_u64 i (i + n)))) out = Inr x"
    obtain out1 cached q where x': "x = (out1, cached, q)" by (cases x)
    show "prog_ok clean cd lr (okE (shard_post known s i (unat n) out)) (case x of (out1, cached_values, query_db_indices) \<Rightarrow>
        Query (\<lambda>(sq, d). tryP (Done (get_batched_shards_by_idxs sq d s query_db_indices)) (\<lambda>rows.
          tryP (Done (decode_shards cd rows out1)) (\<lambda>(out2, write_back).
            With_Cache (\<lambda>c. put_batch_receiver lr c s write_back) (\<lambda>_.
              if length rows + cached_values = unat n then Query (\<lambda>(sq, d). Done (Inr (has_shard sq d s (i + n), out2)))
              else Done (Inr (False, out2))))))) L1"
      unfolding x' prod.case
    proof (rule prog_ok_QueryI, unfold prod.case)
      fix L2 sq d assume L2: "ledger_le L1 L2" "ledger_wf L2" "sqlite_ok sq" "holds_ledger cd L2 d"
      have "known \<le> length (led_receivers L2 s)"
        using assms(2) ledger_lengths(1) [OF ledger_le_trans [OF 2(1) L2(1)], of s] by simp
      from shard_finish_ok [OF L2(2-4) cache_coherent_le [OF L2(1) 2(3)] assms(1) this x [unfolded x']]
      show "prog_ok clean cd lr (okE (shard_post known s i (unat n) out)) (tryP (Done (get_batched_shards_by_idxs sq d s q)) (\<lambda>rows.
          tryP (Done (decode_shards cd rows out1)) (\<lambda>(out2, write_back).
            With_Cache (\<lambda>c. put_batch_receiver lr c s write_back) (\<lambda>_.
              if length rows + cached = unat n then Query (\<lambda>(sq, d). Done (Inr (has_shard sq d s (i + n), out2)))
              else Done (Inr (False, out2)))))) L2" .
    qed
  qed
qed

text \<open>After the chunk of a shard: either the limit is reached, or the rest \<open>p\<close> of the loop goes on.\<close>

lemma receivers_prog_next:
  assumes "ledger_wf L" and "shard_post (known s) s (indices s) (unat remain) out L (b, out1)" and "unat n \<le> 2 ^ 47" and "length out \<le> unat n"
    and "unat remain = unat n - length out" and "s \<notin> set ss" and "\<forall>s' \<in> set ss. nxt s' = indices s'"
    and "nxt1 = nxt(s := indices s + word_of_nat (length out1) - word_of_nat (length out))"
    and "prog_ok clean cd lr (okE (receivers_post clean known ss indices nxt1 (m \<or> b) out1 (unat n))) p L"
  shows "prog_ok clean cd lr (okE (receivers_post clean known (s # ss) indices nxt m out (unat n)))
    (if length out1 = unat n then Done (Inr (m \<or> b, nxt1, out1)) else p) L"
proof -
  note out1 = shard_post_cursor [OF assms(1-5)]
  have "\<forall>s' \<in> set ss. nxt1 s' = indices s'"
    using assms(6-8) by auto
  then have finished: "receivers_post clean known ss indices nxt1 (m \<or> b) out1 (unat n) L (m \<or> b, nxt1, out1)"
    if "length out1 = unat n"
    by (rule receivers_post_end [OF _ out1(1)]) (simp add: that)
  note complete_s = impI [OF out1(2), of clean]
  have "prog_ok clean cd lr (okE (receivers_post clean known (s # ss) indices nxt m out (unat n))) p L"
  proof (rule prog_ok_weaken [OF assms(9,1)])
    fix L' r assume "ledger_le L L'" "okE (receivers_post clean known ss indices nxt1 (m \<or> b) out1 (unat n)) L' r"
    then show "okE (receivers_post clean known (s # ss) indices nxt m out (unat n)) L' r"
      using receivers_post_step [where s = s and indices = indices and nxt = nxt and known = known, OF shard_post_grows [OF _ assms(2)] _ assms(6) out1(3) complete_s]
      by (auto simp: okE_def assms(8))
  qed
  moreover have "receivers_post clean known (s # ss) indices nxt m out (unat n) L (m \<or> b, nxt1, out1)" if "length out1 = unat n"
    by (rule receivers_post_step [where indices = indices and nxt = nxt and known = known,
          OF assms(2) finished [OF that, unfolded assms(8)] assms(6) out1(3) complete_s, folded assms(8)])
  ultimately show ?thesis by (cases "length out1 = unat n") simp_all
qed

lemma receivers_prog_ok:
  assumes "ledger_wf L" and "distinct ss" and "unat n \<le> 2 ^ 47" and "length out \<le> unat n"
    and "unat remain = unat n - length out" and "\<forall>s \<in> set ss. nxt s = indices s"
    and "\<forall>s. known s \<le> length (led_receivers L s)"
  shows "prog_ok clean cd lr (okE (receivers_post clean known ss indices nxt m out (unat n)))
    (receivers_prog cd lr indices n ss m nxt out remain) L"
  using assms
proof (induction ss arbitrary: L m nxt out remain)
  case Nil
  then show ?case by (simp add: receivers_post_end)
next
  case (Cons s ss)
  let ?ok = "prog_ok clean cd lr (okE (receivers_post clean known (s # ss) indices nxt m out (unat n)))"
  have s: "s \<notin> set ss" "distinct ss" "nxt s = indices s" "\<forall>s \<in> set ss. nxt s = indices s"
    using Cons.prems(2,6) by simp_all
  show ?case
    unfolding receivers_prog.simps Let_def
  proof (rule prog_ok_QueryI, unfold prod.case)
    fix L1 sq d assume L1: "ledger_le L L1" "ledger_wf L1" "sqlite_ok sq" "holds_ledger cd L1 d"
      and engine: "clean \<longrightarrow> fault_free sq"
    have known: "\<forall>s. known s \<le> length (led_receivers L' s)" if "ledger_le L L'" for L'
      using Cons.prems(7) ledger_lengths(1) [OF that] le_trans by blast
    have skip: "?ok (receivers_prog cd lr indices n ss m nxt out remain) L1" if "clean \<longrightarrow> known s \<le> unat (indices s)"
      by (rule prog_ok_weaken [OF Cons.IH [OF L1(2) s(2) Cons.prems(3-5) s(4) known [OF L1(1)]] L1(2)])
        (auto simp: okE_def s(1,3) that intro!: receivers_post_skip)
    let ?nxt = "\<lambda>out1. nxt(s := indices s + word_of_nat (length out1) - word_of_nat (length out))"
    have step: "?ok (if length out1 = unat n then Done (Inr (m \<or> b, ?nxt out1, out1))
        else receivers_prog cd lr indices n ss (m \<or> b) (?nxt out1) out1 (n - word_of_nat (length out1))) L2"
      if L2: "ledger_wf L2" "shard_post (known s) s (indices s) (unat remain) out L2 (b, out1)" "ledger_le L1 L2" for L2 b out1
    proof -
      note out1 = shard_post_cursor(1) [OF L2(1,2) Cons.prems(3-5)]
      note known2 = known [OF ledger_le_trans [OF L1(1) L2(3)]]
      have "\<forall>s' \<in> set ss. (?nxt out1) s' = indices s'"
        using s by auto
      from receivers_prog_next [where known = known, OF L2(1,2) Cons.prems(3-5) s(1,4) refl
          Cons.IH [OF L2(1) s(2) Cons.prems(3) out1 unat_sub_word_of_nat [OF out1] this known2]]
      show ?thesis .
    qed
    show "?ok (if \<not> has_shard sq d s (indices s) then receivers_prog cd lr indices n ss m nxt out remain
         else tryP (shard_prog cd lr s (indices s) remain out) (\<lambda>(more_in_shard, out1).
           if length out1 = unat n then Done (Inr (m \<or> more_in_shard, ?nxt out1, out1))
           else receivers_prog cd lr indices n ss (m \<or> more_in_shard) (?nxt out1) out1 (n - word_of_nat (length out1)))) L1"
    proof (cases "has_shard sq d s (indices s)")
      case True
      have "unat (indices s) + unat remain \<le> 2 ^ 48"
        using has_shard_genuine [OF L1(3,4,2) True] ledger_wfD(1) [OF L1(2), of s] Cons.prems(3,5) by simp
      note shard = shard_prog_ok [OF this, of "known s" L1 s clean out, OF known [OF L1(1), rule_format]]
      have "\<not> \<not> has_shard sq d s (indices s)" using True by simp
      then show ?thesis
        by (rule ssubst [OF if_not_P], intro prog_ok_tryP [OF shard L1(2)], clarify) (erule notE, rule step)
    next
      case False
      have "clean \<longrightarrow> known s \<le> unat (indices s)"
        using False has_shard_ledger [OF L1(3) _ L1(4,2), of s "indices s"] engine known [OF L1(1), rule_format, of s] by auto
      then show ?thesis using skip False by simp
    qed
  qed
qed

lemma senders_finish_ok:
  assumes "ledger_wf L" and "sqlite_ok sq" and "holds_ledger cd L d" and "cache_coherent cd lr L c"
    and "known \<le> length (led_senders L)" and "split_cached (sender_decode cd) (range_u64 i (i + n))
      (fst (get_batch_sender lr c (range_u64 i (i + n)))) [] = Inr (out1, cached, q)"
  shows "prog_ok clean cd lr (okE (senders_post known i n))
    (tryP (Done (get_batched_nullifier_by_idxs sq d q)) (\<lambda>rows.
        tryP (Done (decode_nullifiers cd rows out1)) (\<lambda>(out2, write_back).
          With_Cache (\<lambda>c. put_batch_sender lr c write_back) (\<lambda>_.
            Query (\<lambda>(sq, d). Done (Inr (has_nullifier sq d (i + n), i + n, out2))))))) L"
proof (rule prog_ok_try_Done, rule prog_ok_try_Done)
  let ?is = "range_u64 i (i + n)" and ?f = "\<lambda>i. lru_peek lr c (sender_key i)"
  fix rows x assume rows: "get_batched_nullifier_by_idxs sq d q = Inr rows" and x: "decode_nullifiers cd rows out1 = Inr x"
  obtain out2 wb where x': "x = (out2, wb)" by (cases x)
  note q = rows x [unfolded x']
  have found: "fst (get_batch_sender lr c ?is) = map ?f ?is"
    using get_batch_lru_eq [of c] by (simp add: get_batch_sender_def comp_def)
  have out1: "set out1 \<subseteq> set (led_senders L)" "length out1 + length q \<le> unat n"
    using split_cached_genuine [OF _ assms(6) [unfolded found], of "set (led_senders L)"] cached_sender [OF assms(4,1)]
      length_range_from [of i n] by auto
  have batch: "mset out2 = mset (take (unat n) (drop (unat i) (led_senders L)))" if "unat i + unat n \<le> 2 ^ 48"
    by (rule ledger_view.sender_batch [OF view [OF assms(1)] assms(4) that assms(2,3,6) q])
  have "length out2 = unat n \<or> known \<le> unat i + length out2" if "unat i + unat n \<le> 2 ^ 48"
    using mset_eq_length [OF batch [OF that]] assms(5) by auto
  then have "senders_post known i n L (False, i + n, out2)"
    using queried_senders(1) [OF assms(1-3) q] out1 batch by (auto simp: senders_post_def intro!: slice_ofI)
  note post = senders_post_grows [OF _ this]
  show "prog_ok clean cd lr (okE (senders_post known i n)) (case x of (out2, write_back) \<Rightarrow>
      With_Cache (\<lambda>c. put_batch_sender lr c write_back) (\<lambda>_.
        Query (\<lambda>(sq, d). Done (Inr (has_nullifier sq d (i + n), i + n, out2))))) L"
    unfolding x' prod.case
  proof (rule prog_ok_CacheI)
    fix L2 c assume "ledger_le L L2" "cache_coherent cd lr L2 c"
    then show "cache_coherent cd lr L2 (put_batch_sender lr c wb)"
      by (rule queried_senders(2) [OF assms(1-3) q])
  next
    fix L2 assume L2: "ledger_le L L2"
    show "prog_ok clean cd lr (okE (senders_post known i n)) (Query (\<lambda>(sq, d). Done (Inr (has_nullifier sq d (i + n), i + n, out2)))) L2"
    proof (rule prog_ok_QueryI, unfold prod.case)
      fix L3 sq' d' assume L3: "ledger_le L2 L3" "ledger_wf L3" "sqlite_ok sq'" "holds_ledger cd L3 d'"
      then show "prog_ok clean cd lr (okE (senders_post known i n)) (Done (Inr (has_nullifier sq' d' (i + n), i + n, out2))) L3"
        using post [OF ledger_le_trans [OF L2 L3(1)]] has_nullifier_genuine [OF L3(3,4,2)] by (simp add: senders_post_def)
    qed
  qed
qed

lemma senders_prog_ok:
  assumes "known \<le> length (led_senders L)"
  shows "prog_ok clean cd lr (okE (senders_post known i n)) (senders_prog cd lr i n) L"
  unfolding senders_prog_def Let_def
proof (rule prog_ok_CacheI, goal_cases)
  case (1 L1 c)
  then show ?case by (simp add: get_batch_sender_def lookup_keeps_coherent)
next
  case (2 L1 c)
  show ?case
  proof (rule prog_ok_try_Done)
    fix x assume x: "split_cached (sender_decode cd) (range_u64 i (i + n))
      (fst (get_batch_sender lr c (range_u64 i (i + n)))) [] = Inr x"
    obtain out1 cached q where x': "x = (out1, cached, q)" by (cases x)
    show "prog_ok clean cd lr (okE (senders_post known i n)) (case x of (out1, cached_values, query_db_indices) \<Rightarrow>
        Query (\<lambda>(sq, d). tryP (Done (get_batched_nullifier_by_idxs sq d query_db_indices)) (\<lambda>rows.
          tryP (Done (decode_nullifiers cd rows out1)) (\<lambda>(out2, write_back).
            With_Cache (\<lambda>c. put_batch_sender lr c write_back) (\<lambda>_.
              Query (\<lambda>(sq, d). Done (Inr (has_nullifier sq d (i + n), i + n, out2)))))))) L1"
      unfolding x' prod.case
      by (rule prog_ok_QueryI, unfold prod.case)
        (rule senders_finish_ok [OF _ _ _ cache_coherent_le [OF _ 2(3)] _ x [unfolded x']],
          auto intro: le_trans [OF assms ledger_lengths(2)] ledger_le_trans [OF 2(1)])
  qed
qed

lemma diff_prog_ok:
  assumes "ledger_wf L" and "unat mr \<le> 2 ^ 47"
    and "\<forall>s. kr s \<le> length (led_receivers L s)" and "ks \<le> length (led_senders L)"
  shows "prog_ok clean cd lr (answer_ok clean kr ks mr ms ckp) (diff_prog cd lr ckp mr ms) L"
proof -
  have "prog_ok clean cd lr (okE (\<lambda>L (resp, nxt). delivers mr ms L ckp resp nxt \<and> complete clean kr ks mr ms ckp resp nxt)) (diff_prog cd lr ckp mr ms) L"
    unfolding diff_prog_def
  proof (rule prog_ok_tryP [OF receivers_prog_ok [OF assms(1) distinct_all_u8 assms(2) _ _ _ assms(3)] assms(1)], goal_cases)
    case (4 L1 x)
    have ks: "ks \<le> length (led_senders L1)"
      by (rule le_trans [OF assms(4) ledger_lengths(2) [OF 4(1)]])
    obtain m1 nxt rs where x: "x = (m1, nxt, rs)" by (cases x)
    show ?case
      unfolding x prod.case
    proof (rule prog_ok_tryP [OF senders_prog_ok [OF ks] 4(2)])
      fix L2 y assume L2: "ledger_le L1 L2" "senders_post ks (sender_index ckp) ms L2 y"
      obtain m2 j ss where y: "y = (m2, j, ss)" by (cases y)
      show "prog_ok clean cd lr (okE (\<lambda>L (resp, nxt). delivers mr ms L ckp resp nxt \<and> complete clean kr ks mr ms ckp resp nxt)) (case y of (more_senders, next_sender_index, ss) \<Rightarrow>
          Query (\<lambda>(sq, d). Done (bindE (get_total_senders_receivers sq d) (\<lambda>tot.
            Inr (\<lparr>should_continue = (m1 \<or> more_senders), receivers = rs, senders = ss, senders_receivers_total = tot\<rparr>,
                 \<lparr>receiver_index = nxt, sender_index = next_sender_index\<rparr>))))) L2"
        unfolding y prod.case
      proof (rule prog_ok_QueryI, unfold prod.case)
        fix L3 sq d assume L3: "ledger_le L2 L3"
        note parts = delivers_parts [OF receivers_post_grows [OF ledger_le_trans [OF L2(1) L3] 4(3) [unfolded x]]
            senders_post_grows [OF L3 L2(2) [unfolded y]]]
        then show "prog_ok clean cd lr (okE (\<lambda>L (resp, nxt). delivers mr ms L ckp resp nxt \<and> complete clean kr ks mr ms ckp resp nxt))
            (Done (bindE (get_total_senders_receivers sq d) (\<lambda>tot.
            Inr (\<lparr>should_continue = (m1 \<or> m2), receivers = rs, senders = ss, senders_receivers_total = tot\<rparr>,
                 \<lparr>receiver_index = nxt, sender_index = j\<rparr>)))) L3"
          by (cases "get_total_senders_receivers sq d") simp_all
      qed
    qed
  qed simp_all
  then show ?thesis by (simp only: okE_delivers)
qed

text \<open>The whole request, for whatever limits a client asks for.\<close>

lemma impl_prog_ok:
  assumes "ledger_wf L" and "\<forall>s. kr s \<le> length (led_receivers L s)" and "ks \<le> length (led_senders L)"
  shows "prog_ok clean cd lr (answer_ok clean kr ks (min mr MAX_RECEIVERS) (min ms MAX_SENDERS) ckp)
    (impl_prog show_error cd lr ckp mr ms) L"
proof -
  have "unat (min mr MAX_RECEIVERS) \<le> 2 ^ 47"
    by (simp add: unat_min unat_limits)
  note diff = diff_prog_ok [OF assms(1) this assms(2,3), where ms = "min ms MAX_SENDERS" and ckp = ckp]
  show ?thesis
    unfolding impl_prog_def Let_def by (rule prog_ok_bind [OF diff assms(1)]) (auto simp: answer_ok_def map_err_def split: sum.splits)
qed

end

interpretation demo_requests: request_env byte_codec recency_lru
  by unfold_locales

end
