(* ===== verification/Concurrent_System.thy ===== *)
theory Concurrent_System
  imports Interleaving
begin

text \<open>
  The running indexer as a transition system over single accesses. The job moves through the phases
  of \<open>sync_shards_from_full_node\<close>: between calls, with a checkpoint in memory, and refreshing the cache
  batch by batch after a commit. The statements of a transaction become visible at its commit; the
  job is the only writer, so that its own reads between two commits see the same tables. Any number
  of requests is in progress, and each step performs one access of one of them.
\<close>

section \<open>A round in two parts\<close>

text \<open>The part of a round up to the commit, with the batches that are left for the cache.\<close>

definition commit_round ::
  "('u, 'n, 'o) codec \<Rightarrow> 'u forest \<Rightarrow> ('u, 'n, 'o) world \<Rightarrow> u64 \<times> u64 \<Rightarrow> checkpoint \<Rightarrow> db \<Rightarrow>
   anyhow_error + db \<times> (u64 \<times> bytes) list list \<times> bool \<times> checkpoint" where
  "commit_round cd forest w mc ckp d =
     bindE (synchronize_ledger (node_of w) ckp (fst mc) (snd mc)) (\<lambda>resp.
     bindE (reconstruct_shards_from_pull_response forest resp) (\<lambda>shards.
     bindE (store_response cd (engine_of w) (order_of w) ckp d shards resp) (\<lambda>(d', n).
       Inr (d', refresh_batches cd (order_of w) ckp n shards (senders resp), should_continue resp,
            increasing_checkpoint (order_of w) ckp (word_of_nat (length (senders resp))) shards))))"

lemma commit_round_safe:
  assumes "honest_world forest world chain" and "holds_ledger cd L d" and "ledger_le L (chain t)"
    and "commit_round cd forest (world t) mc (checkpoint_of L) d = Inr (d', bs, cont, ckp')"
  shows "\<exists>L'. ledger_le L L' \<and> ledger_le L' (chain t) \<and> holds_ledger cd L' d' \<and> ckp' = checkpoint_of L' \<and>
    (\<forall>b \<in> set bs. \<forall>(k, v) \<in> set b. ledger_entry cd L' k v)"
proof -
  obtain resp shards n where resp: "synchronize_ledger (node_of (world t)) (checkpoint_of L) (fst mc) (snd mc) = Inr resp"
    and shards: "reconstruct_shards_from_pull_response forest resp = Inr shards"
    and store: "store_response cd (engine_of (world t)) (order_of (world t)) (checkpoint_of L) d shards resp = Inr (d', n)"
    and bs: "bs = refresh_batches cd (order_of (world t)) (checkpoint_of L) n shards (senders resp)"
    and ckp': "ckp' = increasing_checkpoint (order_of (world t)) (checkpoint_of L) (word_of_nat (length (senders resp))) shards"
    using assms(4) by (auto simp: commit_round_def bindE_eq_Inr split: prod.splits)
  note order = honest_world.order [OF assms(1), of t]
  note wf = honest_world.response_wf [OF assms(1,3) resp]
  note stored = store_response_holds [OF store shards order assms(2) wf(2)]
  show ?thesis
    using wf(1) stored ledger_le_extend checkpoint_of_extend [OF order shards, of L]
      refresh_batches_genuine [OF order shards, of cd L]
    by (intro exI [of _ "extend_ledger forest resp L"]) (simp add: bs ckp')
qed

section \<open>The transition system\<close>

datatype job_phase = Idle | Ready checkpoint | Refreshing "(u64 \<times> bytes) list list" bool checkpoint

text \<open>
  Both RPC methods run \<open>impl_prog\<close>, and their responses are functions of its result: the response and
  the next checkpoint. A request is kept together with what the client asked for, that is the
  checkpoint and the two limits, and with two marks that no step reads: the tables at the time of its
  arrival, and whether its queries so far met an engine without faults.
\<close>

type_synonym asked = "checkpoint \<times> u64 \<times> u64 \<times> db \<times> bool"

definition mark_query :: "sqlite \<Rightarrow> asked \<Rightarrow> asked" where
  "mark_query sq q = (case q of (ckp, mr, ms, d0, clean) \<Rightarrow> (ckp, mr, ms, d0, clean \<and> fault_free sq))"

type_synonym ('u, 'n, 'o) answer = "jsonrpsee_error + ('u, 'n, 'o) pull_response \<times> checkpoint"

record ('u, 'n, 'o, 'c) conc_system =
  cs_db :: db
  cs_cache :: 'c
  cs_phase :: job_phase
  cs_clock :: nat
  cs_requests :: "(asked \<times> ('c, ('u, 'n, 'o) answer) prog) list"
  cs_answers :: "(asked \<times> ('u, 'n, 'o) answer) list"

inductive conc_step ::
  "(anyhow_error \<Rightarrow> string) \<Rightarrow> ('u, 'n, 'o) codec \<Rightarrow> 'c lru_ops \<Rightarrow> 'u forest \<Rightarrow> (nat \<Rightarrow> ('u, 'n, 'o) world) \<Rightarrow> u64 \<times> u64 \<Rightarrow>
   ('u, 'n, 'o, 'c) conc_system \<Rightarrow> ('u, 'n, 'o, 'c) conc_system \<Rightarrow> bool"
  for show_error cd lr forest world mc where
  c_start: "cs_phase s = Idle \<Longrightarrow> get_latest_check_point (engine_of (world (cs_clock s))) (cs_db s) = Inr ckp \<Longrightarrow>
    conc_step show_error cd lr forest world mc s (s\<lparr>cs_phase := Ready ckp\<rparr>)"
| c_start_fails: "cs_phase s = Idle \<Longrightarrow> get_latest_check_point (engine_of (world (cs_clock s))) (cs_db s) = Inl e \<Longrightarrow>
    conc_step show_error cd lr forest world mc s (s\<lparr>cs_clock := Suc (cs_clock s)\<rparr>)"
| c_commit: "cs_phase s = Ready ckp \<Longrightarrow>
    commit_round cd forest (world (cs_clock s)) mc ckp (cs_db s) = Inr (d, bs, cont, ckp') \<Longrightarrow>
    conc_step show_error cd lr forest world mc s
      (s\<lparr>cs_db := d, cs_phase := Refreshing bs cont ckp', cs_clock := Suc (cs_clock s)\<rparr>)"
| c_commit_fails: "cs_phase s = Ready ckp \<Longrightarrow>
    commit_round cd forest (world (cs_clock s)) mc ckp (cs_db s) = Inl e \<Longrightarrow>
    conc_step show_error cd lr forest world mc s (s\<lparr>cs_phase := Idle, cs_clock := Suc (cs_clock s)\<rparr>)"
| c_refresh: "cs_phase s = Refreshing (b # bs) cont ckp \<Longrightarrow>
    conc_step show_error cd lr forest world mc s
      (s\<lparr>cs_cache := put_batch_lru lr (cs_cache s) b, cs_phase := Refreshing bs cont ckp\<rparr>)"
| c_refreshed: "cs_phase s = Refreshing [] cont ckp \<Longrightarrow>
    conc_step show_error cd lr forest world mc s (s\<lparr>cs_phase := (if cont then Ready ckp else Idle)\<rparr>)"
| c_arrive: "conc_step show_error cd lr forest world mc s
    (s\<lparr>cs_requests := ((ckp, mr, ms, cs_db s, True), impl_prog show_error cd lr ckp mr ms) # cs_requests s\<rparr>)"
| c_query: "i < length (cs_requests s) \<Longrightarrow> cs_requests s ! i = (q, Query f) \<Longrightarrow> sqlite_ok sq \<Longrightarrow>
    conc_step show_error cd lr forest world mc s (s\<lparr>cs_requests := (cs_requests s)[i := (mark_query sq q, f (sq, cs_db s))]\<rparr>)"
| c_cache: "i < length (cs_requests s) \<Longrightarrow> cs_requests s ! i = (q, With_Cache upd g) \<Longrightarrow>
    conc_step show_error cd lr forest world mc s
      (s\<lparr>cs_cache := upd (cs_cache s), cs_requests := (cs_requests s)[i := (q, g (cs_cache s))]\<rparr>)"
| c_answer: "i < length (cs_requests s) \<Longrightarrow> cs_requests s ! i = (q, Done a) \<Longrightarrow>
    conc_step show_error cd lr forest world mc s
      (s\<lparr>cs_requests := take i (cs_requests s) @ drop (Suc i) (cs_requests s), cs_answers := cs_answers s @ [(q, a)]\<rparr>)"

definition conc_initial :: "'c sync_state \<Rightarrow> ('u, 'n, 'o, 'c) conc_system" where
  "conc_initial st = \<lparr>cs_db = st_db st, cs_cache = st_cache st, cs_phase = Idle, cs_clock = 0, cs_requests = [],
     cs_answers = []\<rparr>"

inductive conc_reachable ::
  "(anyhow_error \<Rightarrow> string) \<Rightarrow> ('u, 'n, 'o) codec \<Rightarrow> 'c lru_ops \<Rightarrow> 'u forest \<Rightarrow> (nat \<Rightarrow> ('u, 'n, 'o) world) \<Rightarrow> u64 \<times> u64 \<Rightarrow>
   'c sync_state \<Rightarrow> ('u, 'n, 'o, 'c) conc_system \<Rightarrow> bool"
  for show_error cd lr forest world mc st0 where
  c_init: "conc_reachable show_error cd lr forest world mc st0 (conc_initial st0)"
| c_next: "conc_reachable show_error cd lr forest world mc st0 s \<Longrightarrow> conc_step show_error cd lr forest world mc s s' \<Longrightarrow>
    conc_reachable show_error cd lr forest world mc st0 s'"

section \<open>The invariant\<close>

text \<open>What the phase of the job says about the ledger.\<close>

fun phase_ok :: "('u, 'n, 'o) codec \<Rightarrow> ('u, 'n, 'o) ledger \<Rightarrow> job_phase \<Rightarrow> bool" where
  "phase_ok cd L Idle \<longleftrightarrow> True"
| "phase_ok cd L (Ready ckp) \<longleftrightarrow> ckp = checkpoint_of L"
| "phase_ok cd L (Refreshing bs cont ckp) \<longleftrightarrow> ckp = checkpoint_of L \<and> (\<forall>b \<in> set bs. \<forall>(k, v) \<in> set b. ledger_entry cd L k v)"

text \<open>What may be answered to a request, given how many items the tables had when it arrived.\<close>

definition stored_receivers :: "db \<Rightarrow> u8 \<Rightarrow> nat" where
  "stored_receivers d s = length (filter (\<lambda>r. shard_index r = s) (tbl_shards d))"

definition stored_senders :: "db \<Rightarrow> nat" where
  "stored_senders d = length (tbl_nullifier d)"

definition answer_for :: "asked \<Rightarrow> ('u, 'n, 'o) ledger \<Rightarrow> ('u, 'n, 'o) answer \<Rightarrow> bool" where
  "answer_for q = (case q of (ckp, mr, ms, d0, clean) \<Rightarrow>
     answer_ok clean (stored_receivers d0) (stored_senders d0) (min mr MAX_RECEIVERS) (min ms MAX_SENDERS) ckp)"

text \<open>
  A request in progress is acceptable whatever faults its queries will meet, and, as long as it met none,
  also under the assumption that it will meet none.
\<close>

definition request_ok ::
  "('u, 'n, 'o) codec \<Rightarrow> 'c lru_ops \<Rightarrow> ('u, 'n, 'o) ledger \<Rightarrow> asked \<times> ('c, ('u, 'n, 'o) answer) prog \<Rightarrow> bool" where
  "request_ok cd lr L x = (case x of ((ckp, mr, ms, d0, clean), p) \<Rightarrow>
     prog_ok False cd lr (answer_for (ckp, mr, ms, d0, False)) p L \<and>
     (clean \<longrightarrow> prog_ok True cd lr (answer_for (ckp, mr, ms, d0, True)) p L))"

definition conc_inv ::
  "('u, 'n, 'o) codec \<Rightarrow> 'c lru_ops \<Rightarrow> (nat \<Rightarrow> ('u, 'n, 'o) ledger) \<Rightarrow> ('u, 'n, 'o) ledger \<Rightarrow> ('u, 'n, 'o, 'c) conc_system \<Rightarrow> bool" where
  "conc_inv cd lr chain L s \<longleftrightarrow> holds_ledger cd L (cs_db s) \<and> cache_coherent cd lr L (cs_cache s) \<and>
     ledger_le L (chain (cs_clock s)) \<and> phase_ok cd L (cs_phase s) \<and>
     (\<forall>x \<in> set (cs_requests s). request_ok cd lr L x) \<and> (\<forall>(q, a) \<in> set (cs_answers s). answer_for q L a)"

lemma answer_for_grows: "ledger_le L L' \<Longrightarrow> answer_for q L a \<Longrightarrow> answer_for q L' a"
  by (cases q) (auto simp: answer_for_def answer_ok_def intro: delivers_grows)

lemma request_ok_grows: "ledger_le L L' \<Longrightarrow> request_ok cd lr L x \<Longrightarrow> request_ok cd lr L' x"
  by (auto simp: request_ok_def intro: prog_ok_grows answer_for_grows split: prod.splits)

text \<open>A new request, one query, one operation on the cache, and the end of a request.\<close>

lemma request_ok_arrives:
  assumes "request_env cd lr" and "ledger_wf L" and "holds_ledger cd L d"
  shows "request_ok cd lr L ((ckp, mr, ms, d, True), impl_prog show_error cd lr ckp mr ms)"
proof -
  have "\<forall>s. stored_receivers d s \<le> length (led_receivers L s)" "stored_senders d \<le> length (led_senders L)"
    using holds_ledger_counts [OF assms(3)] by (simp_all add: stored_receivers_def stored_senders_def)
  from request_env.impl_prog_ok [OF assms(1,2) this] show ?thesis
    by (simp add: request_ok_def answer_for_def)
qed

lemma request_ok_query:
  assumes "request_ok cd lr L (q, Query f)" and "ledger_wf L" and "sqlite_ok sq" and "holds_ledger cd L d"
  shows "request_ok cd lr L (mark_query sq q, f (sq, d))"
  using assms by (cases q) (simp add: request_ok_def mark_query_def prog_ok.simps)

lemma request_ok_cache:
  assumes "request_ok cd lr L (q, With_Cache upd g)" and "ledger_wf L" and "cache_coherent cd lr L c"
  shows "cache_coherent cd lr L (upd c) \<and> request_ok cd lr L (q, g c)"
  using assms by (cases q) (simp add: request_ok_def prog_ok.simps)

lemma request_ok_Done: "request_ok cd lr L (q, Done a) \<Longrightarrow> answer_for q L a"
  by (cases q; cases "snd (snd (snd (snd q)))") (auto simp: request_ok_def)

text \<open>The requests in progress and the answers given are not harmed by a longer ledger.\<close>

lemma served_grows:
  assumes "ledger_le L L'" and "conc_inv cd lr chain L s"
  shows "\<forall>x \<in> set (cs_requests s). request_ok cd lr L' x"
    and "\<forall>(q, a) \<in> set (cs_answers s). answer_for q L' a"
  using assms by (auto simp: conc_inv_def intro: request_ok_grows answer_for_grows)

text \<open>One access of a request: the new cache is coherent and what is left of the request is acceptable.\<close>

lemma request_access_inv:
  assumes "conc_inv cd lr chain L s" and "cache_coherent cd lr L c" and "request_ok cd lr L x"
  shows "conc_inv cd lr chain L (s\<lparr>cs_cache := c, cs_requests := (cs_requests s)[i := x]\<rparr>)"
  using assms set_update_subset_insert [of "cs_requests s" i x] by (auto simp: conc_inv_def)

lemma conc_invD:
  assumes "conc_inv cd lr chain L s"
  shows "holds_ledger cd L (cs_db s)" and "cache_coherent cd lr L (cs_cache s)" and "ledger_le L (chain (cs_clock s))"
    and "phase_ok cd L (cs_phase s)"
    and "i < length (cs_requests s) \<Longrightarrow> cs_requests s ! i = x \<Longrightarrow> request_ok cd lr L x"
  using assms nth_mem by (fastforce simp: conc_inv_def)+

lemma commit_inv:
  assumes "honest_world forest world chain" and "conc_inv cd lr chain L s" and "cs_phase s = Ready ckp"
    and "commit_round cd forest (world (cs_clock s)) mc ckp (cs_db s) = Inr (d, bs, cont, ckp')"
  shows "\<exists>L'. ledger_le L L' \<and>
    conc_inv cd lr chain L' (s\<lparr>cs_db := d, cs_phase := Refreshing bs cont ckp', cs_clock := Suc (cs_clock s)\<rparr>)"
proof -
  note inv = conc_invD [OF assms(2)]
  have "commit_round cd forest (world (cs_clock s)) mc (checkpoint_of L) (cs_db s) = Inr (d, bs, cont, ckp')"
    using inv(4) assms(3,4) by simp
  from commit_round_safe [OF assms(1) inv(1,3) this] obtain L' where L': "ledger_le L L'" "ledger_le L' (chain (cs_clock s))"
    "holds_ledger cd L' d" "ckp' = checkpoint_of L'" "\<forall>b \<in> set bs. \<forall>(k, v) \<in> set b. ledger_entry cd L' k v"
    by blast
  then show ?thesis
    using ledger_le_trans [OF L'(2) honest_world.chain_grows [OF assms(1)]] cache_coherent_le [OF L'(1) inv(2)]
      served_grows [OF L'(1) assms(2)]
    by (intro exI [of _ L']) (simp add: conc_inv_def)
qed

lemma refresh_inv:
  assumes "lru_crate lr" and "conc_inv cd lr chain L s" and "cs_phase s = Refreshing (b # bs) cont ckp"
  shows "conc_inv cd lr chain L (s\<lparr>cs_cache := put_batch_lru lr (cs_cache s) b, cs_phase := Refreshing bs cont ckp\<rparr>)"
  using assms(2,3) lru_crate.put_batch_coherent_entries [OF assms(1) conc_invD(2) [OF assms(2)], of b] by (simp add: conc_inv_def)

text \<open>Every step keeps the invariant, for the same ledger or, at a commit, for a longer one.\<close>

lemma conc_step_inv:
  assumes "request_env cd lr" and "honest_world forest world chain"
    and "conc_step show_error cd lr forest world mc s s'" and "conc_inv cd lr chain L s"
  shows "\<exists>L'. ledger_le L L' \<and> conc_inv cd lr chain L' s'"
proof -
  note inv = conc_invD [OF assms(4)]
  have wf: "ledger_wf L"
    by (rule ledger_wf_le [OF inv(3) honest_world.chain_wf [OF assms(2)]])
  note grown = ledger_le_trans [OF inv(3) honest_world.chain_grows [OF assms(2)]]
  have "conc_inv cd lr chain L s' \<or> (\<exists>L'. ledger_le L L' \<and> conc_inv cd lr chain L' s')"
    using assms(3)
  proof (cases rule: conc_step.cases)
    case (c_start ckp)
    then show ?thesis
      using assms(4) get_latest_check_point_Inr [OF c_start(3) inv(1)] by (simp add: conc_inv_def)
  next
    case (c_commit ckp d bs cont ckp')
    then show ?thesis
      using commit_inv [OF assms(2,4)] by blast
  next
    case (c_refresh b bs cont ckp)
    then show ?thesis
      using refresh_inv [OF _ assms(4)] assms(1) by (simp add: request_env_def)
  next
    case (c_arrive ckp mr ms)
    then show ?thesis
      using assms(4) request_ok_arrives [OF assms(1) wf inv(1)] by (simp add: conc_inv_def)
  next
    case (c_query i q f sq)
    then show ?thesis
      using request_access_inv [OF assms(4) inv(2) request_ok_query [OF inv(5) wf _ inv(1)], where i = i] by simp
  next
    case (c_cache i q upd g)
    then show ?thesis
      using request_access_inv [OF assms(4), where i = i] request_ok_cache [OF inv(5) wf inv(2), of i q upd g] by simp
  next
    case (c_answer i q a)
    then show ?thesis
      using request_ok_Done [OF inv(5) [of i "(q, Done a)"]] assms(4) by (auto simp: conc_inv_def dest: in_set_takeD in_set_dropD)
  qed (use grown assms(4) in \<open>simp_all add: conc_inv_def\<close>)
  then show ?thesis using ledger_le_refl by blast
qed

lemma conc_reachable_inv:
  assumes "request_env cd lr" and "honest_world forest world chain"
    and "represents cd lr L0 st0" and "ledger_le L0 (chain 0)"
    and "conc_reachable show_error cd lr forest world mc st0 s"
  shows "\<exists>L. ledger_le L0 L \<and> conc_inv cd lr chain L s"
  using assms(5)
proof (induction rule: conc_reachable.induct)
  case c_init
  then show ?case
    using assms(3,4) by (intro exI [of _ L0]) (simp add: conc_inv_def conc_initial_def represents_def)
next
  case (c_next s s')
  then show ?case
    using conc_step_inv [OF assms(1,2)] ledger_le_trans by meson
qed

text \<open>What the invariant says about an answer, and the limits of an answer.\<close>

lemma conc_inv_answer:
  assumes "conc_inv cd lr chain L s" and "((ckp, mr, ms, d0, clean), Inr (resp, nxt)) \<in> set (cs_answers s)"
  shows "delivers (min mr MAX_RECEIVERS) (min ms MAX_SENDERS) (chain (cs_clock s)) ckp resp nxt"
    and "complete clean (stored_receivers d0) (stored_senders d0) (min mr MAX_RECEIVERS) (min ms MAX_SENDERS) ckp resp nxt"
proof -
  have ok: "answer_for (ckp, mr, ms, d0, clean) L (Inr (resp, nxt))" and le: "ledger_le L (chain (cs_clock s))"
    using assms by (auto simp: conc_inv_def)
  from answer_for_grows [OF le ok]
  show "delivers (min mr MAX_RECEIVERS) (min ms MAX_SENDERS) (chain (cs_clock s)) ckp resp nxt"
    and "complete clean (stored_receivers d0) (stored_senders d0) (min mr MAX_RECEIVERS) (min ms MAX_SENDERS) ckp resp nxt"
    by (simp_all add: answer_for_def answer_ok_def)
qed

lemma delivers_limits:
  assumes "delivers (min mr MAX_RECEIVERS) (min ms MAX_SENDERS) L ckp resp nxt"
  shows "length (receivers resp) \<le> 4096" "length (senders resp) \<le> 4096"
  using assms by (simp_all add: delivers_def unat_min unat_limits)

section \<open>Uninterrupted requests\<close>

text \<open>
  One of the interleavings: the newest request runs to its answer before anything else happens.
\<close>

lemma run_reachable:
  assumes "conc_reachable show_error cd lr forest world mc st0 s" and "cs_requests s = (q, p) # ps"
    and "sqlite_ok sq" and "fault_free sq"
    and "run_prog sq (cs_db s) p (cs_cache s) = (a, c)"
  shows "conc_reachable show_error cd lr forest world mc st0
    (s\<lparr>cs_cache := c, cs_requests := ps, cs_answers := cs_answers s @ [(q, a)]\<rparr>)"
  using assms
proof (induction p arbitrary: s)
  case (Done x)
  then have "conc_step show_error cd lr forest world mc s (s\<lparr>cs_requests := take 0 (cs_requests s) @ drop (Suc 0) (cs_requests s),
      cs_answers := cs_answers s @ [(q, a)]\<rparr>)"
    by (intro c_answer) simp_all
  from c_next [OF Done.prems(1) this] show ?case
    using Done.prems(2,5) by (cases s) auto
next
  case (Query f)
  then have "conc_step show_error cd lr forest world mc s (s\<lparr>cs_requests := (cs_requests s)[0 := (mark_query sq q, f (sq, cs_db s))]\<rparr>)"
    by (intro c_query) simp_all
  note step = c_next [OF Query.prems(1) this]
  have "mark_query sq q = q"
    using Query.prems(4) by (simp add: mark_query_def split: prod.split)
  with Query.IH [OF rangeI step] show ?case
    using Query.prems by simp
next
  case (With_Cache upd g)
  then have "conc_step show_error cd lr forest world mc s
      (s\<lparr>cs_cache := upd (cs_cache s), cs_requests := (cs_requests s)[0 := (q, g (cs_cache s))]\<rparr>)"
    by (intro c_cache) simp_all
  from With_Cache.IH [OF rangeI c_next [OF With_Cache.prems(1) this]] show ?case
    using With_Cache.prems by simp
qed

lemma request_reachable:
  assumes "conc_reachable show_error cd lr forest world mc st0 s" and "sqlite_ok sq" and "fault_free sq"
    and "pull_ledger_diff_impl show_error cd lr sq (cs_db s) (cs_cache s) ckp mr ms = (a, c)"
  shows "conc_reachable show_error cd lr forest world mc st0
    (s\<lparr>cs_cache := c, cs_answers := cs_answers s @ [((ckp, mr, ms, cs_db s, True), a)]\<rparr>)"
  using run_reachable [OF c_next [OF assms(1) c_arrive] _ assms(2,3), where ps = "cs_requests s"] assms(4)
  by (simp add: run_impl_prog)

section \<open>Properties\<close>

text \<open>
  C1. Every answer is a piece of the chain, at the granularity of single accesses. Whatever the
  interleaving of the accesses of any number of requests with the commits and the batches of the
  cache refresh of the job, and with faults of the engine and of the node in every place: the tables
  hold a ledger that extends the initial one and lies on the chain of the node, the cache is coherent
  with it, and the checkpoint that the job has in memory between two rounds is its checkpoint.
  Every answer that was given is an error, or it has at most 4096 receivers and 4096 senders and
  \<open>delivers\<close> a piece of the chain: in the order of the shards, each shard contributes the items between
  the cursor of the request and the next cursor; the senders are the items behind the cursor of the
  request, and belong to the chain for every cursor; a raised flag means that there is an item
  behind the next cursor. An answer is also \<open>complete\<close>: of the senders that were stored when the request
  arrived, every one behind the cursor of the request is delivered unless the limit is used up (for
  indices within \<open>2 ^ 48\<close>); and if no query of the request met a fault, every receiver that was stored
  when it arrived lies before the next cursors, unless the limit is used up.
\<close>

theorem interleaved_answers_on_chain:
  assumes "scale_codec cd" and "lru_crate lr" and "honest_world forest world chain"
    and "represents cd lr L0 st0" and "ledger_le L0 (chain 0)"
    and "conc_reachable show_error cd lr forest world mc st0 s"
  shows "(\<exists>L. ledger_le L0 L \<and> ledger_le L (chain (cs_clock s)) \<and> holds_ledger cd L (cs_db s) \<and>
      cache_coherent cd lr L (cs_cache s) \<and> (\<forall>ckp. cs_phase s = Ready ckp \<longrightarrow> ckp = checkpoint_of L)) \<and>
    (\<forall>ckp mr ms d0 clean resp nxt. ((ckp, mr, ms, d0, clean), Inr (resp, nxt)) \<in> set (cs_answers s) \<longrightarrow>
      length (receivers resp) \<le> 4096 \<and> length (senders resp) \<le> 4096 \<and>
      delivers (min mr MAX_RECEIVERS) (min ms MAX_SENDERS) (chain (cs_clock s)) ckp resp nxt \<and>
      complete clean (stored_receivers d0) (stored_senders d0) (min mr MAX_RECEIVERS) (min ms MAX_SENDERS) ckp resp nxt)"
proof -
  have "request_env cd lr"
    using assms(1,2) by (simp add: request_env_def)
  from conc_reachable_inv [OF this assms(3-6)] obtain L where L0: "ledger_le L0 L" and L: "conc_inv cd lr chain L s"
    by blast
  have "\<exists>L. ledger_le L0 L \<and> ledger_le L (chain (cs_clock s)) \<and> holds_ledger cd L (cs_db s) \<and>
      cache_coherent cd lr L (cs_cache s) \<and> (\<forall>ckp. cs_phase s = Ready ckp \<longrightarrow> ckp = checkpoint_of L)"
    using L0 L by (auto simp: conc_inv_def)
  moreover have "length (receivers resp) \<le> 4096 \<and> length (senders resp) \<le> 4096 \<and>
      delivers (min mr MAX_RECEIVERS) (min ms MAX_SENDERS) (chain (cs_clock s)) ckp resp nxt \<and>
      complete clean (stored_receivers d0) (stored_senders d0) (min mr MAX_RECEIVERS) (min ms MAX_SENDERS) ckp resp nxt"
    if "((ckp, mr, ms, d0, clean), Inr (resp, nxt)) \<in> set (cs_answers s)" for ckp mr ms d0 clean resp nxt
    using conc_inv_answer [OF L that] delivers_limits [OF conc_inv_answer(1) [OF L that]] by blast
  ultimately show ?thesis by blast
qed

lemma demo_answer:
  assumes "cache_coherent byte_codec recency_lru demo_ledger c" and "unat (sender_index ckp) \<le> 2 ^ 47"
  shows "\<exists>resp nxt c'. pull_ledger_diff_impl (\<lambda>_. []) byte_codec recency_lru demo_sqlite demo_db c ckp mr ms =
      (Inr (resp, nxt), c') \<and> cache_coherent byte_codec recency_lru demo_ledger c' \<and>
    sender_index nxt = sender_index ckp + min ms MAX_SENDERS"
proof -
  have "unat (min mr MAX_RECEIVERS) \<le> 2 ^ 47" "unat (sender_index ckp) + unat (min ms MAX_SENDERS) \<le> 2 ^ 48"
    using assms(2) by (simp_all add: unat_min unat_limits)
  moreover have "tbl_total demo_db = Some (replicate 16 6)"
    by (simp add: demo_db_def)
  ultimately show ?thesis
    using demo.pull_ledger_diff_ok [OF assms(1)]
    by (fastforce simp: pull_ledger_diff_impl_def Let_def split_beta)
qed

text \<open>A state after the answer to one request.\<close>

lemma demo_answered:
  "\<exists>resp nxt c. conc_reachable (\<lambda>_. []) byte_codec recency_lru demo_forest (\<lambda>_. serving_world demo_sqlite rev demo_ledger) (2, 2)
      loaded_state ((conc_initial loaded_state)\<lparr>cs_cache := c, cs_answers := [((checkpoint_default, mr, ms, demo_db, True), Inr (resp, nxt))]\<rparr>) \<and>
    cache_coherent byte_codec recency_lru demo_ledger c \<and> sender_index nxt = min ms MAX_SENDERS"
proof -
  have start: "cs_db (conc_initial loaded_state) = demo_db" "cs_cache (conc_initial loaded_state) = lru_new recency_lru 8"
    "cs_answers (conc_initial loaded_state) = []"
    by (simp_all add: conc_initial_def loaded_state_def)
  have "cache_coherent byte_codec recency_lru demo_ledger (lru_new recency_lru 8)"
    by (simp add: empty_cache_coherent [OF recency.lru_crate_axioms])
  then obtain resp nxt c where answer: "pull_ledger_diff_impl (\<lambda>_. []) byte_codec recency_lru demo_sqlite demo_db (lru_new recency_lru 8)
      checkpoint_default mr ms = (Inr (resp, nxt), c)" "cache_coherent byte_codec recency_lru demo_ledger c"
      "sender_index nxt = min ms MAX_SENDERS"
    using demo_answer [of "lru_new recency_lru 8" checkpoint_default mr ms] by (auto simp: checkpoint_default_def)
  have "conc_reachable (\<lambda>_. []) byte_codec recency_lru demo_forest (\<lambda>_. serving_world demo_sqlite rev demo_ledger) (2, 2)
      loaded_state ((conc_initial loaded_state)\<lparr>cs_cache := c,
        cs_answers := cs_answers (conc_initial loaded_state) @ [((checkpoint_default, mr, ms, demo_db, True), Inr (resp, nxt))]\<rparr>)"
    using request_reachable [OF c_init [where ?st0.0 = loaded_state] demo.engine, unfolded start(1,2), OF answer(1)] .
  then show ?thesis
    using answer(2,3) unfolding start by auto
qed

theorem interleaved_answers_on_chain_witness:
  "\<exists>s resp nxt. conc_reachable (\<lambda>_. []) byte_codec recency_lru demo_forest (\<lambda>_. serving_world demo_sqlite rev demo_ledger) (2, 2)
      loaded_state s \<and> cs_answers s = [((checkpoint_default, 9, 9, demo_db, True), Inr (resp, nxt))] \<and>
    delivers 9 9 demo_ledger checkpoint_default resp nxt \<and>
    complete True (stored_receivers demo_db) (stored_senders demo_db) 9 9 checkpoint_default resp nxt"
proof -
  obtain resp nxt c where reach: "conc_reachable (\<lambda>_. []) byte_codec recency_lru demo_forest
      (\<lambda>_. serving_world demo_sqlite rev demo_ledger) (2, 2) loaded_state
      ((conc_initial loaded_state)\<lparr>cs_cache := c, cs_answers := [((checkpoint_default, 9, 9, demo_db, True), Inr (resp, nxt))]\<rparr>)"
    using demo_answered by blast
  have "ledger_le demo_ledger demo_ledger"
    by simp
  from interleaved_answers_on_chain [OF one_byte.scale_codec_axioms recency.lru_crate_axioms
      demo_node.live.honest_world_axioms loaded_state_represents this reach, THEN conjunct2, rule_format,
      of checkpoint_default 9 9 demo_db True resp nxt]
  have "delivers 9 9 demo_ledger checkpoint_default resp nxt \<and>
      complete True (stored_receivers demo_db) (stored_senders demo_db) 9 9 checkpoint_default resp nxt"
    by (simp add: MAX_RECEIVERS_def MAX_SENDERS_def min_def)
  then show ?thesis
    using reach by (intro exI [of _ "(conc_initial loaded_state)\<lparr>cs_cache := c,
        cs_answers := [((checkpoint_default, 9, 9, demo_db, True), Inr (resp, nxt))]\<rparr>"] exI [of _ resp] exI [of _ nxt]) simp
qed

end
