(* ===== verification/Client_Sessions.thy ===== *)
theory Client_Sessions
  imports Concurrent_System
begin

text \<open>
  A wallet that follows the cursors: it asks from some checkpoint, and each further request starts at
  the next checkpoint of the response before. Its requests run in the interleaved system, so that
  the ledger grows between and during them, other clients share the cache, and requests that failed
  are repeated. A session is the list of its successful answers.
\<close>

section \<open>Slices\<close>

definition slice :: "'a list \<Rightarrow> nat \<Rightarrow> nat \<Rightarrow> 'a list" where
  "slice xs i j = take (j - i) (drop i xs)"

lemma slice_append:
  assumes "i \<le> j" and "j \<le> k"
  shows "slice xs i j @ slice xs j k = slice xs i k"
proof -
  have "take (j - i) (drop i xs) @ take (k - j) (drop (j - i) (drop i xs)) = take (j - i + (k - j)) (drop i xs)"
    by (simp only: take_add)
  then show ?thesis
    using assms by (simp add: slice_def)
qed

lemma mset_slice_append: "i \<le> j \<Longrightarrow> j \<le> k \<Longrightarrow> mset (slice xs i j) + mset (slice xs j k) = mset (slice xs i k)"
  by (metis mset_append slice_append)

lemma slice_of_slice: "slice_of xs i ys \<Longrightarrow> mset ys = mset (slice xs i (i + length ys))"
  by (simp add: slice_of_def slice_def)

lemma slice_of_sub_slice:
  assumes "slice_of xs i ys" and "i + length ys \<le> j"
  shows "mset ys \<subseteq># mset (slice xs i j)"
proof -
  have "mset (slice xs i j) = mset ys + mset (slice xs (i + length ys) j)"
    using mset_slice_append [of i "i + length ys" j xs] assms slice_of_slice by fastforce
  then show ?thesis by simp
qed

section \<open>Sessions\<close>

fun cursor_chain :: "checkpoint \<Rightarrow> (asked \<times> ('u, 'n, 'o) pull_response \<times> checkpoint) list \<Rightarrow> checkpoint \<Rightarrow> bool" where
  "cursor_chain c [] c' \<longleftrightarrow> c' = c"
| "cursor_chain c (((ckp, mr, ms, marks), resp, nxt) # xs) c' \<longleftrightarrow> ckp = c \<and> cursor_chain nxt xs c'"

definition session_receivers :: "(asked \<times> ('u, 'n, 'o) pull_response \<times> checkpoint) list \<Rightarrow> ('u, 'n) receiver_chunk" where
  "session_receivers xs = concat (map (\<lambda>(_, resp, _). receivers resp) xs)"

definition session_senders :: "(asked \<times> ('u, 'n, 'o) pull_response \<times> checkpoint) list \<Rightarrow> 'o sender_chunk" where
  "session_senders xs = concat (map (\<lambda>(_, resp, _). senders resp) xs)"

text \<open>An answer with as many senders as its limit.\<close>

definition full_answer :: "asked \<times> ('u, 'n, 'o) pull_response \<times> checkpoint \<Rightarrow> bool" where
  "full_answer x = (case x of ((ckp, mr, ms, marks), resp, nxt) \<Rightarrow> length (senders resp) = unat (min ms MAX_SENDERS))"

definition delivered_from ::
  "('u, 'n, 'o) ledger \<Rightarrow> asked \<times> ('u, 'n, 'o) pull_response \<times> checkpoint \<Rightarrow> bool" where
  "delivered_from L x = (case x of ((ckp, mr, ms, marks), resp, nxt) \<Rightarrow>
     delivers (min mr MAX_RECEIVERS) (min ms MAX_SENDERS) L ckp resp nxt)"

lemma delivers_receivers:
  assumes "delivers mr ms L ckp resp nxt"
  shows "unat (receiver_index ckp s) \<le> unat (receiver_index nxt s)"
    and "mset (receivers resp) = (\<Sum>s \<in> UNIV. mset (slice (led_receivers L s) (unat (receiver_index ckp s)) (unat (receiver_index nxt s))))"
proof -
  obtain chunks where chunks: "receivers resp = concat (map chunks all_u8)"
    "\<And>s. slice_of (led_receivers L s) (unat (receiver_index ckp s)) (chunks s)"
    "\<And>s. unat (receiver_index nxt s) = unat (receiver_index ckp s) + length (chunks s)"
    using assms by (auto simp: delivers_def)
  then show "unat (receiver_index ckp s) \<le> unat (receiver_index nxt s)"
    by simp
  have "mset (receivers resp) = (\<Sum>s \<in> UNIV. mset (chunks s))"
    by (simp add: chunks(1) mset_concat comp_def sum_list_distinct_conv_sum_set)
  also have "\<dots> = (\<Sum>s \<in> UNIV. mset (slice (led_receivers L s) (unat (receiver_index ckp s)) (unat (receiver_index nxt s))))"
    using slice_of_slice [OF chunks(2)] by (simp add: chunks(3))
  finally show "mset (receivers resp) =
      (\<Sum>s \<in> UNIV. mset (slice (led_receivers L s) (unat (receiver_index ckp s)) (unat (receiver_index nxt s))))" .
qed

lemma session_receivers_exact:
  assumes "cursor_chain c0 xs c1" and "\<forall>x \<in> set xs. delivered_from L x"
  shows "(\<forall>s. unat (receiver_index c0 s) \<le> unat (receiver_index c1 s)) \<and>
    mset (session_receivers xs) =
      (\<Sum>s \<in> UNIV. mset (slice (led_receivers L s) (unat (receiver_index c0 s)) (unat (receiver_index c1 s))))"
  using assms
proof (induction xs arbitrary: c0)
  case Nil
  then show ?case by (simp add: session_receivers_def slice_def)
next
  case (Cons x xs)
  obtain ckp mr ms d0 clean resp nxt where x: "x = ((ckp, mr, ms, d0, clean), resp, nxt)" by (cases x) auto
  have "delivers (min mr MAX_RECEIVERS) (min ms MAX_SENDERS) L c0 resp nxt" and "cursor_chain nxt xs c1"
    using Cons.prems by (simp_all add: x delivered_from_def)
  note d = delivers_receivers [OF this(1)] and ih = Cons.IH [OF this(2)]
  have le: "unat (receiver_index nxt s) \<le> unat (receiver_index c1 s)" for s
    using ih Cons.prems(2) by simp
  have "mset (session_receivers (x # xs)) = mset (receivers resp) + mset (session_receivers xs)"
    by (simp add: session_receivers_def x)
  also have "\<dots> = (\<Sum>s \<in> UNIV. mset (slice (led_receivers L s) (unat (receiver_index c0 s)) (unat (receiver_index nxt s))) +
      mset (slice (led_receivers L s) (unat (receiver_index nxt s)) (unat (receiver_index c1 s))))"
    using d(2) ih Cons.prems(2) by (simp add: sum.distrib)
  also have "\<dots> = (\<Sum>s \<in> UNIV. mset (slice (led_receivers L s) (unat (receiver_index c0 s)) (unat (receiver_index c1 s))))"
    by (simp only: mset_slice_append [OF d(1) le])
  finally show ?case
    using d(1) le by (meson le_trans)
qed

lemma delivers_senders:
  assumes "delivers (min mr MAX_RECEIVERS) (min ms MAX_SENDERS) L ckp resp nxt" and "unat (sender_index ckp) + 4096 \<le> 2 ^ 48"
  shows "unat (sender_index nxt) = unat (sender_index ckp) + unat (min ms MAX_SENDERS)"
    and "mset (senders resp) \<subseteq># mset (slice (led_senders L) (unat (sender_index ckp)) (unat (sender_index nxt)))"
    and "length (senders resp) = unat (min ms MAX_SENDERS) \<Longrightarrow>
      mset (senders resp) = mset (slice (led_senders L) (unat (sender_index ckp)) (unat (sender_index nxt)))"
    and "unat (sender_index nxt) \<le> unat (sender_index ckp) + 4096"
proof -
  have ms: "unat (min ms MAX_SENDERS) \<le> 4096"
    by (simp add: unat_min unat_limits)
  then show n: "unat (sender_index nxt) = unat (sender_index ckp) + unat (min ms MAX_SENDERS)"
    using assms unat_add_u64 [of "sender_index ckp" "min ms MAX_SENDERS"] by (simp add: delivers_def)
  with ms show "unat (sender_index nxt) \<le> unat (sender_index ckp) + 4096"
    by simp
  have "unat (sender_index ckp) + unat (min ms MAX_SENDERS) \<le> 2 ^ 48"
    using assms(2) ms by linarith
  then have s: "slice_of (led_senders L) (unat (sender_index ckp)) (senders resp)"
    and l: "length (senders resp) \<le> unat (min ms MAX_SENDERS)"
    using assms(1) by (simp_all add: delivers_def)
  show "mset (senders resp) \<subseteq># mset (slice (led_senders L) (unat (sender_index ckp)) (unat (sender_index nxt)))"
    by (rule slice_of_sub_slice [OF s]) (simp add: n l)
  show "mset (senders resp) = mset (slice (led_senders L) (unat (sender_index ckp)) (unat (sender_index nxt)))"
    if "length (senders resp) = unat (min ms MAX_SENDERS)"
    using slice_of_slice [OF s] by (simp add: n that)
qed

lemma session_senders_once:
  assumes "cursor_chain c0 xs c1" and "\<forall>x \<in> set xs. delivered_from L x"
    and "unat (sender_index c0) + 4096 * length xs \<le> 2 ^ 48"
  shows "unat (sender_index c0) \<le> unat (sender_index c1) \<and>
    mset (session_senders xs) \<subseteq># mset (slice (led_senders L) (unat (sender_index c0)) (unat (sender_index c1))) \<and>
    ((\<forall>x \<in> set xs. full_answer x) \<longrightarrow>
      mset (session_senders xs) = mset (slice (led_senders L) (unat (sender_index c0)) (unat (sender_index c1))))"
  using assms
proof (induction xs arbitrary: c0)
  case Nil
  then show ?case by (simp add: session_senders_def slice_def)
next
  case (Cons x xs)
  obtain ckp mr ms d0 clean resp nxt where x: "x = ((ckp, mr, ms, d0, clean), resp, nxt)" by (cases x) auto
  have d: "delivers (min mr MAX_RECEIVERS) (min ms MAX_SENDERS) L c0 resp nxt" and chain: "cursor_chain nxt xs c1"
    using Cons.prems by (simp_all add: x delivered_from_def)
  have "unat (sender_index c0) + 4096 \<le> 2 ^ 48"
    using Cons.prems(3) by simp
  note d = delivers_senders [OF d this]
  have "unat (sender_index nxt) + 4096 * length xs \<le> 2 ^ 48"
    using Cons.prems(3) d(4) by simp
  note ih = Cons.IH [OF chain _ this]
  have all: "\<forall>x \<in> set xs. delivered_from L x"
    using Cons.prems(2) by simp
  have le: "unat (sender_index c0) \<le> unat (sender_index nxt)" "unat (sender_index nxt) \<le> unat (sender_index c1)"
    using d(1) ih [OF all] by simp_all
  have split: "mset (slice (led_senders L) (unat (sender_index c0)) (unat (sender_index c1))) =
      mset (slice (led_senders L) (unat (sender_index c0)) (unat (sender_index nxt))) +
      mset (slice (led_senders L) (unat (sender_index nxt)) (unat (sender_index c1)))"
    by (rule mset_slice_append [OF le, symmetric])
  have "session_senders (x # xs) = senders resp @ session_senders xs"
    by (simp add: session_senders_def x)
  then show ?case
    unfolding split using d(2,3) ih [OF all] le by (auto simp: full_answer_def x intro: subset_mset.add_mono)
qed

section \<open>Properties\<close>

text \<open>
  C3. A wallet that follows the cursors gets every receiver exactly once. In every reachable state of
  the interleaved system, let a session be a list of answers that were given, each to a request
  from the next checkpoint of the answer before. Then the receivers of the session are, shard by
  shard, exactly the items of the chain between the first and the last cursor: no receiver is
  missing and none comes twice, although the ledger grew meanwhile, the cache was shared and
  requests failed. No sender between the cursors comes twice, and none is missing when every
  answer had as many senders as asked for; an answer with fewer advances the cursor all the same.
\<close>

theorem session_delivers_once:
  assumes "scale_codec cd" and "lru_crate lr" and "honest_world forest world chain"
    and "represents cd lr L0 st0" and "ledger_le L0 (chain 0)"
    and "conc_reachable show_error cd lr forest world mc st0 s"
    and "cursor_chain c0 xs c1" and "\<forall>(asked, resp, nxt) \<in> set xs. (asked, Inr (resp, nxt)) \<in> set (cs_answers s)"
    and "unat (sender_index c0) + 4096 * length xs \<le> 2 ^ 48"
  shows "(\<forall>s'. unat (receiver_index c0 s') \<le> unat (receiver_index c1 s')) \<and>
    mset (session_receivers xs) = (\<Sum>s' \<in> UNIV. mset (slice (led_receivers (chain (cs_clock s)) s')
      (unat (receiver_index c0 s')) (unat (receiver_index c1 s')))) \<and>
    unat (sender_index c0) \<le> unat (sender_index c1) \<and>
    mset (session_senders xs) \<subseteq># mset (slice (led_senders (chain (cs_clock s))) (unat (sender_index c0)) (unat (sender_index c1))) \<and>
    ((\<forall>x \<in> set xs. full_answer x) \<longrightarrow> mset (session_senders xs) =
      mset (slice (led_senders (chain (cs_clock s))) (unat (sender_index c0)) (unat (sender_index c1))))"
proof -
  have "request_env cd lr"
    using assms(1,2) by (simp add: request_env_def)
  from conc_reachable_inv [OF this assms(3-6)] obtain L where L: "conc_inv cd lr chain L s"
    by blast
  then have "\<forall>x \<in> set xs. delivered_from (chain (cs_clock s)) x"
    using conc_inv_answer [OF L] assms(8) by (auto simp: delivered_from_def)
  from session_receivers_exact [OF assms(7) this] session_senders_once [OF assms(7) this assms(9)]
  show ?thesis by blast
qed

text \<open>Two requests of one receiver each, the second from the cursor of the first.\<close>

lemma demo_session:
  "\<exists>s r1 n1 r2 n2. conc_reachable (\<lambda>_. []) byte_codec recency_lru demo_forest (\<lambda>_. serving_world demo_sqlite rev demo_ledger)
      (2, 2) loaded_state s \<and>
    cs_answers s = [((checkpoint_default, 1, 1, demo_db, True), Inr (r1, n1)), ((n1, 1, 1, demo_db, True), Inr (r2, n2))] \<and> cs_clock s = 0"
proof -
  obtain r1 n1 c where one: "conc_reachable (\<lambda>_. []) byte_codec recency_lru demo_forest
      (\<lambda>_. serving_world demo_sqlite rev demo_ledger) (2, 2) loaded_state
      ((conc_initial loaded_state)\<lparr>cs_cache := c, cs_answers := [((checkpoint_default, 1, 1, demo_db, True), Inr (r1, n1))]\<rparr>)"
      (is "conc_reachable _ _ _ _ _ _ _ ?s1")
    "cache_coherent byte_codec recency_lru demo_ledger c" "sender_index n1 = min 1 MAX_SENDERS"
    using demo_answered by blast
  have "unat (sender_index n1) \<le> 2 ^ 47"
    by (simp add: one(3) MAX_SENDERS_def min_def)
  then obtain r2 n2 c2 where answer: "pull_ledger_diff_impl (\<lambda>_. []) byte_codec recency_lru demo_sqlite demo_db c n1 1 1 = (Inr (r2, n2), c2)"
    using demo_answer [OF one(2)] by blast
  have s1: "cs_db ?s1 = demo_db" "cs_cache ?s1 = c" "cs_answers ?s1 = [((checkpoint_default, 1, 1, demo_db, True), Inr (r1, n1))]" "cs_clock ?s1 = 0"
    by (simp_all add: conc_initial_def loaded_state_def)
  have "conc_reachable (\<lambda>_. []) byte_codec recency_lru demo_forest (\<lambda>_. serving_world demo_sqlite rev demo_ledger) (2, 2)
      loaded_state (?s1\<lparr>cs_cache := c2, cs_answers := cs_answers ?s1 @ [((n1, 1, 1, demo_db, True), Inr (r2, n2))]\<rparr>)"
    using request_reachable [OF one(1) demo.engine, unfolded s1(1,2), OF answer] .
  then show ?thesis
    using s1(4) by (intro exI conjI) (assumption, simp_all)
qed

theorem session_delivers_once_witness:
  "\<exists>s r1 n1 r2 n2. conc_reachable (\<lambda>_. []) byte_codec recency_lru demo_forest (\<lambda>_. serving_world demo_sqlite rev demo_ledger)
      (2, 2) loaded_state s \<and>
    cs_answers s = [((checkpoint_default, 1, 1, demo_db, True), Inr (r1, n1)), ((n1, 1, 1, demo_db, True), Inr (r2, n2))] \<and>
    mset (receivers r1 @ receivers r2) = (\<Sum>s' \<in> UNIV. mset (slice (led_receivers demo_ledger s') 0 (unat (receiver_index n2 s'))))"
proof -
  obtain s r1 n1 r2 n2 where s: "conc_reachable (\<lambda>_. []) byte_codec recency_lru demo_forest (\<lambda>_. serving_world demo_sqlite rev demo_ledger)
      (2, 2) loaded_state s"
    "cs_answers s = [((checkpoint_default, 1, 1, demo_db, True), Inr (r1, n1)), ((n1, 1, 1, demo_db, True), Inr (r2, n2))]" "cs_clock s = 0"
    using demo_session by blast
  have "mset (session_receivers [((checkpoint_default, 1, 1, demo_db, True), r1, n1), ((n1, 1, 1, demo_db, True), r2, n2)]) =
      (\<Sum>s' \<in> UNIV. mset (slice (led_receivers demo_ledger s') (unat (receiver_index checkpoint_default s')) (unat (receiver_index n2 s'))))"
    using session_delivers_once [OF one_byte.scale_codec_axioms recency.lru_crate_axioms
      demo_node.live.honest_world_axioms loaded_state_represents ledger_le_refl s(1),
      of checkpoint_default "[((checkpoint_default, 1, 1, demo_db, True), r1, n1), ((n1, 1, 1, demo_db, True), r2, n2)]" n2] s(2)
    by (simp add: checkpoint_default_def)
  then show ?thesis
    using s(1,2) by (intro exI conjI) (assumption, assumption, simp add: session_receivers_def checkpoint_default_def)
qed

end
