(* ===== verification/Local_Walk.thy ===== *)
theory Local_Walk
  imports Sync_Job
begin

text \<open>
  \<open>pull_ledger_diff_from_sqlite\<close> of \<open>src/indexer/sync.rs\<close>: a client that walks over the local
  database with the responses of \<open>pull_ledger_diff\<close> and computes its cursor itself, from the number
  of items it received. One step advances the cursor by what the response carries, so that the walk
  ends; what it has covered then is stated against the ledger that the tables hold.
\<close>

section \<open>The cursor of the walk\<close>

text \<open>A cursor within the ledger, how much is left from it on, and the cursor after one step.\<close>

definition cursor_within :: "('u, 'n, 'o) ledger \<Rightarrow> checkpoint \<Rightarrow> bool" where
  "cursor_within L ckp \<longleftrightarrow> (\<forall>s. unat (receiver_index ckp s) \<le> length (led_receivers L s)) \<and>
     unat (sender_index ckp) \<le> length (led_senders L)"

definition receivers_left :: "('u, 'n, 'o) ledger \<Rightarrow> checkpoint \<Rightarrow> nat" where
  "receivers_left L ckp = (\<Sum>s \<leftarrow> all_u8. avail L (receiver_index ckp) s)"

definition senders_left :: "('u, 'n, 'o) ledger \<Rightarrow> checkpoint \<Rightarrow> nat" where
  "senders_left L ckp = length (led_senders L) - unat (sender_index ckp)"

definition cursor_advanced :: "('u, 'n, 'o) ledger \<Rightarrow> nat \<Rightarrow> checkpoint \<Rightarrow> checkpoint \<Rightarrow> bool" where
  "cursor_advanced L n ckp ckp' \<longleftrightarrow>
     (\<forall>s. unat (receiver_index ckp' s) =
        unat (receiver_index ckp s) + greedy_count (avail L (receiver_index ckp)) n all_u8 s) \<and>
     unat (sender_index ckp') = min (length (led_senders L)) (unat (sender_index ckp) + n)"

lemma cursor_advanced_within:
  assumes "cursor_within L ckp" and "cursor_advanced L n ckp ckp'"
  shows "cursor_within L ckp'"
  unfolding cursor_within_def
proof (intro conjI allI)
  fix s
  show "unat (receiver_index ckp' s) \<le> length (led_receivers L s)"
    using assms greedy_count_le [of "avail L (receiver_index ckp)" n all_u8 s]
    by (simp add: cursor_within_def cursor_advanced_def avail_def le_diff_conv2 add.commute)
qed (use assms(2) in \<open>simp add: cursor_advanced_def\<close>)

lemma receivers_left_advanced:
  assumes "\<forall>s. unat (receiver_index ckp' s) =
      unat (receiver_index ckp s) + greedy_count (avail L (receiver_index ckp)) n all_u8 s"
  shows "receivers_left L ckp' = receivers_left L ckp - n"
proof -
  let ?av = "avail L (receiver_index ckp)"
  have "avail L (receiver_index ckp') s + greedy_count ?av n all_u8 s = ?av s" for s
    using assms greedy_count_le [of ?av n all_u8 s] by (simp add: avail_def)
  then have "receivers_left L ckp = (\<Sum>s \<leftarrow> all_u8. avail L (receiver_index ckp') s + greedy_count ?av n all_u8 s)"
    by (simp add: receivers_left_def)
  also have "\<dots> = receivers_left L ckp' + min n (receivers_left L ckp)"
    by (simp add: receivers_left_def sum_list_addf sum_greedy_count)
  finally show ?thesis by linarith
qed

lemma cursor_advanced_left:
  assumes "cursor_advanced L n ckp ckp'"
  shows "receivers_left L ckp' = receivers_left L ckp - n" and "senders_left L ckp' = senders_left L ckp - n"
  using assms receivers_left_advanced [of ckp' ckp L n] by (auto simp: cursor_advanced_def senders_left_def)

text \<open>The additions on \<open>usize\<close> do not wrap within a ledger.\<close>

lemma cursor_advancedI:
  assumes "ledger_wf L" and "cursor_within L ckp" and "k = min n (length (led_senders L) - unat (sender_index ckp))"
  shows "cursor_advanced L n ckp
    \<lparr>receiver_index = (\<lambda>s. receiver_index ckp s +
       word_of_nat (greedy_count (avail L (receiver_index ckp)) n all_u8 s)),
     sender_index = sender_index ckp + word_of_nat k\<rparr>"
proof -
  have within: "\<And>s. unat (receiver_index ckp s) \<le> length (led_receivers L s)"
    "unat (sender_index ckp) \<le> length (led_senders L)"
    using assms(2) by (simp_all add: cursor_within_def)
  have "unat (receiver_index ckp s + word_of_nat (greedy_count (avail L (receiver_index ckp)) n all_u8 s)) =
      unat (receiver_index ckp s) + greedy_count (avail L (receiver_index ckp)) n all_u8 s" for s
  proof -
    have "unat (receiver_index ckp s) + greedy_count (avail L (receiver_index ckp)) n all_u8 s \<le> length (led_receivers L s)"
      using within(1) [of s] greedy_count_le [of "avail L (receiver_index ckp)" n all_u8 s]
      by (simp add: avail_def)
    then show ?thesis
      using ledger_wfD(1) [OF assms(1), of s] by (simp add: unat_add_u64)
  qed
  moreover have "unat (sender_index ckp + word_of_nat k) = unat (sender_index ckp) + k"
    using assms(3) within(2) ledger_wfD(2) [OF assms(1)] by (simp add: unat_add_u64)
  moreover have "unat (sender_index ckp) + k = min (length (led_senders L)) (unat (sender_index ckp) + n)"
    using assms(3) within(2) by linarith
  ultimately show ?thesis by (simp add: cursor_advanced_def)
qed

lemma receivers_left_zero:
  "cursor_within L ckp \<Longrightarrow> receivers_left L ckp = 0 \<Longrightarrow> unat (receiver_index ckp s) = length (led_receivers L s)"
  by (auto simp: receivers_left_def sum_list_eq_0_iff avail_def cursor_within_def intro: le_antisym)

section \<open>One step of the walk\<close>

locale walk_env = pull_env cd lr L sq d
  for cd :: "('u, 'n, 'o) codec" and lr :: "'c lru_ops" and L :: "('u, 'n, 'o) ledger" and sq d +
  fixes forest :: "'u forest" and ord :: "nat \<Rightarrow> ('u, 'n) shard_order" and tot :: bytes
  assumes hash_params: "parameters_ok forest" and in_shards: "sharded_by forest L"
    and orders: "visits_each_once (ord t)"
    and total: "tbl_total d = Some tot" and total_length: "length tot = 16"
begin

lemma walk_step:
  assumes "cache_coherent cd lr L c" and "cursor_within L ckp" and "unat n \<le> 2 ^ 47"
  shows "\<exists>resp nxt c' shards. pull_ledger_diff cd lr sq d c ckp n n = (Inr (resp, nxt), c') \<and>
    cache_coherent cd lr L c' \<and> reconstruct_shards_from_pull_response forest resp = Inr shards \<and>
    should_continue resp = (greedy_more (avail L (receiver_index ckp)) (unat n) all_u8 \<or> unat n < senders_left L ckp) \<and>
    cursor_advanced L (unat n) ckp
      (calculate_next_checkpoint (ord t) shards ckp ckp (word_of_nat (length (senders resp))))"
proof -
  let ?count = "greedy_count (avail L (receiver_index ckp)) (unat n) all_u8"
  have within: "\<And>s. unat (receiver_index ckp s) \<le> length (led_receivers L s)"
    "unat (sender_index ckp) \<le> length (led_senders L)"
    using assms(2) by (simp_all add: cursor_within_def)
  have bounds: "unat (sender_index ckp) + unat n \<le> 2 ^ 48"
    using within(2) ledger_wfD(2) [OF ledger] assms(3) by simp
  from pull_ledger_diff_ok [OF assms(1,3) bounds total total_length]
  obtain chunks ss c' resp nxt where pull: "pull_ledger_diff cd lr sq d c ckp n n = (Inr (resp, nxt), c')"
    and resp: "receivers resp = concat (map chunks all_u8)" "senders resp = ss"
      "should_continue resp = (greedy_more (avail L (receiver_index ckp)) (unat n) all_u8 \<or>
        unat (sender_index ckp) + unat n < length (led_senders L))"
    and chunks: "\<forall>s. mset (chunks s) = mset (take (?count s) (drop (unat (receiver_index ckp s)) (led_receivers L s)))"
    and ss: "mset ss = mset (take (unat n) (drop (unat (sender_index ckp)) (led_senders L)))"
    and c': "cache_coherent cd lr L c'" by force
  have tree: "tree_index forest (fst r) = Some s" if "r \<in> set (chunks s)" for r s
  proof -
    have "r \<in> set (led_receivers L s)"
      using that mset_eq_setD [OF spec [OF chunks, of s]] by (metis in_set_dropD in_set_takeD)
    then show ?thesis using in_shards by (simp add: sharded_by_def)
  qed
  obtain shards where shards: "reconstruct_shards_from_pull_response forest resp = Inr shards"
    using tree by (fastforce simp: reconstruct_push_all [OF hash_params] resp(1))
  have "length (items_of shards s) = ?count s" for s
    using mset_eq_length [OF spec [OF chunks, of s]] greedy_count_le [of "avail L (receiver_index ckp)" "unat n" all_u8 s]
    by (simp add: items_of_reconstruct [OF shards] resp(1) filter_concat_tagged tree avail_def)
  then have next_ckp: "calculate_next_checkpoint (ord t) shards ckp ckp (word_of_nat (length ss)) =
      \<lparr>receiver_index = (\<lambda>s. receiver_index ckp s + word_of_nat (?count s)),
       sender_index = sender_index ckp + word_of_nat (length ss)\<rparr>"
    using calculate_next_checkpoint_eq [OF orders reconstruct_entries(1) [OF shards]] by simp
  have "length ss = min (unat n) (length (led_senders L) - unat (sender_index ckp))"
    using mset_eq_length [OF ss] by simp
  then have "cursor_advanced L (unat n) ckp (calculate_next_checkpoint (ord t) shards ckp ckp (word_of_nat (length ss)))"
    unfolding next_ckp by (rule cursor_advancedI [OF ledger assms(2)])
  then show ?thesis
    using pull c' shards resp within(2) by (fastforce simp: senders_left_def less_diff_conv add.commute)
qed

lemma walk_ends:
  assumes "cache_coherent cd lr L c" and "cursor_within L ckp" and "0 < unat n" and "unat n \<le> 2 ^ 47"
  shows "\<exists>ckp' c'. walk_checkpoints forest ord
      (\<lambda>clock ckp cache. case pull_ledger_diff cd lr sq d cache ckp n n of
          (r, cache') \<Rightarrow> (bindE r (\<lambda>p. Inr (fst p)), cache')) t ckp ckp c = Some (Inr ckp', c') \<and>
    cache_coherent cd lr L c' \<and> cursor_within L ckp' \<and> senders_left L ckp' = 0 \<and>
    (receivers_left L ckp \<le> unat n \<longrightarrow> receivers_left L ckp' = 0)"
  using assms(1,2)
proof (induction "receivers_left L ckp + senders_left L ckp" arbitrary: ckp c t rule: less_induct)
  case less
  obtain resp nxt c1 shards where step: "pull_ledger_diff cd lr sq d c ckp n n = (Inr (resp, nxt), c1)"
    "reconstruct_shards_from_pull_response forest resp = Inr shards"
    and c1: "cache_coherent cd lr L c1"
    and cont: "should_continue resp = (greedy_more (avail L (receiver_index ckp)) (unat n) all_u8 \<or> unat n < senders_left L ckp)"
    and adv: "cursor_advanced L (unat n) ckp
      (calculate_next_checkpoint (ord t) shards ckp ckp (word_of_nat (length (senders resp))))"
    using walk_step [OF less.prems assms(4)] by blast
  define ckp1 where "ckp1 = calculate_next_checkpoint (ord t) shards ckp ckp (word_of_nat (length (senders resp)))"
  note adv1 = adv [folded ckp1_def]
  note left = cursor_advanced_left [OF adv1]
  show ?case
  proof (cases "should_continue resp")
    case False
    then show ?thesis
      using step c1 cont left cursor_advanced_within [OF less.prems(2) adv1]
      by (subst walk_checkpoints.simps) (simp add: ckp1_def [symmetric] Let_def)
  next
    case True
    then have "unat n < receivers_left L ckp \<or> unat n < senders_left L ckp"
      using cont greedy_more_left [OF distinct_all_u8] by (auto simp: receivers_left_def)
    then have "receivers_left L ckp1 + senders_left L ckp1 < receivers_left L ckp + senders_left L ckp"
      using left assms(3) by linarith
    from less.hyps [OF this c1 cursor_advanced_within [OF less.prems(2) adv1], of "Suc t"]
    show ?thesis
      using step True left by (subst walk_checkpoints.simps) (auto simp: ckp1_def [symmetric] Let_def)
  qed
qed

end

lemma cursor_within_default: "cursor_within L checkpoint_default"
  by (simp add: cursor_within_def checkpoint_default_def)

interpretation demo_walk: walk_env byte_codec recency_lru demo_ledger demo_sqlite demo_db demo_forest "\<lambda>_. rev" "replicate 16 6"
  by unfold_locales (simp_all add: demo_parameters demo_sharded visits_each_once_def demo_db_def)

section \<open>Property\<close>

text \<open>
  C13. The walk over the local database ends: from the default checkpoint it returns without an
  error, at a cursor that covers all senders of the ledger and points to no item outside of it. It
  covers all receivers, i.e. returns the checkpoint of the ledger, when they fit into one request;
  otherwise the flag that misleads at the end of a shard may stop it earlier.
\<close>

theorem sqlite_walk_covers_senders:
  assumes "scale_codec cd" "lru_crate lr" "ledger_wf L" "sqlite_ok sq" "fault_free sq" "holds_ledger cd L d"
    and "cache_coherent cd lr L cache" and "tbl_total d = Some tot" and "length tot = 16"
    and "parameters_ok forest" and "sharded_by forest L" and "\<forall>t. visits_each_once (ord t)"
  shows "\<exists>ckp cache'. pull_ledger_diff_from_sqlite cd lr sq forest ord d cache = Some (Inr ckp, cache') \<and>
    cache_coherent cd lr L cache' \<and> unat (sender_index ckp) = length (led_senders L) \<and>
    (\<forall>s. unat (receiver_index ckp s) \<le> length (led_receivers L s)) \<and>
    ((\<Sum>s \<leftarrow> all_u8. length (led_receivers L s)) \<le> 15360 \<longrightarrow> ckp = checkpoint_of L)"
proof -
  have env: "walk_env cd lr L sq d forest ord tot"
    using pull_envI [OF assms(1-6)] assms(8-12) by (simp add: walk_env_def walk_env_axioms_def)
  from walk_env.walk_ends [OF env assms(7) cursor_within_default, of "1024 * 15" 0]
  obtain ckp cache' where walk: "pull_ledger_diff_from_sqlite cd lr sq forest ord d cache = Some (Inr ckp, cache')"
    and ckp: "cache_coherent cd lr L cache'" "cursor_within L ckp" "senders_left L ckp = 0"
    and all: "receivers_left L checkpoint_default \<le> 15360 \<longrightarrow> receivers_left L ckp = 0"
    by (auto simp: pull_ledger_diff_from_sqlite_def)
  have sender: "unat (sender_index ckp) = length (led_senders L)"
    using ckp(2,3) by (simp add: cursor_within_def senders_left_def)
  have "ckp = checkpoint_of L" if "receivers_left L ckp = 0"
  proof (rule checkpoint.equality)
    show "receiver_index ckp = receiver_index (checkpoint_of L)"
      using receivers_left_zero [OF ckp(2) that] unat_checkpoint_of(1) [OF assms(3)] by (simp add: fun_eq_iff word_unat_eq_iff)
    show "sender_index ckp = sender_index (checkpoint_of L)"
      using sender unat_checkpoint_of(2) [OF assms(3)] by (simp add: word_unat_eq_iff)
  qed simp
  moreover have "receivers_left L checkpoint_default = (\<Sum>s \<leftarrow> all_u8. length (led_receivers L s))"
    by (simp add: receivers_left_def avail_def checkpoint_default_def)
  ultimately show ?thesis
    using walk ckp all sender by (auto simp: cursor_within_def)
qed

theorem sqlite_walk_covers_senders_witness:
  "\<exists>ckp cache'. pull_ledger_diff_from_sqlite byte_codec recency_lru demo_sqlite demo_forest (\<lambda>_. rev) demo_db
      (lru_new recency_lru 8) = Some (Inr ckp, cache') \<and> unat (sender_index ckp) = 2"
  using sqlite_walk_covers_senders [OF demo_env empty_cache_coherent [OF recency.lru_crate_axioms, of 8]
      demo_walk.total demo_walk.total_length demo_parameters demo_sharded, of "\<lambda>_. rev"] demo_walk.orders
  by (fastforce simp: demo_ledger_def)

end
