(* ===== verification/Client_Progress.thy ===== *)
theory Client_Progress
  imports Client_Sessions Local_Walk
begin

text \<open>
  A wallet that catches up: it calls \<open>dense_pull_ledger_diff\<close> again and again, each time from the
  checkpoint of the response before, and does not look at the flag, which can be down although there
  is more. On tables that hold a ledger each request delivers as many receivers and senders as its
  limits allow, so that the number of requests after which nothing is missing is known.
\<close>

section \<open>Following the cursor\<close>

text \<open>The receivers and senders of a number of requests, the last cursor, and the cache that is left.\<close>

fun follow_cursor ::
  "(anyhow_error \<Rightarrow> string) \<Rightarrow> ('u, 'n, 'o) codec \<Rightarrow> 'c lru_ops \<Rightarrow> sqlite \<Rightarrow> db \<Rightarrow> u64 \<Rightarrow> u64 \<Rightarrow> nat \<Rightarrow> checkpoint \<Rightarrow> 'c \<Rightarrow>
   (('u, 'n) receiver_chunk \<times> 'o sender_chunk \<times> checkpoint \<times> 'c) option" where
  "follow_cursor show_error cd lr sq d mr ms 0 ckp c = Some ([], [], ckp, c)"
| "follow_cursor show_error cd lr sq d mr ms (Suc k) ckp c =
     (case rpc_dense_pull_ledger_diff show_error cd lr sq d c ckp mr ms of
        (Inl e, c') \<Rightarrow> None
      | (Inr dense, c') \<Rightarrow>
          Option.bind (undense cd dense) (\<lambda>resp.
          Option.bind (next_checkpoint dense) (\<lambda>nxt.
          Option.bind (follow_cursor show_error cd lr sq d mr ms k nxt c') (\<lambda>(rs, ss, ckp', c'').
            Some (receivers resp @ rs, senders resp @ ss, ckp', c'')))))"

text \<open>The receivers of the ledger from a cursor on.\<close>

definition receivers_from :: "('u, 'n, 'o) ledger \<Rightarrow> checkpoint \<Rightarrow> ('u \<times> 'n) multiset" where
  "receivers_from L ckp = (\<Sum>s \<in> UNIV. mset (drop (unat (receiver_index ckp s)) (led_receivers L s)))"

definition receivers_within :: "('u, 'n, 'o) ledger \<Rightarrow> checkpoint \<Rightarrow> bool" where
  "receivers_within L ckp \<longleftrightarrow> (\<forall>s. unat (receiver_index ckp s) \<le> length (led_receivers L s))"

section \<open>One request\<close>

lemma receivers_step:
  assumes "ledger_wf L" and "receivers_within L ckp"
    and "\<forall>s. mset (chunks s) = mset (take (greedy_count (avail L (receiver_index ckp)) n all_u8 s)
      (drop (unat (receiver_index ckp s)) (led_receivers L s)))"
    and "\<forall>s. receiver_index nxt s = receiver_index ckp s + word_of_nat (greedy_count (avail L (receiver_index ckp)) n all_u8 s)"
  shows "receivers_within L nxt" and "receivers_left L nxt = receivers_left L ckp - n"
    and "mset (concat (map chunks all_u8)) + receivers_from L nxt = receivers_from L ckp"
proof -
  let ?g = "greedy_count (avail L (receiver_index ckp)) n all_u8"
  have le: "unat (receiver_index ckp s) + ?g s \<le> length (led_receivers L s)" for s
    using assms(2) greedy_count_le [of "avail L (receiver_index ckp)" n all_u8 s]
    by (simp add: receivers_within_def avail_def le_diff_conv2 add.commute)
  have nxt: "unat (receiver_index nxt s) = unat (receiver_index ckp s) + ?g s" for s
    using le [of s] ledger_wfD(1) [OF assms(1), of s] assms(4) by (simp add: unat_add_u64)
  show "receivers_within L nxt"
    using le nxt by (simp add: receivers_within_def)
  show "receivers_left L nxt = receivers_left L ckp - n"
    by (rule receivers_left_advanced) (simp add: nxt)
  have "mset (chunks s) + mset (drop (unat (receiver_index nxt s)) (led_receivers L s)) =
      mset (drop (unat (receiver_index ckp s)) (led_receivers L s))" for s
  proof -
    have "mset (take (?g s) (drop (unat (receiver_index ckp s)) (led_receivers L s))) +
        mset (drop (?g s) (drop (unat (receiver_index ckp s)) (led_receivers L s))) =
        mset (drop (unat (receiver_index ckp s)) (led_receivers L s))"
      by (metis append_take_drop_id mset_append)
    then show ?thesis
      using assms(3) by (simp add: nxt add.commute)
  qed
  then show "mset (concat (map chunks all_u8)) + receivers_from L nxt = receivers_from L ckp"
    by (simp add: receivers_from_def mset_concat comp_def sum_list_distinct_conv_sum_set flip: sum.distrib)
qed

context pull_env
begin

lemma dense_request:
  assumes "cache_coherent cd lr L c" and "receivers_within L ckp" and "unat (sender_index ckp) + 4096 \<le> 2 ^ 48"
    and "tbl_total d = Some tot" and "length tot = 16"
  shows "\<exists>dense resp nxt c'. rpc_dense_pull_ledger_diff show_error cd lr sq d c ckp mr ms = (Inr dense, c') \<and>
    undense cd dense = Some resp \<and> next_checkpoint dense = Some nxt \<and> cache_coherent cd lr L c' \<and>
    receivers_within L nxt \<and> receivers_left L nxt = receivers_left L ckp - min (unat mr) 4096 \<and>
    mset (receivers resp) + receivers_from L nxt = receivers_from L ckp \<and>
    unat (sender_index nxt) = unat (sender_index ckp) + min (unat ms) 4096 \<and>
    mset (senders resp) = mset (take (min (unat ms) 4096) (drop (unat (sender_index ckp)) (led_senders L)))"
proof -
  let ?mr = "min mr MAX_RECEIVERS" and ?ms = "min ms MAX_SENDERS"
  have limits: "unat ?mr = min (unat mr) 4096" "unat ?ms = min (unat ms) 4096"
    by (simp_all add: unat_min unat_limits)
  then have bounds: "unat ?mr \<le> 2 ^ 47" "unat (sender_index ckp) + unat ?ms \<le> 2 ^ 48"
    using assms(3) by simp_all
  from pull_ledger_diff_ok [OF assms(1) bounds assms(4,5)]
  obtain chunks c' resp nxt where
    pull: "pull_ledger_diff cd lr sq d c ckp ?mr ?ms = (Inr (resp, nxt), c')"
    and resp: "receivers resp = concat (map chunks all_u8)"
    and chunks: "\<forall>s. mset (chunks s) = mset (take (greedy_count (avail L (receiver_index ckp)) (unat ?mr) all_u8 s)
      (drop (unat (receiver_index ckp s)) (led_receivers L s)))"
    and nxt: "\<forall>s. receiver_index nxt s = receiver_index ckp s +
      word_of_nat (greedy_count (avail L (receiver_index ckp)) (unat ?mr) all_u8 s)" "sender_index nxt = sender_index ckp + ?ms"
    and ss: "mset (senders resp) = mset (take (unat ?ms) (drop (unat (sender_index ckp)) (led_senders L)))"
    and c': "cache_coherent cd lr L c'" by force
  have "list_all sender_wf (senders resp)"
    by (rule delivered_senders_wf [OF ledger ss])
  then obtain dense where "rpc_dense_pull_ledger_diff show_error cd lr sq d c ckp mr ms = (Inr dense, c')"
    "undense cd dense = Some resp" "next_checkpoint dense = Some nxt"
    using pull base64_roundtrip receivers_roundtrip senders_roundtrip
    by (simp add: rpc_dense_pull_ledger_diff_def pull_ledger_diff_impl_def undense_def)
  moreover have "unat (sender_index nxt) = unat (sender_index ckp) + unat ?ms"
    using bounds(2) by (simp add: nxt(2) unat_add_u64)
  ultimately show ?thesis
    using receivers_step [OF ledger assms(2) chunks nxt(1)] resp ss c' unfolding limits by auto
qed

lemma follow_cursor_delivers:
  assumes "cache_coherent cd lr L c" and "receivers_within L ckp" and "unat (sender_index ckp) + 4096 * k \<le> 2 ^ 48"
    and "tbl_total d = Some tot" and "length tot = 16"
  shows "\<exists>rs ss ckp' c'. follow_cursor show_error cd lr sq d mr ms k ckp c = Some (rs, ss, ckp', c') \<and>
    cache_coherent cd lr L c' \<and> receivers_within L ckp' \<and> receivers_left L ckp' = receivers_left L ckp - k * min (unat mr) 4096 \<and>
    mset rs + receivers_from L ckp' = receivers_from L ckp \<and>
    unat (sender_index ckp') = unat (sender_index ckp) + k * min (unat ms) 4096 \<and>
    mset ss = mset (take (k * min (unat ms) 4096) (drop (unat (sender_index ckp)) (led_senders L)))"
  using assms(1-3)
proof (induction k arbitrary: ckp c)
  case (Suc k)
  let ?m = "min (unat ms) 4096"
  have "unat (sender_index ckp) + 4096 \<le> 2 ^ 48"
    using Suc.prems(3) by simp
  from dense_request [OF Suc.prems(1,2) this assms(4,5), where mr = mr and ms = ms and show_error = show_error]
  obtain dense resp nxt c1 where step: "rpc_dense_pull_ledger_diff show_error cd lr sq d c ckp mr ms = (Inr dense, c1)"
    "undense cd dense = Some resp" "next_checkpoint dense = Some nxt" and c1: "cache_coherent cd lr L c1" "receivers_within L nxt"
    and left: "receivers_left L nxt = receivers_left L ckp - min (unat mr) 4096"
    and rs1: "mset (receivers resp) + receivers_from L nxt = receivers_from L ckp"
    and sidx: "unat (sender_index nxt) = unat (sender_index ckp) + ?m"
    and ss1: "mset (senders resp) = mset (take ?m (drop (unat (sender_index ckp)) (led_senders L)))" by blast
  have "unat (sender_index nxt) + 4096 * k \<le> 2 ^ 48"
    using Suc.prems(3) sidx by simp
  from Suc.IH [OF c1 this] obtain rs ss ckp' c' where rest: "follow_cursor show_error cd lr sq d mr ms k nxt c1 = Some (rs, ss, ckp', c')"
    "cache_coherent cd lr L c'" "receivers_within L ckp'" "receivers_left L ckp' = receivers_left L nxt - k * min (unat mr) 4096"
    "mset rs + receivers_from L ckp' = receivers_from L nxt" "unat (sender_index ckp') = unat (sender_index nxt) + k * ?m"
    "mset ss = mset (take (k * ?m) (drop (unat (sender_index nxt)) (led_senders L)))" by blast
  have "mset (senders resp @ ss) = mset (take (?m + k * ?m) (drop (unat (sender_index ckp)) (led_senders L)))"
    using ss1 rest(7) by (simp add: take_add sidx add.commute)
  then show ?case
    using step rest left rs1 sidx by (auto simp: add.assoc)
qed simp

end

section \<open>Catching up\<close>

text \<open>
  A wallet catches up: on tables that hold a ledger, following the cursors of \<open>k\<close> dense responses from
  the default checkpoint never fails, and gives all receivers and all senders of the ledger, each once,
  as soon as \<open>k\<close> times the limits (at most 4096 each) covers them; the last cursor then stands at the
  end of every shard. So \<open>k\<close> requests are enough however the receivers are distributed over the
  shards, and the flag is not needed.
\<close>

lemma client_catches_up:
  assumes "scale_codec cd" "lru_crate lr" "ledger_wf L" "sqlite_ok sq" "fault_free sq" "holds_ledger cd L d"
    and "cache_coherent cd lr L c" and "tbl_total d = Some tot" and "length tot = 16"
    and "(\<Sum>s \<leftarrow> all_u8. length (led_receivers L s)) \<le> k * min (unat mr) 4096"
    and "length (led_senders L) \<le> k * min (unat ms) 4096" and "k \<le> 2 ^ 36"
  shows "\<exists>rs ss ckp c'. follow_cursor show_error cd lr sq d mr ms k checkpoint_default c = Some (rs, ss, ckp, c') \<and>
    mset rs = (\<Sum>s \<in> UNIV. mset (led_receivers L s)) \<and> mset ss = mset (led_senders L) \<and>
    (\<forall>s. unat (receiver_index ckp s) = length (led_receivers L s)) \<and> cache_coherent cd lr L c'"
proof -
  have default: "receivers_within L checkpoint_default" "unat (sender_index checkpoint_default) + 4096 * k \<le> 2 ^ 48"
    "receivers_left L checkpoint_default = (\<Sum>s \<leftarrow> all_u8. length (led_receivers L s))"
    "receivers_from L checkpoint_default = (\<Sum>s \<in> UNIV. mset (led_receivers L s))" "unat (sender_index checkpoint_default) = 0"
    using assms(12) by (simp_all add: receivers_within_def receivers_left_def avail_def receivers_from_def checkpoint_default_def)
  from pull_env.follow_cursor_delivers [OF pull_envI [OF assms(1-6)] assms(7) default(1,2) assms(8,9), of show_error mr ms]
  obtain rs ss ckp c' where run: "follow_cursor show_error cd lr sq d mr ms k checkpoint_default c = Some (rs, ss, ckp, c')"
    and c': "cache_coherent cd lr L c'" and ckp: "receivers_within L ckp" "receivers_left L ckp = 0"
    and rs: "mset rs + receivers_from L ckp = (\<Sum>s \<in> UNIV. mset (led_receivers L s))" and ss: "mset ss = mset (led_senders L)"
    using assms(10,11) by (auto simp: default(3-5))
  have ends: "unat (receiver_index ckp s) = length (led_receivers L s)" for s
    using ckp by (auto simp: receivers_within_def receivers_left_def sum_list_eq_0_iff avail_def intro: le_antisym)
  then have "receivers_from L ckp = {#}"
    by (simp add: receivers_from_def)
  then show ?thesis
    using run c' rs ss ends by auto
qed

lemma demo_receivers_count: "(\<Sum>s \<leftarrow> all_u8. length (led_receivers demo_ledger s)) = 4"
proof -
  have "length (led_receivers demo_ledger s) = (if s = 0 then 3 else 0) + (if s = 3 then 1 else 0)" for s
    by (simp add: demo_ledger_def)
  then show ?thesis
    by (simp add: sum_list_distinct_conv_sum_set sum.distrib)
qed

end
