(* ===== verification/Relay.thy ===== *)
theory Relay
  imports Ledger_Types
begin

text \<open>
  \<open>src/relayer/relay_server.rs\<close>: the relay of the node's RPC methods, one handler per method, the
  declarations of the trait \<open>MantaRelayApi\<close>, and the \<open>impl\<close> block that ties handlers to declarations.

  A handler has typed parameters and a typed result. \<open>'v\<close> is the type of all Rust values, \<open>'j\<close> that of
  JSON values, and the conversions of \<open>serde\<close> for a Rust type are the parameter \<open>serde\<close>: decoding can
  fail, and decoding and encoding again need not give back the same JSON value (unknown fields are
  dropped). \<open>dmc\<close> is \<open>WsClient::request\<close> of \<open>jsonrpsee\<close>, a parameter as well: from the type that is
  expected, the name of the method, the encoded parameters and the state of the node to the decoded
  answer or an error and the next state. \<open>decodes_answers\<close> states what it does with the answer that
  comes over the wire. What the macro \<open>rpc\<close> generates to call a handler is not modelled. A subscription
  handler returns what it hands to the pool of subscription clients (theory \<open>Sub_Client_Pool\<close>).
\<close>

section \<open>Types on the wire\<close>

datatype rust_type =
    TString | TBytes | TU32 | TU64 | THash | TAccountId | TStorageKey | TStorageData
  | TRuntimeVersion | TStorageChangeSet rust_type | TTraceBlockResponse | TProperties | THealth
  | TSignedBlock | THeader | TNumberOrHex | TTransactionStatus rust_type rust_type
  | TOption rust_type | TVec rust_type | TPair rust_type rust_type | TListOrValue rust_type

record ('j, 'v) serde =
  to_json :: "rust_type \<Rightarrow> 'v \<Rightarrow> 'j"
  from_json :: "rust_type \<Rightarrow> 'j \<Rightarrow> string + 'v"

type_synonym ('j, 'v, 's) rpc_client =
  "rust_type \<Rightarrow> string \<Rightarrow> 'j list \<Rightarrow> 's \<Rightarrow> (jsonrpsee_error + 'v) \<times> 's"

section \<open>The handlers\<close>

definition relay_call :: "('j, 'v) serde \<Rightarrow> ('j, 'v, 's) rpc_client \<Rightarrow> 'v \<Rightarrow> 'v \<Rightarrow> 'v \<Rightarrow> 's \<Rightarrow> (jsonrpsee_error + 'v) \<times> 's" where
  "relay_call sd dmc name bytes hash =
     dmc TBytes ''state_call''
       [to_json sd TString name, to_json sd TBytes bytes, to_json sd (TOption THash) hash]"

definition storage_pairs :: "('j, 'v) serde \<Rightarrow> ('j, 'v, 's) rpc_client \<Rightarrow> 'v \<Rightarrow> 'v \<Rightarrow> 's \<Rightarrow> (jsonrpsee_error + 'v) \<times> 's" where
  "storage_pairs sd dmc pfx hash =
     dmc (TVec (TPair TStorageKey TStorageData)) ''state_getPairs''
       [to_json sd TStorageKey pfx, to_json sd (TOption THash) hash]"

definition storage_keys_paged :: "('j, 'v) serde \<Rightarrow> ('j, 'v, 's) rpc_client \<Rightarrow> 'v \<Rightarrow> 'v \<Rightarrow> 'v \<Rightarrow> 'v \<Rightarrow> 's \<Rightarrow> (jsonrpsee_error + 'v) \<times> 's" where
  "storage_keys_paged sd dmc pfx cnt start_key hash =
     dmc (TVec TStorageKey) ''state_getKeysPaged''
       [to_json sd (TOption TStorageKey) pfx, to_json sd TU32 cnt, to_json sd (TOption TStorageKey) start_key, to_json sd (TOption THash) hash]"

definition storage :: "('j, 'v) serde \<Rightarrow> ('j, 'v, 's) rpc_client \<Rightarrow> 'v \<Rightarrow> 'v \<Rightarrow> 's \<Rightarrow> (jsonrpsee_error + 'v) \<times> 's" where
  "storage sd dmc key hash =
     dmc (TOption TStorageData) ''state_getStorage''
       [to_json sd TStorageKey key, to_json sd (TOption THash) hash]"

definition storage_hash :: "('j, 'v) serde \<Rightarrow> ('j, 'v, 's) rpc_client \<Rightarrow> 'v \<Rightarrow> 'v \<Rightarrow> 's \<Rightarrow> (jsonrpsee_error + 'v) \<times> 's" where
  "storage_hash sd dmc key hash =
     dmc (TOption THash) ''state_getStorageHash''
       [to_json sd TStorageKey key, to_json sd (TOption THash) hash]"

definition storage_size :: "('j, 'v) serde \<Rightarrow> ('j, 'v, 's) rpc_client \<Rightarrow> 'v \<Rightarrow> 'v \<Rightarrow> 's \<Rightarrow> (jsonrpsee_error + 'v) \<times> 's" where
  "storage_size sd dmc key hash =
     dmc (TOption TU64) ''state_getStorageSize''
       [to_json sd TStorageKey key, to_json sd (TOption THash) hash]"

definition metadata :: "('j, 'v) serde \<Rightarrow> ('j, 'v, 's) rpc_client \<Rightarrow> 'v \<Rightarrow> 's \<Rightarrow> (jsonrpsee_error + 'v) \<times> 's" where
  "metadata sd dmc hash = dmc TBytes ''state_getMetadata'' [to_json sd (TOption THash) hash]"

definition runtime_version :: "('j, 'v) serde \<Rightarrow> ('j, 'v, 's) rpc_client \<Rightarrow> 'v \<Rightarrow> 's \<Rightarrow> (jsonrpsee_error + 'v) \<times> 's" where
  "runtime_version sd dmc hash = dmc TRuntimeVersion ''state_getRuntimeVersion'' [to_json sd (TOption THash) hash]"

definition query_storage :: "('j, 'v) serde \<Rightarrow> ('j, 'v, 's) rpc_client \<Rightarrow> 'v \<Rightarrow> 'v \<Rightarrow> 'v \<Rightarrow> 's \<Rightarrow> (jsonrpsee_error + 'v) \<times> 's" where
  "query_storage sd dmc ks block hash =
     dmc (TVec (TStorageChangeSet THash)) ''state_queryStorage''
       [to_json sd (TVec TStorageKey) ks, to_json sd THash block, to_json sd (TOption THash) hash]"

definition query_storage_at :: "('j, 'v) serde \<Rightarrow> ('j, 'v, 's) rpc_client \<Rightarrow> 'v \<Rightarrow> 'v \<Rightarrow> 's \<Rightarrow> (jsonrpsee_error + 'v) \<times> 's" where
  "query_storage_at sd dmc ks at =
     dmc (TVec (TStorageChangeSet THash)) ''state_queryStorageAt''
       [to_json sd (TVec TStorageKey) ks, to_json sd (TOption THash) at]"

definition trace_block :: "('j, 'v) serde \<Rightarrow> ('j, 'v, 's) rpc_client \<Rightarrow> 'v \<Rightarrow> 'v \<Rightarrow> 'v \<Rightarrow> 'v \<Rightarrow> 's \<Rightarrow> (jsonrpsee_error + 'v) \<times> 's" where
  "trace_block sd dmc block targets storage_keys mths =
     dmc TTraceBlockResponse ''state_traceBlock''
       [to_json sd THash block, to_json sd (TOption TString) targets, to_json sd (TOption TString) storage_keys, to_json sd (TOption TString) mths]"

definition system_name :: "('j, 'v) serde \<Rightarrow> ('j, 'v, 's) rpc_client \<Rightarrow> 's \<Rightarrow> (jsonrpsee_error + 'v) \<times> 's" where
  "system_name sd dmc = dmc TString ''system_name'' []"

definition system_version :: "('j, 'v) serde \<Rightarrow> ('j, 'v, 's) rpc_client \<Rightarrow> 's \<Rightarrow> (jsonrpsee_error + 'v) \<times> 's" where
  "system_version sd dmc = dmc TString ''system_version'' []"

definition system_chain :: "('j, 'v) serde \<Rightarrow> ('j, 'v, 's) rpc_client \<Rightarrow> 's \<Rightarrow> (jsonrpsee_error + 'v) \<times> 's" where
  "system_chain sd dmc = dmc TString ''system_chain'' []"

definition system_properties :: "('j, 'v) serde \<Rightarrow> ('j, 'v, 's) rpc_client \<Rightarrow> 's \<Rightarrow> (jsonrpsee_error + 'v) \<times> 's" where
  "system_properties sd dmc = dmc TProperties ''system_properties'' []"

definition system_health :: "('j, 'v) serde \<Rightarrow> ('j, 'v, 's) rpc_client \<Rightarrow> 's \<Rightarrow> (jsonrpsee_error + 'v) \<times> 's" where
  "system_health sd dmc = dmc THealth ''system_health'' []"

definition nonce :: "('j, 'v) serde \<Rightarrow> ('j, 'v, 's) rpc_client \<Rightarrow> 'v \<Rightarrow> 's \<Rightarrow> (jsonrpsee_error + 'v) \<times> 's" where
  "nonce sd dmc account = dmc TU32 ''system_accountNextIndex'' [to_json sd TAccountId account]"

definition block :: "('j, 'v) serde \<Rightarrow> ('j, 'v, 's) rpc_client \<Rightarrow> 'v \<Rightarrow> 's \<Rightarrow> (jsonrpsee_error + 'v) \<times> 's" where
  "block sd dmc hash = dmc (TOption TSignedBlock) ''chain_getBlock'' [to_json sd (TOption THash) hash]"

definition header :: "('j, 'v) serde \<Rightarrow> ('j, 'v, 's) rpc_client \<Rightarrow> 'v \<Rightarrow> 's \<Rightarrow> (jsonrpsee_error + 'v) \<times> 's" where
  "header sd dmc hash = dmc (TOption THeader) ''chain_getHeader'' [to_json sd (TOption THash) hash]"

definition block_hash :: "('j, 'v) serde \<Rightarrow> ('j, 'v, 's) rpc_client \<Rightarrow> 'v \<Rightarrow> 's \<Rightarrow> (jsonrpsee_error + 'v) \<times> 's" where
  "block_hash sd dmc hash =
     dmc (TListOrValue (TOption THash)) ''chain_getBlockHash''
       [to_json sd (TOption (TListOrValue TNumberOrHex)) hash]"

definition finalized_head :: "('j, 'v) serde \<Rightarrow> ('j, 'v, 's) rpc_client \<Rightarrow> 's \<Rightarrow> (jsonrpsee_error + 'v) \<times> 's" where
  "finalized_head sd dmc = dmc THash ''chain_getFinalizedHead'' []"

definition submit_extrinsic :: "('j, 'v) serde \<Rightarrow> ('j, 'v, 's) rpc_client \<Rightarrow> 'v \<Rightarrow> 's \<Rightarrow> (jsonrpsee_error + 'v) \<times> 's" where
  "submit_extrinsic sd dmc extrinsic = dmc THash ''author_submitExtrinsic'' [to_json sd TBytes extrinsic]"

definition pending_extrinsics :: "('j, 'v) serde \<Rightarrow> ('j, 'v, 's) rpc_client \<Rightarrow> 's \<Rightarrow> (jsonrpsee_error + 'v) \<times> 's" where
  "pending_extrinsics sd dmc = dmc (TVec TBytes) ''author_pendingExtrinsics'' []"

section \<open>The subscription handlers\<close>

record 'j subscription_request =
  sub_method :: string
  sub_params :: "'j list"
  sub_item :: rust_type
  unsub_method :: string

definition subscribe_storage :: "('j, 'v) serde \<Rightarrow> 'v \<Rightarrow> 'j subscription_request" where
  "subscribe_storage sd ks = \<lparr>sub_method = ''state_subscribeStorage'', sub_params = [to_json sd (TOption (TVec TStorageKey)) ks],
     sub_item = TStorageChangeSet THash, unsub_method = ''state_unsubscribeStorage''\<rparr>"

definition subscribe_runtime_version :: "'j subscription_request" where
  "subscribe_runtime_version = \<lparr>sub_method = ''state_subscribeRuntimeVersion'', sub_params = [],
     sub_item = TRuntimeVersion, unsub_method = ''state_unsubscribeRuntimeVersion''\<rparr>"

definition subscribe_all_heads :: "'j subscription_request" where
  "subscribe_all_heads = \<lparr>sub_method = ''chain_subscribeAllHeads'', sub_params = [],
     sub_item = THeader, unsub_method = ''chain_unsubscribeAllHeads''\<rparr>"

definition subscribe_new_heads :: "'j subscription_request" where
  "subscribe_new_heads = \<lparr>sub_method = ''chain_subscribeNewHeads'', sub_params = [],
     sub_item = THeader, unsub_method = ''chain_unsubscribeNewHeads''\<rparr>"

definition subscribe_finalized_heads :: "'j subscription_request" where
  "subscribe_finalized_heads = \<lparr>sub_method = ''chain_subscribeFinalizedHeads'', sub_params = [],
     sub_item = THeader, unsub_method = ''chain_unsubscribeFinalizedHeads''\<rparr>"

definition watch_extrinsic :: "('j, 'v) serde \<Rightarrow> 'v \<Rightarrow> 'j subscription_request" where
  "watch_extrinsic sd bytes = \<lparr>sub_method = ''author_submitAndWatchExtrinsic'', sub_params = [to_json sd TBytes bytes],
     sub_item = TTransactionStatus THash THash, unsub_method = ''author_unwatchExtrinsic''\<rparr>"

section \<open>The declared interface\<close>

text \<open>
  The trait: of each method the name of its function, the name and the aliases under which it is
  registered, the types of its parameters and of its result.
\<close>

record method_decl =
  m_fn :: string
  m_name :: string
  m_aliases :: "string list"
  m_params :: "rust_type list"
  m_result :: rust_type

definition relay_api_methods :: "method_decl list" where
  "relay_api_methods = [
     \<lparr>m_fn = ''call'', m_name = ''state_call'', m_aliases = [''state_callAt''],
      m_params = [TString, TBytes, TOption THash], m_result = TBytes\<rparr>,
     \<lparr>m_fn = ''storage_pairs'', m_name = ''state_getPairs'', m_aliases = [],
      m_params = [TStorageKey, TOption THash], m_result = TVec (TPair TStorageKey TStorageData)\<rparr>,
     \<lparr>m_fn = ''storage_keys_paged'', m_name = ''state_getKeysPaged'', m_aliases = [''state_getKeysPagedAt''],
      m_params = [TOption TStorageKey, TU32, TOption TStorageKey, TOption THash], m_result = TVec TStorageKey\<rparr>,
     \<lparr>m_fn = ''storage'', m_name = ''state_getStorage'', m_aliases = [''state_getStorageAt''],
      m_params = [TStorageKey, TOption THash], m_result = TOption TStorageData\<rparr>,
     \<lparr>m_fn = ''storage_hash'', m_name = ''state_getStorageHash'', m_aliases = [''state_getStorageHashAt''],
      m_params = [TStorageKey, TOption THash], m_result = TOption THash\<rparr>,
     \<lparr>m_fn = ''storage_size'', m_name = ''state_getStorageSize'', m_aliases = [''state_getStorageSizeAt''],
      m_params = [TStorageKey, TOption THash], m_result = TOption TU64\<rparr>,
     \<lparr>m_fn = ''metadata'', m_name = ''state_getMetadata'', m_aliases = [],
      m_params = [TOption THash], m_result = TBytes\<rparr>,
     \<lparr>m_fn = ''runtime_version'', m_name = ''state_getRuntimeVersion'', m_aliases = [''chain_getRuntimeVersion''],
      m_params = [TOption THash], m_result = TRuntimeVersion\<rparr>,
     \<lparr>m_fn = ''query_storage'', m_name = ''state_queryStorage'', m_aliases = [],
      m_params = [TVec TStorageKey, THash, TOption THash], m_result = TVec (TStorageChangeSet THash)\<rparr>,
     \<lparr>m_fn = ''query_storage_at'', m_name = ''state_queryStorageAt'', m_aliases = [],
      m_params = [TVec TStorageKey, TOption THash], m_result = TVec (TStorageChangeSet THash)\<rparr>,
     \<lparr>m_fn = ''trace_block'', m_name = ''state_traceBlock'', m_aliases = [],
      m_params = [THash, TOption TString, TOption TString, TOption TString], m_result = TTraceBlockResponse\<rparr>,
     \<lparr>m_fn = ''system_name'', m_name = ''system_name'', m_aliases = [],
      m_params = [], m_result = TString\<rparr>,
     \<lparr>m_fn = ''system_version'', m_name = ''system_version'', m_aliases = [],
      m_params = [], m_result = TString\<rparr>,
     \<lparr>m_fn = ''system_chain'', m_name = ''system_chain'', m_aliases = [],
      m_params = [], m_result = TString\<rparr>,
     \<lparr>m_fn = ''system_properties'', m_name = ''system_properties'', m_aliases = [],
      m_params = [], m_result = TProperties\<rparr>,
     \<lparr>m_fn = ''system_health'', m_name = ''system_health'', m_aliases = [],
      m_params = [], m_result = THealth\<rparr>,
     \<lparr>m_fn = ''nonce'', m_name = ''system_accountNextIndex'', m_aliases = [''account_nextIndex''],
      m_params = [TAccountId], m_result = TU32\<rparr>,
     \<lparr>m_fn = ''block'', m_name = ''chain_getBlock'', m_aliases = [],
      m_params = [TOption THash], m_result = TOption TSignedBlock\<rparr>,
     \<lparr>m_fn = ''header'', m_name = ''chain_getHeader'', m_aliases = [],
      m_params = [TOption THash], m_result = TOption THeader\<rparr>,
     \<lparr>m_fn = ''block_hash'', m_name = ''chain_getBlockHash'', m_aliases = [''chain_getHead''],
      m_params = [TOption (TListOrValue TNumberOrHex)], m_result = TListOrValue (TOption THash)\<rparr>,
     \<lparr>m_fn = ''finalized_head'', m_name = ''chain_getFinalizedHead'', m_aliases = [''chain_getFinalisedHead''],
      m_params = [], m_result = THash\<rparr>,
     \<lparr>m_fn = ''submit_extrinsic'', m_name = ''author_submitExtrinsic'', m_aliases = [],
      m_params = [TBytes], m_result = THash\<rparr>,
     \<lparr>m_fn = ''pending_extrinsics'', m_name = ''author_pendingExtrinsics'', m_aliases = [],
      m_params = [], m_result = TVec TBytes\<rparr>]"

record subscription_decl =
  s_fn :: string
  s_name :: string
  s_notification :: string
  s_aliases :: "string list"
  s_unsubscribe :: string
  s_unsubscribe_aliases :: "string list"
  s_params :: "rust_type list"
  s_item :: rust_type

definition relay_api_subscriptions :: "subscription_decl list" where
  "relay_api_subscriptions = [
     \<lparr>s_fn = ''subscribe_runtime_version'', s_name = ''state_subscribeRuntimeVersion'', s_notification = ''state_runtimeVersion'',
      s_aliases = [''chain_subscribeRuntimeVersion''], s_unsubscribe = ''state_unsubscribeRuntimeVersion'',
      s_unsubscribe_aliases = [''chain_unsubscribeRuntimeVersion''], s_params = [], s_item = TRuntimeVersion\<rparr>,
     \<lparr>s_fn = ''subscribe_storage'', s_name = ''state_subscribeStorage'', s_notification = ''state_storage'',
      s_aliases = [], s_unsubscribe = ''state_unsubscribeStorage'',
      s_unsubscribe_aliases = [], s_params = [TOption (TVec TStorageKey)], s_item = TStorageChangeSet THash\<rparr>,
     \<lparr>s_fn = ''subscribe_all_heads'', s_name = ''chain_subscribeAllHeads'', s_notification = ''chain_allHead'',
      s_aliases = [], s_unsubscribe = ''chain_unsubscribeAllHeads'',
      s_unsubscribe_aliases = [], s_params = [], s_item = THeader\<rparr>,
     \<lparr>s_fn = ''subscribe_new_heads'', s_name = ''chain_subscribeNewHeads'', s_notification = ''chain_newHead'',
      s_aliases = [''subscribe_newHead'', ''chain_subscribeNewHead''], s_unsubscribe = ''chain_unsubscribeNewHeads'',
      s_unsubscribe_aliases = [''unsubscribe_newHead'', ''chain_unsubscribeNewHead''], s_params = [], s_item = THeader\<rparr>,
     \<lparr>s_fn = ''subscribe_finalized_heads'', s_name = ''chain_subscribeFinalizedHeads'', s_notification = ''chain_finalizedHead'',
      s_aliases = [''chain_subscribeFinalisedHeads''], s_unsubscribe = ''chain_unsubscribeFinalizedHeads'',
      s_unsubscribe_aliases = [''chain_unsubscribeFinalisedHeads''], s_params = [], s_item = THeader\<rparr>,
     \<lparr>s_fn = ''watch_extrinsic'', s_name = ''author_submitAndWatchExtrinsic'', s_notification = ''author_extrinsicUpdate'',
      s_aliases = [], s_unsubscribe = ''author_unwatchExtrinsic'',
      s_unsubscribe_aliases = [], s_params = [TBytes], s_item = TTransactionStatus THash THash\<rparr>]"

section \<open>The implementation of the interface\<close>

text \<open>
  The block \<open>impl MantaRelayApiServer for MantaRpcRelayServer\<close>: the function of a name, applied to its
  arguments; there is none for another name or another number of arguments.
\<close>

fun relay_impl ::
  "('j, 'v) serde \<Rightarrow> ('j, 'v, 's) rpc_client \<Rightarrow> string \<Rightarrow> 'v list \<Rightarrow> 's \<Rightarrow> ((jsonrpsee_error + 'v) \<times> 's) option" where
  "relay_impl sd dmc fn [a, b, c, e] st =
     (if fn = ''storage_keys_paged'' then Some (storage_keys_paged sd dmc a b c e st)
      else if fn = ''trace_block'' then Some (trace_block sd dmc a b c e st)
      else None)"
| "relay_impl sd dmc fn [a, b, c] st =
     (if fn = ''call'' then Some (relay_call sd dmc a b c st)
      else if fn = ''query_storage'' then Some (query_storage sd dmc a b c st)
      else None)"
| "relay_impl sd dmc fn [a, b] st =
     (if fn = ''storage_pairs'' then Some (storage_pairs sd dmc a b st)
      else if fn = ''storage'' then Some (storage sd dmc a b st)
      else if fn = ''storage_hash'' then Some (storage_hash sd dmc a b st)
      else if fn = ''storage_size'' then Some (storage_size sd dmc a b st)
      else if fn = ''query_storage_at'' then Some (query_storage_at sd dmc a b st)
      else None)"
| "relay_impl sd dmc fn [a] st =
     (if fn = ''metadata'' then Some (metadata sd dmc a st)
      else if fn = ''runtime_version'' then Some (runtime_version sd dmc a st)
      else if fn = ''nonce'' then Some (nonce sd dmc a st)
      else if fn = ''block'' then Some (block sd dmc a st)
      else if fn = ''header'' then Some (header sd dmc a st)
      else if fn = ''block_hash'' then Some (block_hash sd dmc a st)
      else if fn = ''submit_extrinsic'' then Some (submit_extrinsic sd dmc a st)
      else None)"
| "relay_impl sd dmc fn [] st =
     (if fn = ''system_name'' then Some (system_name sd dmc st)
      else if fn = ''system_version'' then Some (system_version sd dmc st)
      else if fn = ''system_chain'' then Some (system_chain sd dmc st)
      else if fn = ''system_properties'' then Some (system_properties sd dmc st)
      else if fn = ''system_health'' then Some (system_health sd dmc st)
      else if fn = ''finalized_head'' then Some (finalized_head sd dmc st)
      else if fn = ''pending_extrinsics'' then Some (pending_extrinsics sd dmc st)
      else None)"
| "relay_impl sd dmc fn _ st = None"

fun subscription_impl :: "('j, 'v) serde \<Rightarrow> string \<Rightarrow> 'v list \<Rightarrow> 'j subscription_request option" where
  "subscription_impl sd fn [a] =
     (if fn = ''subscribe_storage'' then Some (subscribe_storage sd a)
      else if fn = ''watch_extrinsic'' then Some (watch_extrinsic sd a)
      else None)"
| "subscription_impl sd fn [] =
     (if fn = ''subscribe_runtime_version'' then Some subscribe_runtime_version
      else if fn = ''subscribe_all_heads'' then Some subscribe_all_heads
      else if fn = ''subscribe_new_heads'' then Some subscribe_new_heads
      else if fn = ''subscribe_finalized_heads'' then Some subscribe_finalized_heads
      else None)"
| "subscription_impl sd fn _ = None"

section \<open>Properties\<close>

lemmas handler_defs = relay_call_def storage_pairs_def storage_keys_paged_def storage_def storage_hash_def
  storage_size_def metadata_def runtime_version_def query_storage_def query_storage_at_def trace_block_def
  system_name_def system_version_def system_chain_def system_properties_def system_health_def nonce_def
  block_def header_def block_hash_def finalized_head_def submit_extrinsic_def pending_extrinsics_def

lemmas subscription_defs = subscribe_runtime_version_def subscribe_storage_def subscribe_all_heads_def
  subscribe_new_heads_def subscribe_finalized_heads_def watch_extrinsic_def

definition all_method_names :: "string list" where
  "all_method_names = concat (map (\<lambda>m. m_name m # m_aliases m) relay_api_methods)"

definition all_subscription_names :: "string list" where
  "all_subscription_names = concat (map (\<lambda>s. s_name s # s_aliases s @ s_unsubscribe s # s_unsubscribe_aliases s)
     relay_api_subscriptions)"

lemma distinct_all_names: "distinct (all_method_names @ all_subscription_names)"
  by (simp add: all_method_names_def all_subscription_names_def relay_api_methods_def relay_api_subscriptions_def)

lemma relay_impl_forwards:
  assumes "m \<in> set relay_api_methods" and "length args = length (m_params m)"
  shows "relay_impl sd dmc (m_fn m) args st = Some (dmc (m_result m) (m_name m) (map2 (to_json sd) (m_params m) args) st)"
  using assms by (auto simp: relay_api_methods_def handler_defs length_Suc_conv)

text \<open>
  The documented behaviour of the client: it sends one request over the wire, and decodes an answer
  into the expected type; an answer that does not decode is a parse error.
\<close>

definition decodes_answers ::
  "('j, 'v) serde \<Rightarrow> ('j, 'v, 's) rpc_client \<Rightarrow> (string \<Rightarrow> 'j list \<Rightarrow> 's \<Rightarrow> (jsonrpsee_error + 'j) \<times> 's) \<Rightarrow> bool" where
  "decodes_answers sd dmc wire \<longleftrightarrow> (\<forall>t name params st. dmc t name params st =
     (case wire name params st of
        (Inl e, st') \<Rightarrow> (Inl e, st')
      | (Inr j, st') \<Rightarrow> (map_err ParseError (from_json sd t j), st')))"

text \<open>A JSON value that decoding and encoding give back, and the value that it decodes to.\<close>

definition canonical :: "('j, 'v) serde \<Rightarrow> rust_type \<Rightarrow> 'j \<Rightarrow> 'v \<Rightarrow> bool" where
  "canonical sd t j v \<longleftrightarrow> from_json sd t j = Inr v \<and> to_json sd t v = j"

lemma canonical_params:
  "list_all2 (\<lambda>(t, j) v. canonical sd t j v) (zip ts js) args \<Longrightarrow> length js = length ts \<Longrightarrow>
    map2 (to_json sd) ts args = js \<and> length args = length ts"
proof (induction ts arbitrary: js args)
  case (Cons t ts)
  then show ?case
    by (cases js; cases args) (auto simp: canonical_def)
qed simp

lemma subscription_impl_forwards:
  assumes "d \<in> set relay_api_subscriptions" and "length args = length (s_params d)"
  shows "subscription_impl sd (s_fn d) args = Some \<lparr>sub_method = s_name d,
    sub_params = map2 (to_json sd) (s_params d) args, sub_item = s_item d, unsub_method = s_unsubscribe d\<rparr>"
  using assms by (auto simp: relay_api_subscriptions_def subscription_defs length_Suc_conv)

text \<open>
  C27. What the relay does with a request, for every declared method, all conversions of values and
  all arguments: the function that implements the method sends one request and no other to the
  node, under the name that is declared for the method, with the arguments in their declared order,
  encoded at their declared types, and returns the answer decoded at the declared type of the
  result, or the error; an answer that does not decode is a parse error. Where the conversions give
  the parameters of a request and the answer of the node back unchanged, the relay is transparent:
  the node sees these parameters, and the result encodes to its answer. A subscription reaches the pool
  under the two names of its declaration, with its encoded parameters and the declared item type.
\<close>

theorem relay_follows_declarations:
  assumes "decodes_answers sd dmc wire"
  shows "(\<forall>m \<in> set relay_api_methods. \<forall>args st. length args = length (m_params m) \<longrightarrow>
      relay_impl sd dmc (m_fn m) args st =
        Some (case wire (m_name m) (map2 (to_json sd) (m_params m) args) st of
            (Inl e, st') \<Rightarrow> (Inl e, st')
          | (Inr j, st') \<Rightarrow> (map_err ParseError (from_json sd (m_result m) j), st')) \<and>
      (\<forall>js j v st'. length js = length (m_params m) \<and>
        list_all2 (\<lambda>(t, j) v. canonical sd t j v) (zip (m_params m) js) args \<and>
        wire (m_name m) js st = (Inr j, st') \<and> canonical sd (m_result m) j v \<longrightarrow>
        relay_impl sd dmc (m_fn m) args st = Some (Inr v, st') \<and> to_json sd (m_result m) v = j)) \<and>
    (\<forall>d \<in> set relay_api_subscriptions. \<forall>args. length args = length (s_params d) \<longrightarrow>
      subscription_impl sd (s_fn d) args = Some \<lparr>sub_method = s_name d,
        sub_params = map2 (to_json sd) (s_params d) args, sub_item = s_item d, unsub_method = s_unsubscribe d\<rparr>)"
proof (intro conjI ballI allI impI, goal_cases)
  case (1 m args st)
  then show ?case
    using relay_impl_forwards [of m args sd dmc st] assms by (simp add: decodes_answers_def)
next
  case (2 m args st js j v st')
  then show ?case
    using relay_impl_forwards [of m args sd dmc st] assms canonical_params [of sd "m_params m" js args]
    by (auto simp: decodes_answers_def canonical_def)
next
  case (3 m args st js j v st')
  then show ?case by (simp add: canonical_def)
next
  case (4 d args)
  then show ?case by (rule subscription_impl_forwards)
qed

text \<open>Conversions that refuse an empty value, and a node that counts its requests and echoes the first parameter.\<close>

definition echo_serde :: "(string, string) serde" where
  "echo_serde = \<lparr>to_json = (\<lambda>t v. v), from_json = (\<lambda>t j. if j = [] then Inl ''expected value'' else Inr j)\<rparr>"

definition echo_wire :: "string \<Rightarrow> string list \<Rightarrow> nat \<Rightarrow> (jsonrpsee_error + string) \<times> nat" where
  "echo_wire name params n = (Inr (concat (take 1 params)), Suc n)"

definition echo_client :: "(string, string, nat) rpc_client" where
  "echo_client t name params n =
     (case echo_wire name params n of
        (Inl e, n') \<Rightarrow> (Inl e, n')
      | (Inr j, n') \<Rightarrow> (map_err ParseError (from_json echo_serde t j), n'))"

theorem relay_follows_declarations_witness:
  "relay_impl echo_serde echo_client ''storage_hash'' [''0x26aa'', ''null''] 7 = Some (Inr ''0x26aa'', 8) \<and>
   relay_impl echo_serde echo_client ''system_health'' [] 7 = Some (Inl (ParseError ''expected value''), 8)"
proof -
  have "decodes_answers echo_serde echo_client echo_wire"
    by (simp add: decodes_answers_def echo_client_def)
  note all = conjunct1 [OF relay_follows_declarations [OF this], rule_format, THEN conjunct1]
  have "\<lparr>m_fn = ''storage_hash'', m_name = ''state_getStorageHash'', m_aliases = [''state_getStorageHashAt''],
      m_params = [TStorageKey, TOption THash], m_result = TOption THash\<rparr> \<in> set relay_api_methods"
    "\<lparr>m_fn = ''system_health'', m_name = ''system_health'', m_aliases = [], m_params = [], m_result = THealth\<rparr>
      \<in> set relay_api_methods"
    by (simp_all add: relay_api_methods_def)
  from all [OF this(1), of "[''0x26aa'', ''null'']" 7] all [OF this(2), of "[]" 7]
  show ?thesis by (simp add: echo_wire_def echo_serde_def map_err_def del: relay_impl.simps)
qed

end
