(* ===== verification/Sub_Client_Pool.thy ===== *)
theory Sub_Client_Pool
  imports Relay
begin

text \<open>
  \<open>src/relayer/sub_client_pool.rs\<close>: the pool of clients behind the subscriptions, and the tasks
  that relay a subscription of the node to the subscriber.

  The pool keeps one client per connection of a subscriber. Building a client and subscribing at
  the node are jobs for a worker thread, sent through a bounded channel; \<open>backend\<close> is what the
  outside contributes to one call: whether the channel takes a job, whether the worker answers, and
  the results of the jobs. A call is one operation here; theory \<open>Pool_Worker\<close> has the calls overlap. A
  spawned task starts later; its start, each message of the node and its end are steps of their own.
\<close>

section \<open>The pool\<close>

type_synonym conn_id = nat

record 'cl sub_pool =
  backend_uri :: string
  clients :: "conn_id \<rightharpoonup> 'cl"

datatype worker_job = Build_Client | Subscribe

record ('cl, 'j) backend =
  queue_accepts :: "worker_job \<Rightarrow> bool"
  worker_answers :: "worker_job \<Rightarrow> bool"
  build_client :: "string \<Rightarrow> string + 'cl"
  client_subscribe :: "'cl \<Rightarrow> 'j subscription_request \<Rightarrow> string + unit"

definition new_pool :: "string \<Rightarrow> 'cl sub_pool" where
  "new_pool uri = \<lparr>backend_uri = uri, clients = (\<lambda>_. None)\<rparr>"

text \<open>A job that is sent to the worker and whose answer is awaited (\<open>try_send(..)?\<close> and \<open>recv()??\<close>).\<close>

definition run_job :: "('cl, 'j) backend \<Rightarrow> worker_job \<Rightarrow> string \<Rightarrow> string + 'a \<Rightarrow> anyhow_error + 'a" where
  "run_job be job what r =
     (if \<not> queue_accepts be job then Inl (Other ''send failed because channel is full'')
      else if \<not> worker_answers be job then Inl (Other ''receiving on an empty and disconnected channel'')
      else map_err (\<lambda>e. Other (what @ e)) r)"

definition get_client :: "('cl, 'j) backend \<Rightarrow> 'cl sub_pool \<Rightarrow> conn_id \<Rightarrow> (anyhow_error + 'cl) \<times> 'cl sub_pool" where
  "get_client be pool conn =
     (case clients pool conn of
        None \<Rightarrow> (case run_job be Build_Client ''MtoM client creation fail: '' (build_client be (backend_uri pool)) of
            Inl e \<Rightarrow> (Inl e, pool)
          | Inr client \<Rightarrow> (Inr client, pool\<lparr>clients := (clients pool)(conn \<mapsto> client)\<rparr>))
      | Some client \<Rightarrow> (Inr client, pool))"

text \<open>
  \<open>subscribe\<close>: the key of the accepted sink gives the connection; on success a relaying task is
  spawned, which is the returned pair of connection and client.
\<close>

definition subscribe ::
  "('cl, 'j) backend \<Rightarrow> 'cl sub_pool \<Rightarrow> conn_id option \<Rightarrow> 'j subscription_request \<Rightarrow>
   (anyhow_error + conn_id \<times> 'cl) \<times> 'cl sub_pool" where
  "subscribe be pool sub_keys req =
     (case sub_keys of
        None \<Rightarrow> (Inl (Other ''''), pool)
      | Some conn \<Rightarrow>
          (case get_client be pool conn of
             (Inl e, pool') \<Rightarrow> (Inl e, pool')
           | (Inr client, pool') \<Rightarrow>
               (bindE (run_job be Subscribe ''new client subscribe fail: '' (client_subscribe be client req)) (\<lambda>_.
                  Inr (conn, client)), pool')))"

text \<open>
  The relay server (\<open>relay_server.rs\<close>): one client for the direct methods, named by its URL, and the
  pool. \<open>connect\<close> is \<open>create_ws_client\<close>.
\<close>

record 'cl manta_rpc_relay_server =
  dmc_uri :: string
  sub_clients :: "'cl sub_pool"

definition relay_server_new ::
  "(string \<Rightarrow> anyhow_error + unit) \<Rightarrow> string \<Rightarrow> anyhow_error + 'cl manta_rpc_relay_server" where
  "relay_server_new connect full_node =
     bindE (connect full_node) (\<lambda>_. Inr \<lparr>dmc_uri = full_node, sub_clients = new_pool full_node\<rparr>)"

section \<open>The relaying tasks\<close>

datatype subscription_closed = Success | RemotePeerAborted | Failed string

text \<open>With which object the sink is closed at the end of the stream.\<close>

fun close_object :: "subscription_closed \<Rightarrow> subscription_closed option" where
  "close_object Success = Some Success"
| "close_object RemotePeerAborted = None"
| "close_object (Failed e) = Some (Failed e)"

record 'cl relay_state =
  rs_pool :: "'cl sub_pool"
  spawned :: "(conn_id \<times> 'cl) list"
  piping :: "(conn_id \<times> 'cl) list"
  relaying_sub_channel_num :: int
  delivered :: "(conn_id \<times> string) list"
  sinks_closed :: "(conn_id \<times> subscription_closed) list"

definition initial_relay_state :: "string \<Rightarrow> 'cl relay_state" where
  "initial_relay_state uri = \<lparr>rs_pool = new_pool uri, spawned = [], piping = [], relaying_sub_channel_num = 0,
     delivered = [], sinks_closed = []\<rparr>"

definition do_subscribe ::
  "('cl, 'j) backend \<Rightarrow> conn_id option \<Rightarrow> 'j subscription_request \<Rightarrow> 'cl relay_state \<Rightarrow> 'cl relay_state" where
  "do_subscribe be sub_keys req st =
     (case subscribe be (rs_pool st) sub_keys req of
        (Inl e, pool) \<Rightarrow> st\<lparr>rs_pool := pool\<rparr>
      | (Inr task, pool) \<Rightarrow> st\<lparr>rs_pool := pool, spawned := spawned st @ [task]\<rparr>)"

definition start_task :: "conn_id \<times> 'cl \<Rightarrow> 'cl relay_state \<Rightarrow> 'cl relay_state" where
  "start_task task st = st\<lparr>spawned := remove1 task (spawned st), piping := task # piping st,
     relaying_sub_channel_num := relaying_sub_channel_num st + 1\<rparr>"

text \<open>
  A message of the node's subscription: one that does not decode is dropped by the \<open>filter_map\<close> in
  front of the pipe, any other is sent to the sink. A message is taken in its serialised form.
\<close>

definition pipe_message :: "conn_id \<times> 'cl \<Rightarrow> string + string \<Rightarrow> 'cl relay_state \<Rightarrow> 'cl relay_state" where
  "pipe_message task msg st =
     (case msg of Inl e \<Rightarrow> st | Inr m \<Rightarrow> st\<lparr>delivered := delivered st @ [(fst task, m)]\<rparr>)"

definition end_task :: "conn_id \<times> 'cl \<Rightarrow> subscription_closed \<Rightarrow> 'cl relay_state \<Rightarrow> 'cl relay_state" where
  "end_task task r st = st\<lparr>piping := remove1 task (piping st),
     relaying_sub_channel_num := relaying_sub_channel_num st - 1,
     sinks_closed := (case close_object r of None \<Rightarrow> sinks_closed st | Some obj \<Rightarrow> sinks_closed st @ [(fst task, obj)])\<rparr>"

text \<open>A JSON value is taken in its serialised form here.\<close>

inductive relay_step :: "'cl relay_state \<Rightarrow> 'cl relay_state \<Rightarrow> bool" where
  step_subscribe: "relay_step st (do_subscribe (be :: ('cl, string) backend) sub_keys req st)"
| step_start: "task \<in> set (spawned st) \<Longrightarrow> relay_step st (start_task task st)"
| step_message: "task \<in> set (piping st) \<Longrightarrow> relay_step st (pipe_message task msg st)"
| step_end: "task \<in> set (piping st) \<Longrightarrow> relay_step st (end_task task r st)"

inductive relay_reachable :: "string \<Rightarrow> 'cl relay_state \<Rightarrow> bool" for uri where
  initially: "relay_reachable uri (initial_relay_state uri)"
| later: "relay_reachable uri st \<Longrightarrow> relay_step st st' \<Longrightarrow> relay_reachable uri st'"

section \<open>Lemmas\<close>

lemma get_client_spec:
  assumes "get_client be pool conn = (r, pool')"
  shows "clients pool \<subseteq>\<^sub>m clients pool'" and "r = Inr cl \<Longrightarrow> clients pool' conn = Some cl"
    and "backend_uri pool' = backend_uri pool"
  using assms by (auto simp: get_client_def map_le_def split: option.splits sum.splits)

lemma subscribe_spec:
  assumes "subscribe be pool sub_keys req = (r, pool')"
  shows "clients pool \<subseteq>\<^sub>m clients pool'"
    and "r = Inr (conn, cl) \<Longrightarrow> sub_keys = Some conn \<and> clients pool' conn = Some cl"
proof -
  show "clients pool \<subseteq>\<^sub>m clients pool'"
    using assms get_client_spec(1) by (fastforce simp: subscribe_def split: option.splits sum.splits prod.splits)
  show "sub_keys = Some conn \<and> clients pool' conn = Some cl" if "r = Inr (conn, cl)"
    using assms that get_client_spec(2)
    by (fastforce simp: subscribe_def bindE_eq_Inr split: option.splits sum.splits prod.splits)
qed

text \<open>
  The invariant: the gauge counts the tasks that relay, every task uses the client that the pool
  keeps for its connection, and messages went to connections of the pool only.
\<close>

definition pool_serves :: "'cl sub_pool \<Rightarrow> (conn_id \<times> 'cl) set \<Rightarrow> (conn_id \<times> string) list \<Rightarrow> bool" where
  "pool_serves pool tasks msgs \<longleftrightarrow> (\<forall>(conn, cl) \<in> tasks. clients pool conn = Some cl) \<and>
     fst ` set msgs \<subseteq> dom (clients pool)"

definition relay_inv :: "'cl relay_state \<Rightarrow> bool" where
  "relay_inv st \<longleftrightarrow> relaying_sub_channel_num st = int (length (piping st)) \<and>
     pool_serves (rs_pool st) (set (spawned st) \<union> set (piping st)) (delivered st)"

lemma pool_serves_subset: "pool_serves pool ts ms \<Longrightarrow> ts' \<subseteq> ts \<Longrightarrow> pool_serves pool ts' ms"
  by (auto simp: pool_serves_def)

lemma pool_serves_grow:
  assumes "pool_serves pool ts ms" and "clients pool \<subseteq>\<^sub>m clients pool'"
  shows "pool_serves pool' ts ms"
  unfolding pool_serves_def
proof (intro conjI ballI)
  fix t assume "t \<in> ts"
  then have "clients pool (fst t) = Some (snd t)"
    using assms(1) by (auto simp: pool_serves_def)
  then have "clients pool' (fst t) = Some (snd t)"
    using assms(2) by (metis domI map_le_def)
  then show "case t of (conn, cl) \<Rightarrow> clients pool' conn = Some cl" by (simp add: split_beta)
next
  show "fst ` set ms \<subseteq> dom (clients pool')"
    using assms map_le_implies_dom_le [OF assms(2)] unfolding pool_serves_def by (meson order_trans)
qed

lemma pool_serves_insert:
  "pool_serves pool (insert t ts) ms \<longleftrightarrow> clients pool (fst t) = Some (snd t) \<and> pool_serves pool ts ms"
  by (auto simp: pool_serves_def)

lemma do_subscribe_inv:
  assumes "relay_inv st"
  shows "relay_inv (do_subscribe be sub_keys req st) \<and> clients (rs_pool st) \<subseteq>\<^sub>m clients (rs_pool (do_subscribe be sub_keys req st))"
proof -
  obtain r pool where r: "subscribe be (rs_pool st) sub_keys req = (r, pool)" by fastforce
  note mono = subscribe_spec(1) [OF r]
  have serves: "pool_serves pool (set (spawned st) \<union> set (piping st)) (delivered st)"
    using pool_serves_grow [OF _ mono] assms by (simp add: relay_inv_def)
  show ?thesis
  proof (cases r)
    case (Inl e)
    then show ?thesis
      using r mono serves assms by (simp add: relay_inv_def do_subscribe_def)
  next
    case (Inr task)
    then have "clients pool (fst task) = Some (snd task)"
      using subscribe_spec(2) [OF r, of "fst task" "snd task"] by simp
    then show ?thesis
      using Inr r mono serves assms by (simp add: relay_inv_def do_subscribe_def pool_serves_insert)
  qed
qed

lemma relay_step_inv:
  assumes "relay_step st st'" and "relay_inv st"
  shows "relay_inv st' \<and> clients (rs_pool st) \<subseteq>\<^sub>m clients (rs_pool st')"
  using assms(1)
proof (cases rule: relay_step.cases)
  case (step_subscribe be sub_keys req)
  then show ?thesis using do_subscribe_inv [OF assms(2)] by simp
next
  case (step_start task)
  have "set (remove1 task (spawned st)) \<union> set (task # piping st) \<subseteq> set (spawned st) \<union> set (piping st)"
    using step_start(2) set_remove1_subset [of task "spawned st"] by auto
  then show ?thesis
    using step_start(1) assms(2) pool_serves_subset by (fastforce simp: relay_inv_def start_task_def)
next
  case (step_message task msg)
  then have "clients (rs_pool st) (fst task) = Some (snd task)"
    using assms(2) by (auto simp: relay_inv_def pool_serves_def)
  then show ?thesis
    using step_message assms(2)
    by (cases msg) (auto simp: relay_inv_def pipe_message_def pool_serves_def)
next
  case (step_end task r)
  have "set (spawned st) \<union> set (remove1 task (piping st)) \<subseteq> set (spawned st) \<union> set (piping st)"
    using set_remove1_subset [of task "piping st"] by auto
  moreover have "int (length (remove1 task (piping st))) = int (length (piping st)) - 1"
    using step_end(2) length_pos_if_in_set [of task "piping st"]
    by (auto simp: length_remove1 of_nat_diff Suc_le_eq)
  ultimately show ?thesis
    using step_end(1) assms(2) pool_serves_subset by (fastforce simp: relay_inv_def end_task_def)
qed

text \<open>The invariant holds in every reachable state; theory \<open>Pool_Worker\<close> carries it over to calls that overlap.\<close>

lemma initial_relay_inv: "relay_inv (initial_relay_state uri)"
  by (simp add: relay_inv_def pool_serves_def initial_relay_state_def)

lemma relay_reachable_inv: "relay_reachable uri st \<Longrightarrow> relay_inv st"
  by (induction rule: relay_reachable.induct) (auto simp: initial_relay_inv dest: relay_step_inv)

definition demo_backend :: "(nat, string) backend" where
  "demo_backend = \<lparr>queue_accepts = (\<lambda>_. True), worker_answers = (\<lambda>_. True), build_client = (\<lambda>uri. Inr 77),
     client_subscribe = (\<lambda>_ _. Inr ())\<rparr>"

end
