(* ===== verification/Pool_Worker.thy ===== *)
theory Pool_Worker
  imports Sub_Client_Pool
begin

text \<open>
  The pool of \<open>src/relayer/sub_client_pool.rs\<close> with its worker thread. A call of \<open>subscribe\<close> runs on the
  thread of its connection and blocks on the channel of a job; many calls are in progress at a time,
  and one worker executes their jobs in the order in which they were sent. Theory \<open>Sub_Client_Pool\<close>
  has a call as one atomic operation; here its parts are steps of their own, and the atomic system is
  the specification that they refine.

  The channel is that of \<open>futures\<close>: its capacity is the buffer plus one slot for each sender, and every
  send uses a new sender, so that a send fails only when the worker is gone. The argument
  \<open>serial\<close> of the step relation says whether the calls of one connection are known not to overlap; the
  invariant of the tasks and the order of service do not depend on it, the refinement does.
\<close>

section \<open>State\<close>

text \<open>A job carries the sending half of the channel of its call, which is named by the number of the call.\<close>

datatype 'cl job =
    Build_Job nat string
  | Subscribe_Job nat 'cl "string subscription_request"

primrec job_call :: "'cl job \<Rightarrow> nat" where
  "job_call (Build_Job i uri) = i"
| "job_call (Subscribe_Job i cl req) = i"

datatype 'cl answer = Client_Built "string + 'cl" | Subscribed "string + unit"

datatype 'cl waiting = For_Client | For_Subscription 'cl

record 'cl sub_call =
  call_conn :: conn_id
  call_req :: "string subscription_request"
  call_wait :: "'cl waiting"

record 'cl pool_system =
  relay :: "'cl relay_state"
  calls :: "nat \<rightharpoonup> 'cl sub_call"
  next_call :: nat
  queue :: "'cl job list"
  answers :: "nat \<rightharpoonup> 'cl answer"
  worker_alive :: bool
  outcomes :: "nat \<rightharpoonup> anyhow_error + unit"

definition initial_pool_system :: "string \<Rightarrow> 'cl pool_system" where
  "initial_pool_system uri = \<lparr>relay = initial_relay_state uri, calls = Map.empty, next_call = 0, queue = [],
     answers = Map.empty, worker_alive = True, outcomes = Map.empty\<rparr>"

section \<open>Operations\<close>

definition end_call :: "nat \<Rightarrow> anyhow_error + unit \<Rightarrow> 'cl pool_system \<Rightarrow> 'cl pool_system" where
  "end_call i r s = s\<lparr>calls := (calls s)(i := None), answers := (answers s)(i := None), outcomes := (outcomes s)(i \<mapsto> r)\<rparr>"

text \<open>\<open>async_runner_sender.clone().try_send(job)?\<close>, after which the call blocks on its channel.\<close>

definition send_job :: "nat \<Rightarrow> 'cl job \<Rightarrow> 'cl sub_call \<Rightarrow> 'cl pool_system \<Rightarrow> 'cl pool_system" where
  "send_job i job c s =
     (if worker_alive s
      then s\<lparr>queue := queue s @ [job], calls := (calls s)(i \<mapsto> c), answers := (answers s)(i := None)\<rparr>
      else end_call i (Inl (Other ''send failed because receiver is gone'')) s)"

definition ask_subscription :: "nat \<Rightarrow> conn_id \<Rightarrow> string subscription_request \<Rightarrow> 'cl \<Rightarrow> 'cl pool_system \<Rightarrow> 'cl pool_system" where
  "ask_subscription i conn req client s =
     send_job i (Subscribe_Job i client req) \<lparr>call_conn = conn, call_req = req, call_wait = For_Subscription client\<rparr> s"

text \<open>\<open>subscribe\<close> up to the first job; a known connection goes on with its client.\<close>

definition begin_subscribe :: "conn_id option \<Rightarrow> string subscription_request \<Rightarrow> 'cl pool_system \<Rightarrow> 'cl pool_system" where
  "begin_subscribe sub_keys req s =
     (let i = next_call s; s1 = s\<lparr>next_call := Suc i\<rparr>; pool = rs_pool (relay s)
      in case sub_keys of
           None \<Rightarrow> end_call i (Inl (Other '''')) s1
         | Some conn \<Rightarrow>
             (case clients pool conn of
                None \<Rightarrow> send_job i (Build_Job i (backend_uri pool)) \<lparr>call_conn = conn, call_req = req, call_wait = For_Client\<rparr> s1
              | Some client \<Rightarrow> ask_subscription i conn req client s1))"

text \<open>The worker: it executes the first job of the channel and sends the result to the call of the job.\<close>

primrec job_answer :: "('cl, string) backend \<Rightarrow> 'cl job \<Rightarrow> 'cl answer" where
  "job_answer be (Build_Job i uri) = Client_Built (map_err (\<lambda>e. ''MtoM client creation fail: '' @ e) (build_client be uri))"
| "job_answer be (Subscribe_Job i client req) =
     Subscribed (map_err (\<lambda>e. ''new client subscribe fail: '' @ e) (client_subscribe be client req))"

definition run_worker :: "('cl, string) backend \<Rightarrow> 'cl pool_system \<Rightarrow> 'cl pool_system" where
  "run_worker be s = (case queue s of
      [] \<Rightarrow> s
    | job # jobs \<Rightarrow> s\<lparr>queue := jobs, answers := (answers s)(job_call job \<mapsto> job_answer be job)\<rparr>)"

text \<open>A panic in a job ends the worker, and all jobs of the channel are dropped.\<close>

definition kill_worker :: "'cl pool_system \<Rightarrow> 'cl pool_system" where
  "kill_worker s = s\<lparr>worker_alive := False, queue := []\<rparr>"

text \<open>\<open>rx.recv()??\<close> in \<open>get_client\<close> and in \<open>subscribe\<close>, and what follows it.\<close>

definition receive_answer :: "nat \<Rightarrow> 'cl sub_call \<Rightarrow> 'cl answer \<Rightarrow> 'cl pool_system \<Rightarrow> 'cl pool_system" where
  "receive_answer i c a s =
     (case (call_wait c, a) of
        (For_Client, Client_Built (Inl e)) \<Rightarrow> end_call i (Inl (Other e)) s
      | (For_Client, Client_Built (Inr client)) \<Rightarrow>
          (let pool = rs_pool (relay s); pool' = pool\<lparr>clients := (clients pool)(call_conn c \<mapsto> client)\<rparr>
           in ask_subscription i (call_conn c) (call_req c) client (s\<lparr>relay := (relay s)\<lparr>rs_pool := pool'\<rparr>\<rparr>))
      | (For_Subscription client, Subscribed (Inl e)) \<Rightarrow> end_call i (Inl (Other e)) s
      | (For_Subscription client, Subscribed (Inr _)) \<Rightarrow>
          end_call i (Inr ()) (s\<lparr>relay := (relay s)\<lparr>spawned := spawned (relay s) @ [(call_conn c, client)]\<rparr>\<rparr>)
      | _ \<Rightarrow> s)"

definition disconnected :: "nat \<Rightarrow> 'cl pool_system \<Rightarrow> bool" where
  "disconnected i s \<longleftrightarrow> answers s i = None \<and> i \<notin> job_call ` set (queue s)"

section \<open>Steps\<close>

inductive pool_step :: "bool \<Rightarrow> 'cl pool_system \<Rightarrow> 'cl pool_system \<Rightarrow> bool" for serial where
  p_begin: "(\<And>i c conn. serial \<Longrightarrow> sub_keys = Some conn \<Longrightarrow> calls s i = Some c \<Longrightarrow> call_conn c \<noteq> conn) \<Longrightarrow>
    pool_step serial s (begin_subscribe sub_keys req s)"
| p_worker: "worker_alive s \<Longrightarrow> pool_step serial s (run_worker be s)"
| p_panic: "pool_step serial s (kill_worker s)"
| p_receive: "calls s i = Some c \<Longrightarrow> answers s i = Some a \<Longrightarrow> pool_step serial s (receive_answer i c a s)"
| p_disconnected: "calls s i = Some c \<Longrightarrow> disconnected i s \<Longrightarrow>
    pool_step serial s (end_call i (Inl (Other ''receiving on an empty and disconnected channel'')) s)"
| p_start: "task \<in> set (spawned (relay s)) \<Longrightarrow> pool_step serial s (s\<lparr>relay := start_task task (relay s)\<rparr>)"
| p_message: "task \<in> set (piping (relay s)) \<Longrightarrow> pool_step serial s (s\<lparr>relay := pipe_message task msg (relay s)\<rparr>)"
| p_end: "task \<in> set (piping (relay s)) \<Longrightarrow> pool_step serial s (s\<lparr>relay := end_task task r (relay s)\<rparr>)"

inductive pool_reachable :: "bool \<Rightarrow> string \<Rightarrow> 'cl pool_system \<Rightarrow> bool" for serial uri where
  p_init: "pool_reachable serial uri (initial_pool_system uri)"
| p_next: "pool_reachable serial uri s \<Longrightarrow> pool_step serial s s' \<Longrightarrow> pool_reachable serial uri s'"

section \<open>Every call has one job or one answer\<close>

text \<open>
  What belongs to a waiting call: the job that was sent for it fits what it waits for, and so does an
  answer. The channel has at most one job of a call, and none beside an answer.
\<close>

fun job_fits :: "'cl sub_call \<Rightarrow> 'cl job \<Rightarrow> bool" where
  "job_fits c (Build_Job i uri) \<longleftrightarrow> call_wait c = For_Client"
| "job_fits c (Subscribe_Job i cl req) \<longleftrightarrow> call_wait c = For_Subscription cl \<and> call_req c = req"

fun answer_fits :: "'cl sub_call \<Rightarrow> 'cl answer \<Rightarrow> bool" where
  "answer_fits c (Client_Built r) \<longleftrightarrow> call_wait c = For_Client"
| "answer_fits c (Subscribed r) \<longleftrightarrow> (\<exists>cl. call_wait c = For_Subscription cl)"

definition jobs_inv :: "'cl pool_system \<Rightarrow> bool" where
  "jobs_inv s \<longleftrightarrow> distinct (map job_call (queue s)) \<and> (\<forall>job \<in> set (queue s). \<exists>c. calls s (job_call job) = Some c \<and> job_fits c job) \<and>
     (\<forall>i a. answers s i = Some a \<longrightarrow> i \<notin> job_call ` set (queue s) \<and> (\<exists>c. calls s i = Some c \<and> answer_fits c a)) \<and>
     (\<forall>i c. calls s i = Some c \<longrightarrow> i < next_call s \<and> (worker_alive s \<longrightarrow> \<not> disconnected i s))"

lemma job_answer_fits: "job_fits c job \<Longrightarrow> answer_fits c (job_answer be job)"
  by (cases job) auto

lemma jobs_inv_relay [simp]: "jobs_inv (s\<lparr>relay := r\<rparr>) = jobs_inv s"
  by (simp add: jobs_inv_def disconnected_def)

lemma end_call_inv: "jobs_inv s \<Longrightarrow> i \<notin> job_call ` set (queue s) \<Longrightarrow> jobs_inv (end_call i r s)"
  unfolding jobs_inv_def end_call_def disconnected_def by (auto split: if_splits)

lemma send_job_inv:
  assumes "jobs_inv s" and "i \<notin> job_call ` set (queue s)" and "job_call job = i" and "job_fits c job" and "i < next_call s"
  shows "jobs_inv (send_job i job c s)"
proof (cases "worker_alive s")
  case True
  moreover have "\<forall>j \<in> set (queue s). job_call j \<noteq> i"
    using assms(2) by blast
  ultimately show ?thesis
    using assms(1,3-5) unfolding jobs_inv_def send_job_def disconnected_def by (auto split: if_splits)
next
  case False
  then show ?thesis
    using end_call_inv [OF assms(1,2)] by (simp add: send_job_def)
qed

lemma jobs_inv_new: "jobs_inv s \<Longrightarrow> next_call s \<notin> job_call ` set (queue s)"
  by (fastforce simp: jobs_inv_def)

lemma jobs_inv_next [simp]: "jobs_inv s \<Longrightarrow> jobs_inv (s\<lparr>next_call := Suc (next_call s)\<rparr>)"
  by (auto simp: jobs_inv_def disconnected_def less_Suc_eq)

lemma begin_subscribe_inv: "jobs_inv s \<Longrightarrow> jobs_inv (begin_subscribe sub_keys req s)"
  using jobs_inv_new [of s]
  by (auto simp: begin_subscribe_def ask_subscription_def Let_def intro!: end_call_inv send_job_inv split: option.split)

lemma run_worker_inv:
  assumes "jobs_inv s"
  shows "jobs_inv (run_worker be s)"
proof (cases "queue s")
  case (Cons job jobs)
  then obtain c where "calls s (job_call job) = Some c" "job_fits c job"
    using assms by (auto simp: jobs_inv_def)
  then show ?thesis
    using assms Cons job_answer_fits [of c job be] unfolding jobs_inv_def run_worker_def disconnected_def
    by (auto split: if_splits)
qed (use assms in \<open>simp add: run_worker_def\<close>)

lemma receive_answer_inv:
  assumes "jobs_inv s" and "calls s i = Some c" and "answers s i = Some a"
  shows "jobs_inv (receive_answer i c a s)"
proof -
  have "i \<notin> job_call ` set (queue s)" "i < next_call s"
    using assms by (auto simp: jobs_inv_def)
  then show ?thesis
    using assms(1) by (auto simp: receive_answer_def ask_subscription_def Let_def intro!: end_call_inv send_job_inv
        split: waiting.split answer.split sum.split)
qed

lemma pool_step_jobs_inv: "pool_step serial s s' \<Longrightarrow> jobs_inv s \<Longrightarrow> jobs_inv s'"
proof (induction rule: pool_step.induct)
  case (p_panic s)
  then show ?case by (auto simp: jobs_inv_def kill_worker_def disconnected_def)
qed (auto simp: begin_subscribe_inv run_worker_inv receive_answer_inv disconnected_def intro: end_call_inv)

lemma pool_reachable_jobs_inv: "pool_reachable serial uri s \<Longrightarrow> jobs_inv s"
proof (induction rule: pool_reachable.induct)
  case p_init
  show ?case by (simp add: jobs_inv_def initial_pool_system_def)
qed (rule pool_step_jobs_inv)

section \<open>The atomic system is refined\<close>

text \<open>
  Calls of one connection do not overlap: a call that waits for a client belongs to a connection
  without one, and a call that waits for a subscription uses the client that the pool keeps.
\<close>

fun wait_fits :: "'cl option \<Rightarrow> 'cl waiting \<Rightarrow> bool" where
  "wait_fits kept For_Client \<longleftrightarrow> kept = None"
| "wait_fits kept (For_Subscription cl) \<longleftrightarrow> kept = Some cl"

definition serial_inv :: "'cl pool_system \<Rightarrow> bool" where
  "serial_inv s \<longleftrightarrow>
     (\<forall>i j c c'. calls s i = Some c \<longrightarrow> calls s j = Some c' \<longrightarrow> call_conn c = call_conn c' \<longrightarrow> i = j) \<and>
     (\<forall>i c. calls s i = Some c \<longrightarrow> wait_fits (clients (rs_pool (relay s)) (call_conn c)) (call_wait c))"

lemma serial_inv_calls:
  assumes "serial_inv s" and "calls s' \<subseteq>\<^sub>m calls s" and "clients (rs_pool (relay s')) = clients (rs_pool (relay s))"
  shows "serial_inv s'"
proof -
  have "calls s i = Some c" if "calls s' i = Some c" for i c
    using that assms(2) by (metis domI map_le_def)
  then show ?thesis
    using assms(1,3) unfolding serial_inv_def by metis
qed

lemma end_call_serial: "serial_inv s \<Longrightarrow> serial_inv (end_call i r s)"
  by (rule serial_inv_calls) (auto simp: end_call_def map_le_def)

text \<open>A call that sends a job: no other call of its connection is in progress.\<close>

lemma send_job_serial:
  assumes "serial_inv (s\<lparr>calls := (calls s)(i := None)\<rparr>)" and "\<And>j c'. calls s j = Some c' \<Longrightarrow> call_conn c' = call_conn c \<Longrightarrow> j = i"
    and "wait_fits (clients (rs_pool (relay s)) (call_conn c)) (call_wait c)"
  shows "serial_inv (send_job i job c s)"
proof (cases "worker_alive s")
  case True
  have unique: "j = k" if "j \<noteq> i" "k \<noteq> i" "calls s j = Some c1" "calls s k = Some c2" "call_conn c1 = call_conn c2" for j k c1 c2
    using conjunct1 [OF assms(1) [unfolded serial_inv_def], rule_format, of j c1 k c2] that by simp
  have others: "wait_fits (clients (rs_pool (relay s)) (call_conn c1)) (call_wait c1)" if "j \<noteq> i" "calls s j = Some c1" for j c1
    using conjunct2 [OF assms(1) [unfolded serial_inv_def], rule_format, of j c1] that by simp
  show ?thesis
    unfolding serial_inv_def
  proof (intro conjI allI impI)
    fix j k c1 c2
    assume "calls (send_job i job c s) j = Some c1" "calls (send_job i job c s) k = Some c2" "call_conn c1 = call_conn c2"
    then show "j = k"
      using True unique [of j k c1 c2] assms(2) [of j c1] assms(2) [of k c2]
      by (simp add: send_job_def split: if_splits)
  next
    fix j c1 assume "calls (send_job i job c s) j = Some c1"
    then show "wait_fits (clients (rs_pool (relay (send_job i job c s))) (call_conn c1)) (call_wait c1)"
      using True others [of j c1] assms(3) by (simp add: send_job_def split: if_splits)
  qed
next
  case False
  then show ?thesis
    using end_call_serial [OF assms(1), of i] by (simp add: send_job_def end_call_def)
qed

lemma begin_subscribe_serial:
  assumes "serial_inv s" and "\<And>i c conn. sub_keys = Some conn \<Longrightarrow> calls s i = Some c \<Longrightarrow> call_conn c \<noteq> conn"
  shows "serial_inv (begin_subscribe sub_keys req s)"
proof -
  have "serial_inv (s\<lparr>next_call := k\<rparr>)" "serial_inv (s\<lparr>next_call := k, calls := (calls s)(i := None)\<rparr>)" for i k
    by (auto intro!: serial_inv_calls [OF assms(1)] simp: map_le_def)
  then show ?thesis
    using assms(2) by (auto simp: begin_subscribe_def ask_subscription_def Let_def intro!: end_call_serial send_job_serial
        split: option.split)
qed

text \<open>
  A receive is one step of the atomic system or leaves it as it is. The client of a connection is
  stored by a call whose second job the worker does not take, and a task is spawned by a call that
  finds the client.
\<close>

lemma insert_client_step:
  assumes "clients (rs_pool st) conn = None"
  shows "relay_step st (st\<lparr>rs_pool := (rs_pool st)\<lparr>clients := (clients (rs_pool st))(conn \<mapsto> client)\<rparr>\<rparr>)"
  using step_subscribe [of st "\<lparr>queue_accepts = (\<lambda>job. job = Build_Client), worker_answers = (\<lambda>_. True),
      build_client = (\<lambda>_. Inr client), client_subscribe = (\<lambda>_ _. Inr ())\<rparr>" "Some conn"] assms
  by (simp add: do_subscribe_def subscribe_def get_client_def run_job_def)

lemma spawn_step:
  assumes "clients (rs_pool st) conn = Some client"
  shows "relay_step st (st\<lparr>spawned := spawned st @ [(conn, client)]\<rparr>)"
  using step_subscribe [of st "\<lparr>queue_accepts = (\<lambda>_. True), worker_answers = (\<lambda>_. True),
      build_client = (\<lambda>_. Inl []), client_subscribe = (\<lambda>_ _. Inr ())\<rparr>" "Some conn"] assms
  by (simp add: do_subscribe_def subscribe_def get_client_def run_job_def)

lemma relay_of_calls [simp]:
  "relay (end_call i r s) = relay s" "relay (send_job i job c s) = relay s" "relay (ask_subscription i conn req cl s) = relay s"
  "relay (begin_subscribe sub_keys req s) = relay s" "relay (run_worker be s) = relay s" "relay (kill_worker s) = relay s"
  by (simp_all add: end_call_def send_job_def ask_subscription_def begin_subscribe_def run_worker_def kill_worker_def Let_def
      split: option.split list.split)

lemma receive_answer_refines:
  assumes "serial_inv s" and "jobs_inv s" and "calls s i = Some c" and "answers s i = Some a"
  shows "serial_inv (receive_answer i c a s)"
    and "relay (receive_answer i c a s) = relay s \<or> relay_step (relay s) (relay (receive_answer i c a s))"
proof -
  have wait: "wait_fits (clients (rs_pool (relay s)) (call_conn c)) (call_wait c)"
    and alone: "\<And>j c'. calls s j = Some c' \<Longrightarrow> call_conn c' = call_conn c \<Longrightarrow> j = i"
    using assms(1,3) by (auto simp: serial_inv_def)
  have fits: "answer_fits c a"
    using assms(2-4) unfolding jobs_inv_def by (metis option.inject)
  show "relay (receive_answer i c a s) = relay s \<or> relay_step (relay s) (relay (receive_answer i c a s))"
    using wait fits insert_client_step [of "relay s" "call_conn c"] spawn_step [of "relay s" "call_conn c"]
    by (cases a) (auto simp: receive_answer_def Let_def split: sum.split)
  have inserted: "serial_inv (s\<lparr>relay := (relay s)\<lparr>rs_pool := (rs_pool (relay s))\<lparr>clients :=
      (clients (rs_pool (relay s)))(call_conn c \<mapsto> client)\<rparr>\<rparr>, calls := (calls s)(i := None)\<rparr>)" for client
    using assms(1) alone unfolding serial_inv_def by (auto split: if_splits)
  have other_relay: "serial_inv (s\<lparr>relay := (relay s)\<lparr>spawned := ts\<rparr>\<rparr>)" for ts
    by (rule serial_inv_calls [OF assms(1)]) simp_all
  show "serial_inv (receive_answer i c a s)"
    using wait fits inserted alone assms(1)
    by (cases a) (auto simp: receive_answer_def ask_subscription_def Let_def intro!: end_call_serial send_job_serial other_relay split: sum.split)
qed

lemma pool_of_tasks [simp]:
  "rs_pool (start_task task st) = rs_pool st" "rs_pool (pipe_message task msg st) = rs_pool st" "rs_pool (end_task task r st) = rs_pool st"
  by (simp_all add: start_task_def pipe_message_def end_task_def split: sum.split)

lemma pool_step_refines:
  assumes "pool_step True s s'" and "serial_inv s" and "jobs_inv s"
  shows "serial_inv s' \<and> (relay s' = relay s \<or> relay_step (relay s) (relay s'))"
  using assms(1)
proof (cases rule: pool_step.cases)
  case (p_begin sub_keys req)
  then show ?thesis using begin_subscribe_serial [OF assms(2)] by simp
next
  case (p_worker be)
  then show ?thesis
    using serial_inv_calls [OF assms(2), of s'] by (simp add: run_worker_def split: list.split)
next
  case p_panic
  then show ?thesis
    using serial_inv_calls [OF assms(2), of s'] by (simp add: kill_worker_def)
next
  case (p_receive i c a)
  then show ?thesis using receive_answer_refines [OF assms(2,3)] by simp
next
  case (p_disconnected i c)
  then show ?thesis using end_call_serial [OF assms(2)] by simp
next
  case (p_start task)
  then show ?thesis
    using serial_inv_calls [OF assms(2), of s'] by (simp add: step_start)
next
  case (p_message task msg)
  then show ?thesis
    using serial_inv_calls [OF assms(2), of s'] by (simp add: step_message)
next
  case (p_end task r)
  then show ?thesis
    using serial_inv_calls [OF assms(2), of s'] by (simp add: step_end)
qed

lemma pool_reachable_refines:
  "pool_reachable True uri s \<Longrightarrow> serial_inv s \<and> relay_reachable uri (relay s)"
proof (induction rule: pool_reachable.induct)
  case p_init
  show ?case by (simp add: serial_inv_def initial_pool_system_def relay_reachable.initially)
next
  case (p_next s s')
  then show ?case
    using pool_step_refines [OF p_next(2) _ pool_reachable_jobs_inv [OF p_next(1)]] by (metis relay_reachable.later)
qed

section \<open>What holds with overlapping calls too\<close>

definition tasks_inv :: "'cl pool_system \<Rightarrow> bool" where
  "tasks_inv s \<longleftrightarrow> relaying_sub_channel_num (relay s) = int (length (piping (relay s))) \<and>
     fst ` (set (spawned (relay s)) \<union> set (piping (relay s))) \<subseteq> dom (clients (rs_pool (relay s))) \<and>
     fst ` set (delivered (relay s)) \<subseteq> dom (clients (rs_pool (relay s))) \<and>
     (\<forall>i c cl. calls s i = Some c \<longrightarrow> call_wait c = For_Subscription cl \<longrightarrow> call_conn c \<in> dom (clients (rs_pool (relay s))))"

lemma end_call_tasks: "tasks_inv s \<Longrightarrow> tasks_inv (end_call i r s)"
  by (auto simp: tasks_inv_def end_call_def split: if_splits)

lemma send_job_tasks:
  assumes "tasks_inv s" and "\<And>cl. call_wait c = For_Subscription cl \<Longrightarrow> call_conn c \<in> dom (clients (rs_pool (relay s)))"
  shows "tasks_inv (send_job i job c s)"
  using assms end_call_tasks [OF assms(1)] by (auto simp: tasks_inv_def send_job_def split: if_splits)

lemma begin_subscribe_tasks:
  assumes "tasks_inv s"
  shows "tasks_inv (begin_subscribe sub_keys req s)"
proof -
  have "tasks_inv (s\<lparr>next_call := k\<rparr>)" for k using assms by (simp add: tasks_inv_def)
  then show ?thesis
    by (auto simp: begin_subscribe_def ask_subscription_def Let_def intro!: end_call_tasks send_job_tasks split: option.split)
qed

lemma receive_answer_tasks:
  assumes "tasks_inv s" and "calls s i = Some c"
  shows "tasks_inv (receive_answer i c a s)"
    and "dom (clients (rs_pool (relay s))) \<subseteq> dom (clients (rs_pool (relay (receive_answer i c a s))))"
proof -
  have stored: "tasks_inv (s\<lparr>relay := (relay s)\<lparr>rs_pool := (rs_pool (relay s))\<lparr>clients :=
      (clients (rs_pool (relay s)))(conn \<mapsto> client)\<rparr>\<rparr>\<rparr>)" for conn client
    using assms(1) unfolding tasks_inv_def by auto
  have task: "tasks_inv (s\<lparr>relay := (relay s)\<lparr>spawned := spawned (relay s) @ [(call_conn c, client)]\<rparr>\<rparr>)"
    if "call_wait c = For_Subscription client" for client
    using assms that unfolding tasks_inv_def by auto
  show "tasks_inv (receive_answer i c a s)"
    using assms stored task by (auto simp: receive_answer_def ask_subscription_def Let_def intro!: end_call_tasks send_job_tasks
        split: waiting.split answer.split sum.split)
  show "dom (clients (rs_pool (relay s))) \<subseteq> dom (clients (rs_pool (relay (receive_answer i c a s))))"
    by (auto simp: receive_answer_def Let_def split: waiting.split answer.split sum.split)
qed

lemma running_task_tasks:
  assumes "tasks_inv s" and "task \<in> set (piping (relay s))"
  shows "tasks_inv (s\<lparr>relay := pipe_message task msg (relay s)\<rparr>)" and "tasks_inv (s\<lparr>relay := end_task task r (relay s)\<rparr>)"
proof -
  show "tasks_inv (s\<lparr>relay := pipe_message task msg (relay s)\<rparr>)"
    using assms by (cases msg) (auto simp: tasks_inv_def pipe_message_def)
  have "int (length (remove1 task (piping (relay s)))) = int (length (piping (relay s))) - 1"
    using assms(2) length_pos_if_in_set [of task "piping (relay s)"] by (auto simp: length_remove1 of_nat_diff Suc_le_eq)
  then show "tasks_inv (s\<lparr>relay := end_task task r (relay s)\<rparr>)"
    using assms(1) set_remove1_subset [of task "piping (relay s)"] unfolding tasks_inv_def end_task_def by auto
qed

lemma pool_step_tasks:
  assumes "pool_step serial s s'" and "tasks_inv s"
  shows "tasks_inv s' \<and> dom (clients (rs_pool (relay s))) \<subseteq> dom (clients (rs_pool (relay s')))"
  using assms(1)
proof (cases rule: pool_step.cases)
  case (p_begin sub_keys req)
  then show ?thesis using begin_subscribe_tasks [OF assms(2)] by simp
next
  case (p_worker be)
  then show ?thesis using assms(2) by (auto simp: tasks_inv_def run_worker_def split: list.split)
next
  case p_panic
  then show ?thesis using assms(2) by (simp add: tasks_inv_def kill_worker_def)
next
  case (p_receive i c a)
  then show ?thesis using receive_answer_tasks [OF assms(2) p_receive(2)] by simp
next
  case (p_disconnected i c)
  then show ?thesis using end_call_tasks [OF assms(2)] by simp
next
  case (p_start task)
  have "set (remove1 task (spawned (relay s))) \<union> set (task # piping (relay s)) \<subseteq> set (spawned (relay s)) \<union> set (piping (relay s))"
    using p_start(2) set_remove1_subset [of task "spawned (relay s)"] by auto
  then show ?thesis
    using p_start(1) assms(2) unfolding tasks_inv_def start_task_def by auto
next
  case (p_message task msg)
  then show ?thesis using running_task_tasks(1) [OF assms(2)] by simp
next
  case (p_end task r)
  then show ?thesis using running_task_tasks(2) [OF assms(2)] by simp
qed

lemma pool_reachable_tasks: "pool_reachable serial uri s \<Longrightarrow> tasks_inv s"
proof (induction rule: pool_reachable.induct)
  case p_init
  show ?case by (simp add: tasks_inv_def initial_pool_system_def initial_relay_state_def)
next
  case (p_next s s')
  then show ?case using pool_step_tasks by blast
qed

section \<open>The worker serves in order\<close>

lemma answer_kept: "i \<notin> job_call ` set (queue s) \<Longrightarrow> answers (fold run_worker bes s) i = answers s i"
proof (induction bes arbitrary: s)
  case (Cons be bes)
  then show ?case
    using Cons.IH [of "run_worker be s"] by (cases "queue s") (auto simp: run_worker_def)
qed simp

lemma answer_in_turn:
  assumes "distinct (map job_call (queue s))" and "k < length (queue s)" and "answers s (job_call (queue s ! k)) = None"
  shows "answers (fold run_worker bes s) (job_call (queue s ! k)) =
    (if k < length bes then Some (job_answer (bes ! k) (queue s ! k)) else None)"
  using assms
proof (induction bes arbitrary: s k)
  case (Cons be bes)
  then obtain job jobs where q: "queue s = job # jobs"
    by (cases "queue s") auto
  define s1 where "s1 = run_worker be s"
  have s1: "queue s1 = jobs" "answers s1 = (answers s)(job_call job \<mapsto> job_answer be job)"
    by (simp_all add: s1_def run_worker_def q)
  show ?case
  proof (cases k)
    case 0
    then show ?thesis
      using answer_kept [of "job_call job" s1 bes] Cons.prems(1) s1 by (simp add: q s1_def)
  next
    case (Suc m)
    then have "job_call (jobs ! m) \<noteq> job_call job" "distinct (map job_call jobs)" "m < length jobs"
      using Cons.prems(1,2) q by (auto dest: image_eqI [OF sym nth_mem])
    then show ?thesis
      using Cons.IH [of s1 m] Cons.prems(3) Suc s1 by (simp add: q s1_def)
  qed
qed simp

text \<open>A step takes at most the first job from the channel, and new jobs go to its end.\<close>

lemma send_job_queue: "\<exists>js. queue (send_job i job c s) = queue s @ js"
  by (simp add: send_job_def end_call_def)

lemma ask_subscription_queue: "\<exists>js. queue (ask_subscription i conn req cl s) = queue s @ js"
  unfolding ask_subscription_def by (rule send_job_queue)

lemma begin_subscribe_queue: "\<exists>js. queue (begin_subscribe sub_keys req s) = queue s @ js"
  using send_job_queue [where s = "s\<lparr>next_call := Suc (next_call s)\<rparr>"] ask_subscription_queue [where s = "s\<lparr>next_call := Suc (next_call s)\<rparr>"]
  by (auto simp: begin_subscribe_def Let_def end_call_def split: option.split)

lemma receive_answer_queue: "\<exists>js. queue (receive_answer i c a s) = queue s @ js"
  using ask_subscription_queue [where s = "s\<lparr>relay := r\<rparr>" for r]
  by (auto simp: receive_answer_def Let_def end_call_def split: waiting.split answer.split sum.split)

lemma pool_step_queue:
  assumes "pool_step serial s s'" and "worker_alive s'"
  shows "\<exists>n js. n \<le> 1 \<and> queue s' = drop n (queue s) @ js"
proof -
  have "(\<exists>js. queue s' = queue s @ js) \<or> queue s' = drop 1 (queue s)"
    using assms
    by (cases rule: pool_step.cases)
      (auto simp: begin_subscribe_queue receive_answer_queue run_worker_def kill_worker_def end_call_def split: list.splits)
  then show ?thesis
    by (elim disjE exE) (auto intro: exI [of _ "0 :: nat"] exI [of _ "1 :: nat"])
qed

lemma waiting_call_turn:
  assumes "pool_reachable serial uri s" and "worker_alive s" and "calls s i = Some c"
  shows "(\<exists>a. answers s i = Some a \<and> answer_fits c a) \<or>
    (\<exists>k < length (queue s). job_call (queue s ! k) = i \<and> job_fits c (queue s ! k) \<and>
      (\<forall>bes. answers (fold run_worker bes s) i = (if k < length bes then Some (job_answer (bes ! k) (queue s ! k)) else None)))"
proof (cases "answers s i")
  case None
  note inv = pool_reachable_jobs_inv [OF assms(1), unfolded jobs_inv_def]
  have "i \<in> job_call ` set (queue s)"
    using inv assms(2,3) None by (auto simp: disconnected_def)
  then obtain k where k: "k < length (queue s)" "job_call (queue s ! k) = i"
    by (auto simp: in_set_conv_nth)
  moreover have "job_fits c (queue s ! k)"
    using inv assms(3) k nth_mem [OF k(1)] by fastforce
  ultimately show ?thesis
    using answer_in_turn [OF conjunct1 [OF inv] k(1)] None by auto
next
  case (Some a)
  then show ?thesis
    using pool_reachable_jobs_inv [OF assms(1)] assms(3) by (fastforce simp: jobs_inv_def)
qed

section \<open>Properties\<close>

text \<open>
  C28. The pool with its worker, whether or not calls of one connection overlap: in every state that the
  calls, the worker and its end, and the relaying tasks can reach, the gauge is the number of relaying
  tasks, every task belongs to a connection with a client in the pool, messages went to such connections
  only, and no step takes the client of a connection away without putting one in its place. If, in
  addition, the calls of one connection do not overlap (\<open>serial\<close>), the pool refines the one with atomic
  calls: this part of the state is one that atomic calls reach, each task uses the very client that the
  pool keeps for its connection, a call that waits for a client belongs to a connection without one, a
  call that waits for its subscription uses the client of its connection, and no step replaces a client.
\<close>

theorem worker_pool_refines:
  assumes "pool_reachable serial uri s" and "pool_step serial s s'"
  shows "relaying_sub_channel_num (relay s) = int (length (piping (relay s))) \<and>
    fst ` (set (spawned (relay s)) \<union> set (piping (relay s))) \<subseteq> dom (clients (rs_pool (relay s))) \<and>
    fst ` set (delivered (relay s)) \<subseteq> dom (clients (rs_pool (relay s))) \<and>
    dom (clients (rs_pool (relay s))) \<subseteq> dom (clients (rs_pool (relay s'))) \<and>
    (serial \<longrightarrow> relay_reachable uri (relay s) \<and>
      (\<forall>(conn, cl) \<in> set (spawned (relay s)) \<union> set (piping (relay s)). clients (rs_pool (relay s)) conn = Some cl) \<and>
      (\<forall>i c. calls s i = Some c \<longrightarrow> wait_fits (clients (rs_pool (relay s)) (call_conn c)) (call_wait c)) \<and>
      clients (rs_pool (relay s)) \<subseteq>\<^sub>m clients (rs_pool (relay s')))"
proof -
  have any: "tasks_inv s" "dom (clients (rs_pool (relay s))) \<subseteq> dom (clients (rs_pool (relay s')))"
    using pool_step_tasks [OF assms(2)] pool_reachable_tasks [OF assms(1)] by blast+
  have one: "relay_reachable uri (relay s) \<and> serial_inv s \<and> relay_inv (relay s) \<and>
      clients (rs_pool (relay s)) \<subseteq>\<^sub>m clients (rs_pool (relay s'))" if serial
  proof -
    have *: "pool_reachable True uri s" "pool_step True s s'" using assms that by simp_all
    have inv: "serial_inv s" "relay_reachable uri (relay s)"
      using pool_reachable_refines [OF *(1)] by simp_all
    note relay = relay_reachable_inv [OF inv(2)]
    have "relay s' = relay s \<or> relay_step (relay s) (relay s')"
      using pool_step_refines [OF *(2) inv(1) pool_reachable_jobs_inv [OF *(1)]] by simp
    then show ?thesis
      using inv relay relay_step_inv [OF _ relay] by auto
  qed
  show ?thesis
    using any one by (simp add: tasks_inv_def relay_inv_def pool_serves_def serial_inv_def)
qed

text \<open>Two connections subscribe; the calls overlap in the channel of the worker.\<close>

definition overlapping :: "conn_id \<Rightarrow> nat pool_system" where
  "overlapping conn = begin_subscribe (Some conn) subscribe_all_heads
     (begin_subscribe (Some 4) subscribe_new_heads (initial_pool_system ''ws://127.0.0.1:9800''))"

lemma overlapping_reachable: "serial \<longrightarrow> conn \<noteq> 4 \<Longrightarrow> pool_reachable serial ''ws://127.0.0.1:9800'' (overlapping conn)"
  unfolding overlapping_def
  by (rule p_next [OF p_next [OF p_init p_begin] p_begin])
    (auto simp: begin_subscribe_def send_job_def initial_pool_system_def initial_relay_state_def new_pool_def split: if_splits)

lemma overlapping_queue:
  "queue (overlapping conn) = [Build_Job 0 ''ws://127.0.0.1:9800'', Build_Job 1 ''ws://127.0.0.1:9800'']"
  "calls (overlapping conn) = [0 \<mapsto> \<lparr>call_conn = 4, call_req = subscribe_new_heads, call_wait = For_Client\<rparr>,
     1 \<mapsto> \<lparr>call_conn = conn, call_req = subscribe_all_heads, call_wait = For_Client\<rparr>]"
  "answers (overlapping conn) = Map.empty" "worker_alive (overlapping conn)"
  by (auto simp: overlapping_def begin_subscribe_def send_job_def initial_pool_system_def initial_relay_state_def new_pool_def Let_def)

theorem worker_pool_refines_witness:
  "clients (rs_pool (relay (overlapping 5))) \<subseteq>\<^sub>m clients (rs_pool (relay (run_worker demo_backend (overlapping 5)))) \<and>
   relay_reachable ''ws://127.0.0.1:9800'' (relay (overlapping 5))"
  using worker_pool_refines [OF overlapping_reachable p_worker [OF overlapping_queue(4)], of True 5] by simp

text \<open>
  C29. The worker serves the calls in the order of their jobs, each with the result of its own job: a call
  in progress has its answer already, or exactly one job of it is in the channel, and then it is
  answered by the worker exactly when the jobs in front of it and its own have been executed, whatever
  the node does in each of them. No step puts a job in front of another one that waits: it takes at
  most the first job away and sends new ones to the end. In particular a job that does not end delays all later calls, those
  of other connections, too.
\<close>

theorem jobs_served_in_order:
  assumes "pool_reachable serial uri s" and "worker_alive s" and "calls s i = Some c"
  shows "((\<exists>a. answers s i = Some a \<and> answer_fits c a) \<or>
    (\<exists>k < length (queue s). job_call (queue s ! k) = i \<and> job_fits c (queue s ! k) \<and>
      (\<forall>bes. answers (fold run_worker bes s) i = (if k < length bes then Some (job_answer (bes ! k) (queue s ! k)) else None)))) \<and>
    (\<forall>s'. pool_step serial s s' \<longrightarrow> worker_alive s' \<longrightarrow> (\<exists>n js. n \<le> 1 \<and> queue s' = drop n (queue s) @ js))"
  using waiting_call_turn [OF assms] pool_step_queue by blast

theorem jobs_served_in_order_witness:
  "answers (fold run_worker [demo_backend] (overlapping 5)) 1 = None \<and>
   answers (fold run_worker [demo_backend, demo_backend] (overlapping 5)) 1 \<noteq> None"
proof -
  have c: "calls (overlapping 5) 1 = Some \<lparr>call_conn = 5, call_req = subscribe_all_heads, call_wait = For_Client\<rparr>"
    by (simp add: overlapping_queue)
  obtain k where k: "k < length (queue (overlapping 5))" "job_call (queue (overlapping 5) ! k) = 1"
    "\<forall>bes. answers (fold run_worker bes (overlapping 5)) 1 =
      (if k < length bes then Some (job_answer (bes ! k) (queue (overlapping 5) ! k)) else None)"
    using jobs_served_in_order [OF overlapping_reachable overlapping_queue(4) c, of True] overlapping_queue(3) by auto
  then have "k = 1"
    by (cases k) (simp_all add: overlapping_queue)
  then show ?thesis
    using k(3) [rule_format, of "[demo_backend]"] k(3) [rule_format, of "[demo_backend, demo_backend]"] by simp
qed

text \<open>
  Without the assumption on \<open>jsonrpsee\<close> the pool can lose a client: \<open>contains_key\<close> and \<open>insert\<close> are two
  operations, two overlapping first calls of one connection build two clients, and the second
  replaces the first, which its task still uses.
\<close>

lemma overlapping_calls_replace_client:
  "\<exists>s. pool_reachable False ''ws://127.0.0.1:9800'' s \<and> (4, 1) \<in> set (spawned (relay s)) \<and> clients (rs_pool (relay s)) 4 = Some (2 :: nat)"
proof -
  define build :: "nat \<Rightarrow> (nat, string) backend" where "build cl = demo_backend\<lparr>build_client := (\<lambda>_. Inr cl)\<rparr>" for cl
  define call :: "string subscription_request \<Rightarrow> nat waiting \<Rightarrow> nat sub_call" where "call req w = \<lparr>call_conn = 4, call_req = req, call_wait = w\<rparr>" for req w
  define s1 where "s1 = run_worker (build 2) (run_worker (build 1) (overlapping 4))"
  define s2 where "s2 = receive_answer 1 (call subscribe_all_heads For_Client) (Client_Built (Inr 2))
    (receive_answer 0 (call subscribe_new_heads For_Client) (Client_Built (Inr 1)) s1)"
  define s3 where "s3 = receive_answer 0 (call subscribe_new_heads (For_Subscription 1)) (Subscribed (Inr ())) (run_worker demo_backend s2)"
  note defs = build_def call_def s1_def s2_def s3_def overlapping_def begin_subscribe_def send_job_def ask_subscription_def run_worker_def
    receive_answer_def end_call_def demo_backend_def initial_pool_system_def initial_relay_state_def new_pool_def Let_def
  have "pool_reachable False ''ws://127.0.0.1:9800'' s1"
    unfolding s1_def by (rule p_next [OF p_next [OF overlapping_reachable p_worker] p_worker]) (simp_all add: defs)
  then have "pool_reachable False ''ws://127.0.0.1:9800'' s2"
    unfolding s2_def by (rule p_next [OF p_next [OF _ p_receive] p_receive]) (simp_all add: defs)
  then have "pool_reachable False ''ws://127.0.0.1:9800'' s3"
    unfolding s3_def by (rule p_next [OF p_next [OF _ p_worker] p_receive]) (simp_all add: defs)
  moreover have "(4, 1) \<in> set (spawned (relay s3)) \<and> clients (rs_pool (relay s3)) 4 = Some 2"
    by (simp add: defs)
  ultimately show ?thesis by blast
qed

end
