(* ===== verification/Utils.thy ===== *)
theory Utils
  imports Ledger_Types
begin

text \<open>
  \<open>src/utils.rs\<close>: reading the configuration file, building a client for the full node, the checks on the
  node, and write-once statics. A TOML value is a tree. Opening and reading a file, the parser of the
  \<open>toml\<close> crate, the builder of \<open>jsonrpsee\<close> and the answers of the node are parameters.
\<close>

section \<open>Configuration values\<close>

datatype toml = TString string | TInteger int | TBoolean bool | TTable "(string \<times> toml) list"

text \<open>\<open>value[key]\<close> panics when there is no such key; \<open>as_str\<close> and \<open>as_integer\<close> check the type.\<close>

fun toml_index :: "toml \<Rightarrow> string \<Rightarrow> anyhow_error + toml" where
  "toml_index (TTable es) key = (case map_of es key of None \<Rightarrow> Inl (Panic ''index not found'') | Some v \<Rightarrow> Inr v)"
| "toml_index _ key = Inl (Panic ''index not found'')"

fun as_str :: "toml \<Rightarrow> string option" where
  "as_str (TString s) = Some s"
| "as_str _ = None"

fun as_integer :: "toml \<Rightarrow> int option" where
  "as_integer (TInteger i) = Some i"
| "as_integer _ = None"

section \<open>Files and clients\<close>

text \<open>
  \<open>open_file path\<close> is the result of opening a file; an open file is the result of reading it to the end
  as a string.
\<close>

definition read_config ::
  "(string \<Rightarrow> anyhow_error + (anyhow_error + string)) \<Rightarrow> (string \<Rightarrow> anyhow_error + toml) \<Rightarrow> string \<Rightarrow> anyhow_error + toml" where
  "read_config open_file parse CARGO_MANIFEST_DIR =
     bindE (open_file (CARGO_MANIFEST_DIR @ ''/conf/config.toml'')) (\<lambda>config.
     bindE config (\<lambda>contents.
     bindE (parse contents) (\<lambda>value.
       Inr value)))"

record ws_client_builder =
  connection_timeout_secs :: u64
  request_timeout_secs :: u64
  ping_interval_secs :: u64

definition create_ws_client :: "(ws_client_builder \<Rightarrow> string \<Rightarrow> anyhow_error + 'client) \<Rightarrow> string \<Rightarrow> anyhow_error + 'client" where
  "create_ws_client build url =
     build \<lparr>connection_timeout_secs = 3, request_timeout_secs = 3, ping_interval_secs = 15\<rparr> url"

section \<open>Write-once statics\<close>

record 'a once_static =
  inner :: "'a option"
  static_name :: string

definition once_new :: "string \<Rightarrow> 'a once_static" where
  "once_new name = \<lparr>inner = None, static_name = name\<rparr>"

definition once_init :: "'a once_static \<Rightarrow> anyhow_error + 'a \<Rightarrow> (anyhow_error + unit) \<times> 'a once_static" where
  "once_init self r =
     (case r of
        Inl e \<Rightarrow> (Inl e, self)
      | Inr v \<Rightarrow> (case inner self of
            None \<Rightarrow> (Inr (), self\<lparr>inner := Some v\<rparr>)
          | Some _ \<Rightarrow> (Inl (Panic (''global config '' @ static_name self @ '' init twice'')), self)))"

definition once_deref :: "'a once_static \<Rightarrow> anyhow_error + 'a" where
  "once_deref self = ok_or (Panic (''static wrapper '' @ static_name self @ '' not init yet.'')) (inner self)"

section \<open>Checks on the full node\<close>

text \<open>The requests are answered by parameters; a failed request of \<open>is_full_node\<close> panics.\<close>

definition is_full_node :: "jsonrpsee_error + string list \<Rightarrow> anyhow_error + bool" where
  "is_full_node roles = (case roles of
      Inl e \<Rightarrow> Inl (Panic ''Unknown roles.'')
    | Inr rs \<Rightarrow> Inr (list_ex (\<lambda>r. r = ''Full'') rs))"

definition is_the_rpc_methods_existed :: "jsonrpsee_error + string list \<Rightarrow> string \<Rightarrow> anyhow_error + bool" where
  "is_the_rpc_methods_existed methods rpc_method =
     bindE (map_err Jsonrpsee methods) (\<lambda>ms. Inr (list_ex (\<lambda>m. m = rpc_method) ms))"

definition is_full_node_started :: "jsonrpsee_error + string \<Rightarrow> jsonrpsee_error + string \<Rightarrow> anyhow_error + bool" where
  "is_full_node_started first_answer second_answer =
     bindE (map_err Jsonrpsee first_answer) (\<lambda>current_block.
     bindE (map_err Jsonrpsee second_answer) (\<lambda>latest_block.
       Inr (latest_block \<noteq> current_block)))"

end
