(* ===== verification/Service.thy ===== *)
theory Service
  imports Full_Node Indexer_Api Sub_Client_Pool Utils "HOL-Library.List_Lexorder" "HOL-Library.Char_ord"
begin

text \<open>
  \<open>src/service.rs\<close>, \<open>src/relayer/mod.rs\<close> (the server configuration) and \<open>bin/load_ledger_locally.rs\<close>:
  the settings, the start of the service with its checks, and the local loader.

  What the outside contributes to a start (files, the network, the registries of \<open>jsonrpsee\<close> and
  \<open>prometheus\<close>) is the record \<open>service_env\<close>. The relation of a port to a socket address and the logger
  are left out. Waiting for the first synchronisation may last forever, so that the start is a
  partial function into \<open>option\<close>.
\<close>

section \<open>Settings\<close>

definition config_section :: "toml \<Rightarrow> string \<Rightarrow> anyhow_error + toml" where
  "config_section config part = bindE (toml_index config part) (\<lambda>v. toml_index v ''configuration'')"

definition config_str :: "toml \<Rightarrow> string \<Rightarrow> string \<Rightarrow> anyhow_error + string" where
  "config_str config part key =
     bindE (config_section config part) (\<lambda>v.
     bindE (toml_index v key) (\<lambda>x. ok_or (Indexer WrongConfig) (as_str x)))"

definition config_int :: "toml \<Rightarrow> string \<Rightarrow> string \<Rightarrow> anyhow_error + int" where
  "config_int config part key =
     bindE (config_section config part) (\<lambda>v.
     bindE (toml_index v key) (\<lambda>x. ok_or (Indexer WrongConfig) (as_integer x)))"

record ws_server_config =
  max_request_body_size :: u32
  max_response_body_size :: u32
  max_connections :: u64
  max_subscriptions_per_connection :: u32
  max_log_length :: u32
  batch_requests_supported :: bool
  ping_interval :: u64

definition WS_DEFAULT_MAX_CONN :: u64 where "WS_DEFAULT_MAX_CONN = 1000"
definition WS_DEFAULT_MAX_SUB_PER_CONN :: u32 where "WS_DEFAULT_MAX_SUB_PER_CONN = 100"

text \<open>\<open>TEN_MB_SIZE_BYTES\<close> is a constant of \<open>jsonrpsee\<close>.\<close>

definition ws_server_config_default :: "u32 \<Rightarrow> ws_server_config" where
  "ws_server_config_default TEN_MB_SIZE_BYTES = \<lparr>max_request_body_size = TEN_MB_SIZE_BYTES,
     max_response_body_size = TEN_MB_SIZE_BYTES, max_connections = WS_DEFAULT_MAX_CONN,
     max_subscriptions_per_connection = WS_DEFAULT_MAX_SUB_PER_CONN, max_log_length = 4096,
     batch_requests_supported = True, ping_interval = 60\<rparr>"

text \<open>
  \<open>toml::from_str\<close> into the derived deserialiser: every field has to be there, with its type and in
  the range of its type; other keys are ignored. The table is printed and parsed again, which does
  not change it.
\<close>

fun toml_get :: "toml \<Rightarrow> string \<Rightarrow> toml option" where
  "toml_get (TTable es) key = map_of es key"
| "toml_get _ key = None"

definition field_word :: "toml \<Rightarrow> string \<Rightarrow> anyhow_error + 'a :: len word" where
  "field_word v key = (case toml_get v key of
      Some (TInteger i) \<Rightarrow> if 0 \<le> i \<and> i < 2 ^ LENGTH('a) then Inr (word_of_int i) else Inl (Other (''invalid value for key '' @ key))
    | None \<Rightarrow> Inl (Other (''missing field '' @ key))
    | _ \<Rightarrow> Inl (Other (''invalid type for key '' @ key)))"

definition field_bool :: "toml \<Rightarrow> string \<Rightarrow> anyhow_error + bool" where
  "field_bool v key = (case toml_get v key of
      Some (TBoolean b) \<Rightarrow> Inr b
    | None \<Rightarrow> Inl (Other (''missing field '' @ key))
    | _ \<Rightarrow> Inl (Other (''invalid type for key '' @ key)))"

definition parse_ws_server_config :: "toml \<Rightarrow> anyhow_error + ws_server_config" where
  "parse_ws_server_config v =
     bindE (field_word v ''max_request_body_size'') (\<lambda>req.
     bindE (field_word v ''max_response_body_size'') (\<lambda>resp.
     bindE (field_word v ''max_connections'') (\<lambda>conns.
     bindE (field_word v ''max_subscriptions_per_connection'') (\<lambda>subs.
     bindE (field_word v ''max_log_length'') (\<lambda>log.
     bindE (field_bool v ''batch_requests_supported'') (\<lambda>batch.
     bindE (field_word v ''ping_interval'') (\<lambda>ping.
       Inr \<lparr>max_request_body_size = req, max_response_body_size = resp, max_connections = conns,
            max_subscriptions_per_connection = subs, max_log_length = log, batch_requests_supported = batch,
            ping_interval = ping\<rparr>)))))))"

section \<open>Starting the service\<close>

definition FULL_NODE_BLOCK_GEN_INTERVAL_SEC :: u8 where
  "FULL_NODE_BLOCK_GEN_INTERVAL_SEC = 12"

record service_env =
  env_manifest_dir :: string
  env_open_file :: "string \<Rightarrow> anyhow_error + (anyhow_error + string)"
  env_parse_toml :: "string \<Rightarrow> anyhow_error + toml"
  env_sqlite :: sqlite
  env_db_file :: "db_file option"
  env_build_client :: "ws_client_builder \<Rightarrow> string \<Rightarrow> anyhow_error + unit"
  env_node_methods :: "jsonrpsee_error + string list"
  env_init_finished :: "nat \<Rightarrow> bool"
  env_shutdown :: "nat \<Rightarrow> bool"
  env_exporter :: "int \<Rightarrow> anyhow_error + unit"
  env_build_server :: "anyhow_error + unit"

text \<open>The configuration and the connections that a start gets from its environment.\<close>

definition env_config :: "service_env \<Rightarrow> anyhow_error + toml" where
  "env_config env = read_config (env_open_file env) (env_parse_toml env) (env_manifest_dir env)"

definition env_connect :: "service_env \<Rightarrow> string \<Rightarrow> anyhow_error + unit" where
  "env_connect env = create_ws_client (env_build_client env)"

record rpc_methods =
  rpc_version :: u32
  rpc_method_names :: "string list"

text \<open>The clients in the pool of the relay are numbered.\<close>

record server_settings =
  srv_db_file :: db_file
  srv_relay :: "nat manta_rpc_relay_server"
  srv_port :: int
  srv_max_connections :: u64
  srv_max_request_body_size :: u32
  srv_max_response_body_size :: u32
  srv_ping_interval :: u64
  srv_max_subscriptions :: u32
  sync_max_count :: "u64 \<times> u64"
  sync_frequency :: u64
  served_rpc_methods :: rpc_methods
  waited_polls :: nat

text \<open>\<open>merge\<close> of two modules fails on a name that both have.\<close>

definition merge_modules :: "string list \<Rightarrow> string list \<Rightarrow> anyhow_error + string list" where
  "merge_modules names new_names =
     (if set names \<inter> set new_names = {} then Inr (names @ new_names)
      else Inl (Jsonrpsee (RpcOther ''method already registered'')))"

text \<open>
  A loop that polls a condition and sleeps in between; \<open>cond k\<close> is what the \<open>k\<close>-th poll reads. The
  one in front of the server ends when the flag of the first synchronisation or the shutdown flag
  is up.
\<close>

partial_function (option) poll_until :: "(nat \<Rightarrow> bool) \<Rightarrow> nat \<Rightarrow> nat option" where
  "poll_until cond k = (if \<not> cond k then poll_until cond (Suc k) else Some k)"

definition wait_init_syncing :: "(nat \<Rightarrow> bool) \<Rightarrow> (nat \<Rightarrow> bool) \<Rightarrow> nat option" where
  "wait_init_syncing finished shutdown = poll_until (\<lambda>k. \<not> (\<not> finished k \<and> \<not> shutdown k)) 0"

text \<open>The part of \<open>start_service\<close> up to the spawn of the synchronisation job.\<close>

definition prepare_service ::
  "service_env \<Rightarrow> rpc_methods once_static \<Rightarrow> string \<Rightarrow>
   anyhow_error + server_settings \<times> int \<times> rpc_methods once_static" where
  "prepare_service env statics migrations_path =
     bindE (env_config env) (\<lambda>config.
     bindE (config_str config ''indexer'' ''full_node'') (\<lambda>full_node.
     bindE (config_str config ''indexer'' ''rpc_method'') (\<lambda>rpc_method.
     bindE (config_int config ''db'' ''pool_size'') (\<lambda>pool_size.
     bindE (config_str config ''db'' ''db_path'') (\<lambda>db_path.
     bindE (initialize_db_pool (env_sqlite env) (env_db_file env) migrations_path db_path (word_of_int pool_size)) (\<lambda>db_pool.
     bindE (merge_modules [] indexer_api_methods) (\<lambda>names1.
     bindE (config_int config ''indexer'' ''port'') (\<lambda>port.
     bindE (config_int config ''indexer'' ''prometheus_port'') (\<lambda>monitor_port.
     bindE (config_int config ''indexer'' ''frequency'') (\<lambda>freq.
       let frequency = (word_of_int freq :: u64) in
       if ucast FULL_NODE_BLOCK_GEN_INTERVAL_SEC \<le> frequency then Inl (Bail ''frequency config is larger than limit'')
       else
     bindE (relay_server_new (env_connect env) full_node) (\<lambda>relayer.
     bindE (merge_modules names1 (all_method_names @ all_subscription_names)) (\<lambda>names2.
     bindE (config_section config ''server'') (\<lambda>srv.
     bindE (parse_ws_server_config srv) (\<lambda>srv_config.
       let available_methods = sort names2;
           (r, statics') = once_init statics (Inr \<lparr>rpc_version = 1, rpc_method_names = available_methods\<rparr>)
       in bindE r (\<lambda>_.
     bindE (map_err (\<lambda>_. Panic ''infallible all other methods have their own address space; qed'')
         (merge_modules names2 [''rpc_methods''])) (\<lambda>_.
     bindE (env_connect env full_node) (\<lambda>_.
     bindE (map_err (\<lambda>_. Indexer RpcMethodNotExists) (is_the_rpc_methods_existed (env_node_methods env) rpc_method)) (\<lambda>_.
       Inr (\<lparr>srv_db_file = db_pool, srv_relay = relayer, srv_port = port,
             srv_max_connections = max_connections srv_config,
             srv_max_request_body_size = max_request_body_size srv_config * MEGABYTE,
             srv_max_response_body_size = max_response_body_size srv_config * MEGABYTE,
             srv_ping_interval = ping_interval srv_config,
             srv_max_subscriptions = max_subscriptions_per_connection srv_config,
             sync_max_count = (MAX_RECEIVERS, MAX_SENDERS),
             sync_frequency = frequency,
             served_rpc_methods = \<lparr>rpc_version = 1, rpc_method_names = available_methods\<rparr>,
             waited_polls = 0\<rparr>, monitor_port, statics')))))))))))))))))))"

text \<open>\<open>start_service\<close>: the job is running when the polling loop starts.\<close>

definition start_service ::
  "service_env \<Rightarrow> rpc_methods once_static \<Rightarrow> string \<Rightarrow> (anyhow_error + server_settings) option" where
  "start_service env statics migrations_path =
     (case prepare_service env statics migrations_path of
        Inl e \<Rightarrow> Some (Inl e)
      | Inr (settings, monitor_port, statics') \<Rightarrow>
          (case wait_init_syncing (env_init_finished env) (env_shutdown env) of
             None \<Rightarrow> None
           | Some k \<Rightarrow> Some (
               bindE (env_exporter env monitor_port) (\<lambda>_.
               bindE (env_build_server env) (\<lambda>_.
                 Inr (settings\<lparr>waited_polls := k\<rparr>))))))"

section \<open>The command line tool\<close>

text \<open>\<open>bin/load_ledger_locally.rs\<close>: one synchronisation into a local file, without the cache.\<close>

definition load_ledger_locally ::
  "('u, 'n, 'o) codec \<Rightarrow> 'c lru_ops \<Rightarrow> 'u forest \<Rightarrow> (nat \<Rightarrow> ('u, 'n, 'o) world) \<Rightarrow> sqlite \<Rightarrow> db_file option \<Rightarrow>
   (ws_client_builder \<Rightarrow> string \<Rightarrow> anyhow_error + unit) \<Rightarrow> 'c \<Rightarrow> ((anyhow_error + unit) \<times> db option) option" where
  "load_ledger_locally cd lr forest world sq file build cache =
     (case initialize_db_pool sq file ''./migrations'' ''local_sync.db'' 16 of
        Inl e \<Rightarrow> Some (Inl e, map_option file_tables file)
      | Inr f \<Rightarrow>
          (case create_ws_client build ''ws://127.0.0.1:9800'' of
             Inl e \<Rightarrow> Some (Inl e, Some (file_tables f))
           | Inr _ \<Rightarrow>
               (case sync_shards_from_full_node cd lr forest world (1024 * 4, 1024 * 4) False 0
                       \<lparr>st_db = file_tables f, st_cache = cache, init_syncing_finished = False\<rparr> of
                  None \<Rightarrow> None
                | Some (r, st, _) \<Rightarrow> Some (r, Some (st_db st)))))"

section \<open>Properties\<close>

lemma poll_until_Some:
  assumes "poll_until cond k = Some n"
  shows "cond n"
  by (rule poll_until.raw_induct [where P = "\<lambda>c k n. c n", OF _ assms]) (auto split: if_splits)

lemma poll_until_returns: "cond (k + n) \<Longrightarrow> \<exists>j \<le> k + n. poll_until cond k = Some j"
proof (induction n arbitrary: k)
  case 0
  then show ?case by (subst poll_until.simps) auto
next
  case (Suc n)
  then show ?case
    using Suc.IH [of "Suc k"] by (cases "cond k") (subst poll_until.simps; auto)+
qed

lemma prepare_service_Inr:
  assumes "prepare_service env statics migrations_path = Inr (settings, monitor_port, statics')"
  shows "\<not> ucast FULL_NODE_BLOCK_GEN_INTERVAL_SEC \<le> sync_frequency settings"
    and "inner statics = None" and "sync_max_count settings = (MAX_RECEIVERS, MAX_SENDERS)"
    and "rpc_method_names (served_rpc_methods settings) = sort (indexer_api_methods @ all_method_names @ all_subscription_names)"
    and "\<exists>config full_node srv srv_config. env_config env = Inr config \<and>
      config_str config ''indexer'' ''full_node'' = Inr full_node \<and> srv_relay settings = \<lparr>dmc_uri = full_node, sub_clients = new_pool full_node\<rparr> \<and>
      config_section config ''server'' = Inr srv \<and> parse_ws_server_config srv = Inr srv_config \<and>
      srv_max_request_body_size settings = max_request_body_size srv_config * MEGABYTE \<and>
      srv_max_response_body_size settings = max_response_body_size srv_config * MEGABYTE"
  using assms
  by (clarsimp simp: prepare_service_def bindE_eq_Inr Let_def merge_modules_def once_init_def relay_server_new_def
      split: if_splits option.splits; blast)+

lemma start_service_Inr:
  assumes "start_service env statics path = Some (Inr settings)"
  shows "\<exists>settings0 monitor_port statics' k. prepare_service env statics path = Inr (settings0, monitor_port, statics') \<and>
    wait_init_syncing (env_init_finished env) (env_shutdown env) = Some k \<and> settings = settings0\<lparr>waited_polls := k\<rparr>"
  using assms by (auto simp: start_service_def bindE_eq_Inr split: sum.splits option.splits)

lemma prepare_service_db_file:
  assumes "prepare_service env statics path = Inr (settings, monitor_port, statics')"
  shows "\<exists>url n. initialize_db_pool (env_sqlite env) (env_db_file env) path url n = Inr (srv_db_file settings)"
  using assms
  by (clarsimp simp: prepare_service_def bindE_eq_Inr Let_def once_init_def split: if_splits option.splits) blast

lemma start_service_db_file:
  assumes "start_service env statics path = Some (Inr settings)" and "fault_free (env_sqlite env)"
  shows "file_tables (srv_db_file settings) = (case env_db_file env of None \<Rightarrow> empty_db | Some f \<Rightarrow> file_tables f)"
proof -
  obtain url n where "initialize_db_pool (env_sqlite env) (env_db_file env) path url n = Inr (srv_db_file settings)"
    using start_service_Inr [OF assms(1)] prepare_service_db_file by fastforce
  then have "srv_db_file settings = (case env_db_file env of
      None \<Rightarrow> \<lparr>file_tables = empty_db, journal_wal = True, synchronous_off = True\<rparr> | Some f \<Rightarrow> f\<lparr>synchronous_off := True\<rparr>)"
    using assms(2) by (auto simp: initialize_db_pool_def db_simps split: option.splits)
  then show ?thesis by (simp split: option.split)
qed

lemma field_word_Inr: "field_word v key = Inr (w :: 'a :: len word) \<Longrightarrow> toml_get v key = Some (TInteger (uint w))"
  by (auto simp: field_word_def uint_word_of_int_eq take_bit_int_eq_self split: option.splits toml.splits if_splits)

lemma parse_ws_server_config_sizes:
  assumes "parse_ws_server_config v = Inr srv_config"
  shows "toml_get v ''max_request_body_size'' = Some (TInteger (uint (max_request_body_size srv_config)))"
    and "toml_get v ''max_response_body_size'' = Some (TInteger (uint (max_response_body_size srv_config)))"
  using assms field_word_Inr by (fastforce simp: parse_ws_server_config_def bindE_eq_Inr)+

text \<open>
  C22. What a started service satisfies: when \<open>start_service\<close> returns a server, the synchronisation
  frequency is below 12 seconds (a negative number in the configuration is rejected, too); the
  first synchronisation was finished, or a shutdown was requested, when the waiting ended; the
  list of methods was set for the first time, is sorted and has exactly the methods of the indexer
  and of the relay; the relay is connected to the configured node and has no subscription client
  yet; and the two body limits are the configured numbers of megabytes modulo \<open>2 ^ 32\<close>.
\<close>

theorem started_service_checked:
  assumes "start_service env statics migrations_path = Some (Inr settings)"
  shows "unat (sync_frequency settings) < 12 \<and>
    (env_init_finished env (waited_polls settings) \<or> env_shutdown env (waited_polls settings)) \<and>
    inner statics = None \<and> sorted (rpc_method_names (served_rpc_methods settings)) \<and>
    set (rpc_method_names (served_rpc_methods settings)) =
      set indexer_api_methods \<union> set all_method_names \<union> set all_subscription_names \<and>
    (\<exists>config full_node srv m n. env_config env = Inr config \<and> config_str config ''indexer'' ''full_node'' = Inr full_node \<and>
      srv_relay settings = \<lparr>dmc_uri = full_node, sub_clients = new_pool full_node\<rparr> \<and>
      config_section config ''server'' = Inr srv \<and>
      toml_get srv ''max_request_body_size'' = Some (TInteger m) \<and> toml_get srv ''max_response_body_size'' = Some (TInteger n) \<and>
      uint (srv_max_request_body_size settings) = m * 1048576 mod 2 ^ 32 \<and>
      uint (srv_max_response_body_size settings) = n * 1048576 mod 2 ^ 32)"
proof -
  obtain settings0 monitor_port statics' where
    prep: "prepare_service env statics migrations_path = Inr (settings0, monitor_port, statics')"
    and wait: "wait_init_syncing (env_init_finished env) (env_shutdown env) = Some (waited_polls settings)"
    and settings: "settings = settings0\<lparr>waited_polls := waited_polls settings\<rparr>"
    using start_service_Inr [OF assms] by auto
  have fields: "sync_frequency settings = sync_frequency settings0"
    "served_rpc_methods settings = served_rpc_methods settings0" "srv_relay settings = srv_relay settings0"
    "srv_max_request_body_size settings = srv_max_request_body_size settings0"
    "srv_max_response_body_size settings = srv_max_response_body_size settings0"
    by (subst settings, simp)+
  have mb: "uint (x * MEGABYTE) = uint x * 1048576 mod 2 ^ 32" for x :: u32
    by (simp add: MEGABYTE_def uint_word_ariths)
  have "unat (sync_frequency settings0) < 12"
    using prepare_service_Inr(1) [OF prep] by (simp add: FULL_NODE_BLOCK_GEN_INTERVAL_SEC_def word_le_nat_alt)
  moreover have "set (rpc_method_names (served_rpc_methods settings0)) =
      set indexer_api_methods \<union> set all_method_names \<union> set all_subscription_names"
    and "sorted (rpc_method_names (served_rpc_methods settings0))"
    by (simp_all add: prepare_service_Inr(4) [OF prep] Un_assoc)
  moreover obtain config full_node srv srv_config where "env_config env = Inr config"
    "config_str config ''indexer'' ''full_node'' = Inr full_node"
    "srv_relay settings0 = \<lparr>dmc_uri = full_node, sub_clients = new_pool full_node\<rparr>"
    "config_section config ''server'' = Inr srv" "parse_ws_server_config srv = Inr srv_config"
    "srv_max_request_body_size settings0 = max_request_body_size srv_config * MEGABYTE"
    "srv_max_response_body_size settings0 = max_response_body_size srv_config * MEGABYTE"
    using prepare_service_Inr(5) [OF prep] by blast
  ultimately show ?thesis
    using parse_ws_server_config_sizes [of srv srv_config] prepare_service_Inr(2) [OF prep]
      poll_until_Some [OF wait [unfolded wait_init_syncing_def]] mb unfolding fields by metis
qed

lemma registered_names_fresh:
  "set indexer_api_methods \<inter> set (all_method_names @ all_subscription_names) = {}"
  "''rpc_methods'' \<notin> set (indexer_api_methods @ all_method_names @ all_subscription_names)"
  by (simp_all add: indexer_api_methods_def all_method_names_def all_subscription_names_def relay_api_methods_def
      relay_api_subscriptions_def)

lemma merges_succeed:
  "merge_modules [] indexer_api_methods = Inr indexer_api_methods"
  "merge_modules indexer_api_methods (all_method_names @ all_subscription_names) =
    Inr (indexer_api_methods @ all_method_names @ all_subscription_names)"
  "\<exists>names. merge_modules (indexer_api_methods @ all_method_names @ all_subscription_names) [''rpc_methods''] = Inr names"
  using registered_names_fresh by (simp_all add: merge_modules_def)

text \<open>A start in an environment that answers and with a complete configuration.\<close>

lemma prepare_service_returns:
  assumes "fault_free (env_sqlite env)" and "env_config env = Inr config" and "\<forall>url. env_connect env url = Inr ()"
    and "env_node_methods env = Inr ms" and "inner statics = None"
    and "config_str config ''indexer'' ''full_node'' = Inr full_node" "config_str config ''indexer'' ''rpc_method'' = Inr rpc_method"
    and "config_int config ''db'' ''pool_size'' = Inr pool_size" "config_str config ''db'' ''db_path'' = Inr db_path"
    and "config_int config ''indexer'' ''port'' = Inr port" "config_int config ''indexer'' ''prometheus_port'' = Inr monitor_port"
    and "config_int config ''indexer'' ''frequency'' = Inr freq" "0 \<le> freq" "freq < 12"
    and "config_section config ''server'' = Inr srv" "parse_ws_server_config srv = Inr srv_config"
  shows "\<exists>f names statics'. prepare_service env statics path = Inr (\<lparr>srv_db_file = f,
      srv_relay = \<lparr>dmc_uri = full_node, sub_clients = new_pool full_node\<rparr>, srv_port = port,
      srv_max_connections = max_connections srv_config,
      srv_max_request_body_size = max_request_body_size srv_config * MEGABYTE,
      srv_max_response_body_size = max_response_body_size srv_config * MEGABYTE,
      srv_ping_interval = ping_interval srv_config, srv_max_subscriptions = max_subscriptions_per_connection srv_config,
      sync_max_count = (MAX_RECEIVERS, MAX_SENDERS), sync_frequency = word_of_int freq, served_rpc_methods = names,
      waited_polls = 0\<rparr>, monitor_port, statics')"
proof -
  obtain f where f: "initialize_db_pool (env_sqlite env) (env_db_file env) path db_path (word_of_int pool_size) = Inr f"
    using assms(1) by (cases "env_db_file env") (simp_all add: initialize_db_pool_def db_simps)
  have "uint (word_of_int freq :: u64) = freq"
    using assms(13,14) by (simp add: uint_word_of_int_eq take_bit_int_eq_self)
  then have "\<not> ucast FULL_NODE_BLOCK_GEN_INTERVAL_SEC \<le> (word_of_int freq :: u64)"
    using assms(14) by (simp add: FULL_NODE_BLOCK_GEN_INTERVAL_SEC_def word_le_def)
  then show ?thesis
    using assms f merges_succeed
    by (auto simp: prepare_service_def once_init_def relay_server_new_def is_the_rpc_methods_existed_def Let_def)
qed

lemma start_service_returns:
  assumes "prepare_service env statics path = Inr (settings, monitor_port, statics')"
    and "env_init_finished env k \<or> env_shutdown env k" and "env_exporter env monitor_port = Inr ()" and "env_build_server env = Inr ()"
  shows "\<exists>n \<le> k. start_service env statics path = Some (Inr (settings\<lparr>waited_polls := n\<rparr>))"
proof -
  obtain n where "n \<le> k" "wait_init_syncing (env_init_finished env) (env_shutdown env) = Some n"
    using poll_until_returns [of "\<lambda>k. \<not> (\<not> env_init_finished env k \<and> \<not> env_shutdown env k)" 0 k] assms(2)
    by (auto simp: wait_init_syncing_def)
  then show ?thesis
    using assms by (auto simp: start_service_def)
qed

definition demo_config :: toml where
  "demo_config = TTable [
     (''indexer'', TTable [(''configuration'', TTable [
        (''frequency'', TInteger 2), (''rpc_method'', TString ''mantaPay_pull_ledger_diff''),
        (''full_node'', TString ''ws://127.0.0.1:9800''), (''port'', TInteger 7788), (''prometheus_port'', TInteger 7789)])]),
     (''server'', TTable [(''configuration'', TTable [
        (''max_request_body_size'', TInteger 4097), (''max_response_body_size'', TInteger 10),
        (''max_connections'', TInteger 1000), (''max_subscriptions_per_connection'', TInteger 1024),
        (''max_log_length'', TInteger 4096), (''batch_requests_supported'', TBoolean True), (''ping_interval'', TInteger 30)])]),
     (''db'', TTable [(''configuration'', TTable [(''db_path'', TString ''utxo.db''), (''pool_size'', TInteger 16)])])]"

definition demo_service_env :: service_env where
  "demo_service_env = \<lparr>env_manifest_dir = ''/srv'', env_open_file = (\<lambda>path. if path = ''/srv/conf/config.toml'' then Inr (Inr ''...'') else Inl (Other ''not found'')),
     env_parse_toml = (\<lambda>_. Inr demo_config), env_sqlite = demo_sqlite, env_db_file = None,
     env_build_client = (\<lambda>_ _. Inr ()),
     env_node_methods = Inr [], env_init_finished = (\<lambda>k. 3 \<le> k), env_shutdown = (\<lambda>_. False),
     env_exporter = (\<lambda>_. Inr ()), env_build_server = Inr ()\<rparr>"

lemma demo_environment:
  "env_config demo_service_env = Inr demo_config" "env_connect demo_service_env url = Inr ()"
  "fault_free (env_sqlite demo_service_env)"
  by (simp_all add: demo_service_env_def env_config_def env_connect_def read_config_def create_ws_client_def demo.engine(2))

lemma demo_never_shut_down: "\<not> env_shutdown demo_service_env k"
  by (simp add: demo_service_env_def)

lemma demo_server_config:
  "\<exists>srv srv_config. config_section demo_config ''server'' = Inr srv \<and> parse_ws_server_config srv = Inr srv_config \<and>
     max_request_body_size srv_config = 4097"
  by (simp add: demo_config_def config_section_def parse_ws_server_config_def field_word_def field_bool_def)

lemma demo_start:
  "\<exists>settings. start_service demo_service_env (once_new ''RPC_METHODS'') path = Some (Inr settings)"
proof -
  obtain srv srv_config where srv: "config_section demo_config ''server'' = Inr srv"
    "parse_ws_server_config srv = Inr srv_config"
    using demo_server_config by blast
  have config: "config_str demo_config ''indexer'' ''full_node'' = Inr ''ws://127.0.0.1:9800''"
    "config_str demo_config ''indexer'' ''rpc_method'' = Inr ''mantaPay_pull_ledger_diff''"
    "config_int demo_config ''db'' ''pool_size'' = Inr 16" "config_str demo_config ''db'' ''db_path'' = Inr ''utxo.db''"
    "config_int demo_config ''indexer'' ''port'' = Inr 7788" "config_int demo_config ''indexer'' ''prometheus_port'' = Inr 7789"
    "config_int demo_config ''indexer'' ''frequency'' = Inr 2"
    by (simp_all add: demo_config_def config_str_def config_int_def config_section_def)
  have "\<exists>r. prepare_service demo_service_env (once_new ''RPC_METHODS'') path = Inr r"
    using prepare_service_returns [OF demo_environment(3,1) _ _ _ config _ _ srv, of "[]" "once_new ''RPC_METHODS''" path]
      demo_environment(2) by (auto simp: demo_service_env_def once_new_def)
  then obtain settings port statics' where
    "prepare_service demo_service_env (once_new ''RPC_METHODS'') path = Inr (settings, port, statics')"
    by (metis surj_pair)
  from start_service_returns [OF this, of 3] show ?thesis
    by (auto simp: demo_service_env_def)
qed

theorem started_service_checked_witness:
  "\<exists>settings. start_service demo_service_env (once_new ''RPC_METHODS'') ''migrations'' = Some (Inr settings) \<and>
    unat (sync_frequency settings) < 12 \<and> env_init_finished demo_service_env (waited_polls settings) \<and>
    uint (srv_max_request_body_size settings) = 1048576"
proof -
  obtain settings where s: "start_service demo_service_env (once_new ''RPC_METHODS'') ''migrations'' = Some (Inr settings)"
    using demo_start by blast
  show ?thesis
    using started_service_checked [OF s] s demo_environment(1) demo_never_shut_down
    by (auto simp: demo_config_def config_section_def)
qed

text \<open>
  C35. The check that the node has the configured method does not check anything: as long as the
  node answers with some list of methods, the start does not depend on the list. The boolean that
  \<open>is_the_rpc_methods_existed\<close> returns is dropped, and a node without the method is accepted.
\<close>

theorem rpc_method_check_ignored:
  "start_service (env\<lparr>env_node_methods := Inr ms\<rparr>) statics migrations_path =
   start_service (env\<lparr>env_node_methods := Inr ms'\<rparr>) statics migrations_path"
  by (simp add: start_service_def prepare_service_def is_the_rpc_methods_existed_def env_config_def env_connect_def Let_def
      cong: if_cong sum.case_cong option.case_cong)

text \<open>The configuration that the repository ships, \<open>conf/config.toml\<close>.\<close>

definition shipped_config :: toml where
  "shipped_config = TTable [
     (''indexer'', TTable [(''configuration'', TTable [
        (''frequency'', TInteger 2), (''rpc_method'', TString ''mantaPay_pull_ledger_diff''),
        (''full_node'', TString ''ws://127.0.0.1:9800''), (''port'', TInteger 7788), (''prometheus_port'', TInteger 7789)])]),
     (''server'', TTable [(''configuration'', TTable [
        (''max_request_body_size'', TInteger 10), (''max_response_body_size'', TInteger 10),
        (''max_connections'', TInteger 1000), (''max_subscriptions_per_connection'', TInteger 1024),
        (''max_log_length'', TInteger 4096), (''batch_requests_supported'', TBoolean True), (''ping_interval'', TInteger 30)])]),
     (''db'', TTable [(''configuration'', TTable [(''db_path'', TString ''utxo.db''), (''pool_size'', TInteger 16)])])]"

lemma shipped_config_values:
  "config_str shipped_config ''indexer'' ''full_node'' = Inr ''ws://127.0.0.1:9800''"
  "config_str shipped_config ''indexer'' ''rpc_method'' = Inr ''mantaPay_pull_ledger_diff''"
  "config_int shipped_config ''db'' ''pool_size'' = Inr 16" "config_str shipped_config ''db'' ''db_path'' = Inr ''utxo.db''"
  "config_int shipped_config ''indexer'' ''port'' = Inr 7788" "config_int shipped_config ''indexer'' ''prometheus_port'' = Inr 7789"
  "config_int shipped_config ''indexer'' ''frequency'' = Inr 2"
  by (simp_all add: shipped_config_def config_str_def config_int_def config_section_def)

lemma shipped_server_config:
  "\<exists>srv. config_section shipped_config ''server'' = Inr srv \<and>
     parse_ws_server_config srv = Inr \<lparr>max_request_body_size = 10, max_response_body_size = 10, max_connections = 1000,
       max_subscriptions_per_connection = 1024, max_log_length = 4096, batch_requests_supported = True, ping_interval = 30\<rparr>"
  by (simp add: shipped_config_def config_section_def parse_ws_server_config_def field_word_def field_bool_def)

text \<open>
  C24. The shipped configuration starts the service: in an environment whose engine has no faults, whose
  node answers and in which the first synchronisation ends, or a shutdown is requested, at the
  \<open>k\<close>-th poll, \<open>start_service\<close> returns a server after at most \<open>k\<close> polls; it synchronises every 2 seconds,
  listens on port 7788, and its limits are 10 megabytes for each body, 1000 connections and 1024
  subscriptions for each of them.
\<close>

theorem shipped_config_starts:
  assumes "fault_free (env_sqlite env)" and "env_config env = Inr shipped_config" and "\<forall>url. env_connect env url = Inr ()"
    and "env_node_methods env = Inr ms" and "inner statics = None"
    and "env_init_finished env k \<or> env_shutdown env k" and "\<forall>port. env_exporter env port = Inr ()" and "env_build_server env = Inr ()"
  shows "\<exists>settings. start_service env statics path = Some (Inr settings) \<and> waited_polls settings \<le> k \<and>
    sync_frequency settings = 2 \<and> srv_port settings = 7788 \<and> dmc_uri (srv_relay settings) = ''ws://127.0.0.1:9800'' \<and>
    unat (srv_max_request_body_size settings) = 10 * 1024 * 1024 \<and> unat (srv_max_response_body_size settings) = 10 * 1024 * 1024 \<and>
    srv_max_connections settings = 1000 \<and> srv_max_subscriptions settings = 1024 \<and> srv_ping_interval settings = 30"
proof -
  obtain srv where srv: "config_section shipped_config ''server'' = Inr srv"
    "parse_ws_server_config srv = Inr \<lparr>max_request_body_size = 10, max_response_body_size = 10, max_connections = 1000,
       max_subscriptions_per_connection = 1024, max_log_length = 4096, batch_requests_supported = True, ping_interval = 30\<rparr>"
    using shipped_server_config by blast
  from prepare_service_returns [OF assms(1-5) shipped_config_values _ _ srv, of path] obtain f names statics' where
    "prepare_service env statics path = Inr (\<lparr>srv_db_file = f,
      srv_relay = \<lparr>dmc_uri = ''ws://127.0.0.1:9800'', sub_clients = new_pool ''ws://127.0.0.1:9800''\<rparr>, srv_port = 7788,
      srv_max_connections = 1000, srv_max_request_body_size = 10 * MEGABYTE, srv_max_response_body_size = 10 * MEGABYTE,
      srv_ping_interval = 30, srv_max_subscriptions = 1024,
      sync_max_count = (MAX_RECEIVERS, MAX_SENDERS), sync_frequency = 2, served_rpc_methods = names, waited_polls = 0\<rparr>, 7789, statics')"
    by auto
  from start_service_returns [OF this assms(6) _ assms(8)] assms(7) show ?thesis
    by (auto simp: MEGABYTE_def)
qed

theorem shipped_config_starts_witness:
  "\<exists>settings. start_service (demo_service_env\<lparr>env_parse_toml := (\<lambda>_. Inr shipped_config)\<rparr>) (once_new ''RPC_METHODS'') ''migrations'' =
      Some (Inr settings) \<and> waited_polls settings \<le> 3 \<and> sync_frequency settings = 2"
  using shipped_config_starts [of "demo_service_env\<lparr>env_parse_toml := (\<lambda>_. Inr shipped_config)\<rparr>" "[]" "once_new ''RPC_METHODS''" 3
      "''migrations''"] demo_environment(3)
  by (auto simp: demo_service_env_def env_config_def env_connect_def read_config_def create_ws_client_def once_new_def)

text \<open>
  C23. The local loader: with a node that answers and no faults, \<open>load_ledger_locally\<close> on a file
  that does not exist returns without an error, and the database it leaves holds the whole chain
  as of the last request.
\<close>

theorem local_load_completes:
  assumes "lru_crate lr" and "live_world forest world chain bound" and "fault_free sq"
    and "create_ws_client build ''ws://127.0.0.1:9800'' = Inr ()" and "\<forall>k. lru_peek lr cache k = None"
  shows "\<exists>d t. load_ledger_locally cd lr forest world sq None build cache = Some (Inr (), Some d) \<and>
    holds_ledger cd (chain t) d"
proof -
  have init: "initialize_db_pool sq None ''./migrations'' ''local_sync.db'' 16 =
      Inr \<lparr>file_tables = empty_db, journal_wal = True, synchronous_off = True\<rparr>"
    using assms(3) by (simp add: initialize_db_pool_def db_simps)
  define st where "st = \<lparr>st_db = empty_db, st_cache = cache, init_syncing_finished = False\<rparr>"
  have "represents cd lr empty_ledger st"
    using assms(5) by (simp add: represents_def st_def empty_db_holds cache_coherent_def)
  from call_completes [where mc = "(1024 * 4, 1024 * 4)" and t = 0 and refresh = False,
      OF assms(1,2) _ _ this empty_ledger_le]
  show ?thesis
    using assms(4) by (auto simp: load_ledger_locally_def init st_def represents_def)
qed

theorem local_load_completes_witness:
  "\<exists>d. load_ledger_locally byte_codec recency_lru demo_forest (\<lambda>_. serving_world demo_sqlite rev demo_ledger)
      demo_sqlite None (\<lambda>_ _. Inr ()) (lru_new recency_lru 8) = Some (Inr (), Some d) \<and> holds_ledger byte_codec demo_ledger d"
  using local_load_completes [OF recency.lru_crate_axioms demo_node.live.live_world_axioms demo.engine(2),
      of "\<lambda>_ _. Inr ()" "lru_new recency_lru 8" byte_codec]
  by (simp add: recency.new_empty create_ws_client_def)

end
