(* ===== verification/Db_Properties.thy ===== *)
theory Db_Properties
  imports Pull_Spec
begin

text \<open>
  The properties of the queries of \<open>src/db.rs\<close>: reading back what was written, the rows that the
  queries with run-time placeholders select, the checkpoint, the opening of a database, and the
  behaviour of the two insertions on rows that exist already.
\<close>

section \<open>Lemmas: lookups by key\<close>

lemma scan_at_most_one:
  assumes "visits_each_once scan" and "length xs \<le> 1"
  shows "scan xs = xs"
proof -
  have "length (scan xs) \<le> 1" "set (scan xs) = set xs"
    using visits_each_once_props(2,3) [OF assms(1), of xs] assms(2) by simp_all
  then show ?thesis
    using assms(2) visits_each_once_Nil_iff [OF assms(1), of xs] by (cases xs; cases "scan xs") auto
qed

lemma filter_key_unique:
  assumes "distinct (map key rows)"
  shows "filter (\<lambda>r. key r = k) rows = (case find (\<lambda>r. key r = k) rows of None \<Rightarrow> [] | Some r \<Rightarrow> [r])"
  using assms
proof (induction rows)
  case (Cons r rows)
  have "filter (\<lambda>r. key r = k) rows = []" if "key r = k"
    using Cons.prems that by (auto simp: filter_empty_conv image_iff)
  then show ?case using Cons by simp
qed simp

text \<open>On a table with its primary key, a lookup by key does not depend on the scan order.\<close>

lemma get_one_nullifier_lookup:
  assumes "sqlite_ok sq" and "fault_free sq" and "distinct (map idx (tbl_nullifier d))"
  shows "get_one_nullifier cd sq d i =
    bindE (case lookup_nullifier (tbl_nullifier d) (as_i64 i) of None \<Rightarrow> Inl (Sqlx RowNotFound) | Some r \<Rightarrow> Inr r)
      (nullifier_of_row cd ''NullifierCommitment'')"
proof -
  let ?rows = "filter (\<lambda>r. idx r = as_i64 i) (tbl_nullifier d)"
  have rows: "?rows = (case lookup_nullifier (tbl_nullifier d) (as_i64 i) of None \<Rightarrow> [] | Some r \<Rightarrow> [r])"
    unfolding lookup_nullifier_def by (rule filter_key_unique [OF assms(3)])
  then have "scan_nullifier sq ?rows = ?rows"
    using assms(1) by (intro scan_at_most_one) (auto simp: sqlite_ok_def split: option.splits)
  then show ?thesis
    using rows assms(2) by (auto simp: get_one_nullifier_def db_simps split: option.splits)
qed

section \<open>Properties\<close>

text \<open>
  C20. Reading back a nullifier: after \<open>insert_one_nullifier\<close> under an index,
  \<open>get_one_nullifier\<close> returns the commitment and the note that were inserted, also when the index
  was taken before, and every other index reads as before; the primary key stays unique.
\<close>

theorem nullifier_round_trip:
  assumes "scale_codec cd" and "sqlite_ok sq" and "fault_free sq" and "distinct (map idx (tbl_nullifier d))"
    and "length nc = 32"
  shows "\<exists>d'. insert_one_nullifier cd sq d i nc on = Inr d' \<and> get_one_nullifier cd sq d' i = Inr (nc, on) \<and>
    (\<forall>j. j \<noteq> i \<longrightarrow> get_one_nullifier cd sq d' j = get_one_nullifier cd sq d j) \<and>
    distinct (map idx (tbl_nullifier d'))"
proof -
  define row where "row = \<lparr>idx = as_i64 i, nullifier_commitment = commitment_encode cd nc, outgoing_note = outgoing_encode cd on\<rparr>"
  define d' where "d' = d\<lparr>tbl_nullifier := insert_or_replace nullifier_indexes row (tbl_nullifier d)\<rparr>"
  have ins: "insert_one_nullifier cd sq d i nc on = Inr d'"
    using assms(3) by (simp add: insert_one_nullifier_def db_simps d'_def row_def)
  have dist: "distinct (map idx (tbl_nullifier d'))"
    using nullifier_table.invar_upsert [OF assms(4)] by (simp add: d'_def)
  have look: "lookup_nullifier (tbl_nullifier d') k = (if k = as_i64 i then Some row else lookup_nullifier (tbl_nullifier d) k)" for k
    using nullifier_table.lookup_upsert [OF assms(4), of row k] by (simp add: d'_def row_def)
  have "get_one_nullifier cd sq d' i = Inr (nc, on)"
    unfolding get_one_nullifier_lookup [OF assms(2,3) dist] look
    using assms(5) scale_codec.commitment_bytes [OF assms(1)] scale_codec.outgoing_roundtrip [OF assms(1)]
    by (simp add: nullifier_of_row_def row_def)
  moreover have "get_one_nullifier cd sq d' j = get_one_nullifier cd sq d j" if "j \<noteq> i" for j
    unfolding get_one_nullifier_lookup [OF assms(2,3) dist] get_one_nullifier_lookup [OF assms(2,3,4)] look
    using that by simp
  ultimately show ?thesis using ins dist by blast
qed

theorem nullifier_round_trip_witness:
  "\<exists>d'. insert_one_nullifier byte_codec demo_sqlite empty_db 7 (replicate 32 1) 5 = Inr d' \<and>
    get_one_nullifier byte_codec demo_sqlite d' 7 = Inr (replicate 32 1, 5)"
  using nullifier_round_trip [OF one_byte.scale_codec_axioms demo.engine, of empty_db "replicate 32 1" 7 5]
  by (auto simp: empty_db_def)

text \<open>
  C19. The queries with run-time placeholders select exactly the rows asked for: the rows of the
  shard whose index occurs in the list, each once per row of the table, whatever the order and the
  length of the list; likewise for the nullifiers, whose placeholders are numbered differently.
\<close>

theorem batched_queries_select:
  assumes "sqlite_ok sq" and "fault_free sq"
  shows "(\<exists>rows. get_batched_shards_by_idxs sq d s is = Inr rows \<and>
      mset rows = mset (filter (\<lambda>r. shard_index r = s \<and> utxo_index r \<in> set is) (tbl_shards d))) \<and>
    (\<exists>rows. get_batched_nullifier_by_idxs sq d is = Inr rows \<and>
      mset rows = mset (filter (\<lambda>r. idx r \<in> set is) (tbl_nullifier d)))"
  using get_batched_shards_by_idxs_eq [OF assms] get_batched_nullifier_by_idxs_eq [OF assms] by blast

theorem batched_queries_select_witness:
  "\<exists>rows. get_batched_shards_by_idxs demo_sqlite demo_db 0 [2, 9] = Inr rows \<and>
    mset rows = {#shard_row byte_codec 0 2 (30, 31)#}"
  using batched_queries_select [OF demo.engine, of demo_db 0 "[2, 9]"]
  by (simp add: demo_db_def shard_rows_def shard_row_def upt_conv_Cons)

lemma get_latest_check_point_counts:
  assumes "fault_free sq" and "length (tbl_nullifier d) < 2 ^ 32"
  shows "get_latest_check_point sq d = Inr
    \<lparr>receiver_index = (\<lambda>s. word_of_nat (length (filter (\<lambda>r. shard_index r = s) (tbl_shards d)))),
     sender_index = word_of_nat (length (tbl_nullifier d))\<rparr>"
proof -
  have "count_of_utxo sq d s = Inr (int (length (filter (\<lambda>r. shard_index r = s) (tbl_shards d))))" for s
    using assms(1) by (simp add: count_of_utxo_def db_simps)
  from foldE_receiver_index [of all_u8 "count_of_utxo sq d", OF this] show ?thesis
    using assms by (simp add: get_latest_check_point_def get_len_of_nullifier_def db_simps checkpoint_default_def)
qed

lemma filter_upt_eq: "filter (\<lambda>j. j = k) [0 ..< n] = (if k < n then [k] else [])"
  by (induction n) auto

text \<open>A ledger has one row per receiver.\<close>

lemma holds_ledger_row_at:
  assumes "holds_ledger cd L d"
  shows "mset (filter (\<lambda>r. shard_index r = s \<and> utxo_index r = int k) (tbl_shards d)) =
    (if k < length (led_receivers L s) then {#shard_row cd s k (led_receivers L s ! k)#} else {#})"
proof -
  have "mset (filter (\<lambda>r. utxo_index r = int k) (filter (\<lambda>r. shard_index r = s) (tbl_shards d))) =
      mset (filter (\<lambda>r. utxo_index r = int k) (shard_rows cd s (led_receivers L s)))"
    using assms by (intro mset_filter_cong) (simp add: holds_ledger_def)
  also have "filter (\<lambda>r. utxo_index r = int k) (shard_rows cd s (led_receivers L s)) =
      (if k < length (led_receivers L s) then [shard_row cd s k (led_receivers L s ! k)] else [])"
    by (simp add: shard_rows_def shard_row_def filter_map comp_def filter_upt_eq)
  finally show ?thesis by (simp add: conj_commute split: if_splits)
qed

text \<open>
  C33. Storing a receiver again: on tables that hold a ledger, \<open>insert_one_shard\<close> under an index that is
  taken does not replace the row, because no index of the table \<open>shards\<close> is unique. Both rows are there
  afterwards, the tables represent no ledger any more, and the checkpoint computed from them counts
  one receiver of this shard too many, from which the next synchronisation would go on.
\<close>

theorem duplicate_receiver_breaks_ledger:
  assumes "sqlite_ok sq" and "fault_free sq" and "holds_ledger cd L d" and "ledger_wf L"
    and "unat i < length (led_receivers L s)"
  shows "\<exists>d'. insert_one_shard cd sq d s i u n = Inr d' \<and>
    mset (filter (\<lambda>r. shard_index r = s \<and> utxo_index r = as_i64 i) (tbl_shards d')) =
      {#shard_row cd s (unat i) (led_receivers L s ! unat i), shard_row cd s (unat i) (u, n)#} \<and>
    get_latest_check_point sq d' = Inr ((checkpoint_of L)\<lparr>receiver_index := (receiver_index (checkpoint_of L))
      (s := receiver_index (checkpoint_of L) s + 1)\<rparr>) \<and>
    (\<forall>L'. \<not> holds_ledger cd L' d')"
proof -
  define k where "k = unat i"
  have i: "as_i64 i = int k"
    unfolding k_def using assms(5) ledger_wfD(1) [OF assms(4), of s] by (intro as_i64_small) simp
  define d' where "d' = d\<lparr>tbl_shards := tbl_shards d @ [shard_row cd s k (u, n)]\<rparr>"
  have ins: "insert_one_shard cd sq d s i u n = Inr d'"
    using assms(2) i by (simp add: insert_one_shard_def db_simps d'_def shard_row_def)
  have rows: "mset (filter (\<lambda>r. shard_index r = s \<and> utxo_index r = as_i64 i) (tbl_shards d')) =
      {#shard_row cd s k (led_receivers L s ! k), shard_row cd s k (u, n)#}"
    using holds_ledger_row_at [OF assms(3), of s k] assms(5) by (simp add: d'_def shard_row_def i k_def)
  have "get_latest_check_point sq d' = Inr ((checkpoint_of L)\<lparr>receiver_index := (receiver_index (checkpoint_of L))
      (s := receiver_index (checkpoint_of L) s + 1)\<rparr>)"
    using get_latest_check_point_counts [OF assms(2), of d'] ledger_wfD(2) [OF assms(4)] holds_ledger_counts [OF assms(3)]
    by (auto simp: d'_def checkpoint_of_def shard_row_def fun_eq_iff)
  moreover have "\<not> holds_ledger cd L' d'" for L'
    using arg_cong [OF holds_ledger_row_at [of cd L' d' s k], of size] arg_cong [OF rows, of size]
    unfolding i size_mset by (auto split: if_splits)
  ultimately show ?thesis using ins rows unfolding k_def by blast
qed

theorem duplicate_receiver_breaks_ledger_witness:
  "\<exists>d'. insert_one_shard byte_codec demo_sqlite demo_db 0 2 1 2 = Inr d' \<and> (\<forall>L'. \<not> holds_ledger byte_codec L' d')"
  using duplicate_receiver_breaks_ledger [OF demo_env(4,5,6,3), of 2 0 1 2]
  by (auto simp: demo_ledger_def)

text \<open>
  C34. Appending a nullifier: on a table that holds at least one sender, \<open>append_nullifier\<close> stores
  the new one behind the last, as the ledger does. On an empty table it stores the first one under
  index 1 instead of 0: the database then has one row, its checkpoint says one sender, and there is
  no sender at index 0.
\<close>

theorem append_nullifier_behaviour:
  assumes "sqlite_ok sq" and "fault_free sq" and "holds_ledger cd L d" and "ledger_wf L"
  shows "\<exists>d'. append_nullifier cd sq d nc on = Inr d' \<and>
    (if led_senders L \<noteq> [] then holds_ledger cd (add_sender (nc, on) L) d'
     else map idx (tbl_nullifier d') = [1] \<and> get_len_of_nullifier sq d' = Inr 1 \<and> \<not> has_nullifier sq d' 0)"
proof -
  have ms: "mset (tbl_nullifier d) = mset (nullifier_rows cd (led_senders L))"
    using assms(3) by (simp add: holds_ledger_def)
  then have ids: "set (map idx (tbl_nullifier d)) = int ` {..< length (led_senders L)}"
    using mset_eq_setD [OF ms] by (auto simp: nullifier_rows_def image_iff)
  show ?thesis
  proof (cases "led_senders L = []")
    case True
    then have "tbl_nullifier d = []" using ms by (simp add: nullifier_rows_def)
    then show ?thesis
      using True assms(1,2) has_nullifier_eq [OF assms(1,2)]
      by (simp add: append_nullifier_def db_simps next_rowid_def get_len_of_nullifier_def as_i64_def)
  next
    case False
    define n where "n = length (led_senders L)"
    have n: "0 < n" "n < 2 ^ 32" using False ledger_wfD(2) [OF assms(4)] by (simp_all add: n_def)
    have "Max (set (map idx (tbl_nullifier d))) = int (n - 1)"
      unfolding ids using n(1) by (intro Max_eqI) (auto simp: n_def)
    moreover have "map idx (tbl_nullifier d) \<noteq> []"
      using ids n(1) by (force simp: n_def)
    ultimately have "next_rowid sq (map idx (tbl_nullifier d)) = Some (int n)"
      using n by (simp add: next_rowid_def)
    then show ?thesis
      using False assms(2,3)
      by (simp add: append_nullifier_def db_simps holds_ledger_def add_sender_def rows_snoc nullifier_row_def n_def)
  qed
qed

theorem append_nullifier_behaviour_witness:
  "\<exists>d'. append_nullifier byte_codec demo_sqlite empty_db (replicate 32 1) 5 = Inr d' \<and> map idx (tbl_nullifier d') = [1]"
  using append_nullifier_behaviour [OF demo.engine empty_db_holds, of byte_codec "replicate 32 1" 5]
  by (force simp: ledger_wf_def empty_ledger_def)

lemma foldE_nullifier_rows:
  assumes "scale_codec cd" and "\<forall>j \<in> set js. length (fst (xs ! j)) = 32"
  shows "foldE (\<lambda>nullifiers i. bindE (nullifier_of_row cd what i) (\<lambda>x. Inr (nullifiers @ [x]))) acc
      (map (\<lambda>j. nullifier_row cd j (xs ! j)) js) = Inr (acc @ map ((!) xs) js)"
  using assms(2)
proof (induction js arbitrary: acc)
  case (Cons j js)
  have "nullifier_of_row cd what (nullifier_row cd j (xs ! j)) = Inr (xs ! j)"
    using Cons.prems scale_codec.commitment_bytes [OF assms(1)] scale_codec.outgoing_roundtrip [OF assms(1)]
    by (simp add: nullifier_of_row_def)
  then show ?case using Cons by simp
qed simp

text \<open>
  The range query on the nullifiers: on tables that hold a ledger, \<open>get_batched_nullifier\<close>
  returns exactly the senders with indices in the half-open range, each once.
\<close>

theorem batched_nullifier_range:
  assumes "scale_codec cd" and "sqlite_ok sq" and "fault_free sq" and "holds_ledger cd L d" and "ledger_wf L"
    and "unat a < 2 ^ 63" and "unat b < 2 ^ 63"
  shows "\<exists>ss. get_batched_nullifier cd sq d a b = Inr ss \<and>
    mset ss = mset (take (unat b - unat a) (drop (unat a) (led_senders L)))"
proof -
  let ?xs = "led_senders L" and ?row = "\<lambda>j. nullifier_row cd j (led_senders L ! j)"
  let ?P = "\<lambda>r. idx r \<ge> as_i64 a \<and> idx r < as_i64 b"
  let ?js = "filter (\<lambda>j. unat a \<le> j \<and> j < unat b) [0 ..< length ?xs]"
  have in_range: "?P (nullifier_row cd j x) \<longleftrightarrow> unat a \<le> j \<and> j < unat b" for j x
    unfolding as_i64_small [OF assms(6)] as_i64_small [OF assms(7)] nullifier_row_simps of_nat_le_iff of_nat_less_iff ..
  have "mset (scan_nullifier sq (filter ?P (tbl_nullifier d))) = mset (filter ?P (tbl_nullifier d))"
    using assms(2) by (simp only: sqlite_ok_def visits_each_once_def)
  also have "\<dots> = mset (filter ?P (nullifier_rows cd ?xs))"
    using assms(4) by (intro mset_filter_cong) (simp add: holds_ledger_def)
  also have "filter ?P (nullifier_rows cd ?xs) = map ?row ?js"
    unfolding nullifier_rows_def filter_map comp_def in_range ..
  finally obtain js where js: "scan_nullifier sq (filter ?P (tbl_nullifier d)) = map ?row js" "mset js = mset ?js"
    using mset_eq_mset_map_ex by blast
  have "\<forall>j \<in> set js. length (fst (?xs ! j)) = 32"
    using mset_eq_setD [OF js(2)] ledger_wfD(3) [OF assms(5)] by simp
  then have "get_batched_nullifier cd sq d a b = Inr (map ((!) ?xs) js)"
    using foldE_nullifier_rows [OF assms(1), of js ?xs _ "[]"] js(1) assms(3)
    by (simp add: get_batched_nullifier_def db_simps)
  moreover have "mset ?js = mset (filter (\<lambda>j. j < length ?xs) [unat a ..< unat a + (unat b - unat a)])"
    by (rule set_eq_iff_mset_eq_distinct [THEN iffD1]) auto
  then have "mset (map ((!) ?xs) js) = mset (take (unat b - unat a) (drop (unat a) ?xs))"
    unfolding map_nth_range [symmetric] mset_map js(2) by (simp only:)
  ultimately show ?thesis by blast
qed

theorem batched_nullifier_range_witness:
  "\<exists>ss. get_batched_nullifier byte_codec demo_sqlite demo_db 1 9 = Inr ss \<and> mset ss = {#(replicate 32 8, 80)#}"
proof -
  have "mset (take (unat (9 :: u64) - unat (1 :: u64)) (drop (unat (1 :: u64)) (led_senders demo_ledger))) =
      {#(replicate 32 8, 80)#}"
    by (simp add: demo_ledger_def)
  then show ?thesis
    using batched_nullifier_range [OF demo_env(1,4,5,6,3), of 1 9] by auto
qed

text \<open>
  Opening a database: without faults it succeeds, creates the tables empty when there is no
  database file and keeps every row otherwise; afterwards writes are not synchronised to disk. The
  write-ahead log is switched on for a file that is created; an existing file keeps the journal
  mode that it has.
\<close>

theorem initialize_db_pool_keeps_rows:
  assumes "fault_free sq"
  shows "initialize_db_pool sq file migrations_path db_url pool_size =
    Inr (case file of
        None \<Rightarrow> \<lparr>file_tables = empty_db, journal_wal = True, synchronous_off = True\<rparr>
      | Some f \<Rightarrow> f\<lparr>synchronous_off := True\<rparr>)"
  using assms by (simp add: initialize_db_pool_def db_simps split: option.splits)

theorem initialize_db_pool_keeps_rows_witness:
  "initialize_db_pool demo_sqlite (Some \<lparr>file_tables = demo_db, journal_wal = False, synchronous_off = False\<rparr>)
     ''migrations'' ''dolphin.db'' 16 = Inr \<lparr>file_tables = demo_db, journal_wal = False, synchronous_off = True\<rparr>"
  using initialize_db_pool_keeps_rows [OF demo.engine(2)] by simp

end
