(* ===== verification/Repository_Tests.thy ===== *)
theory Repository_Tests
  imports Service Sync_Job Db_Properties
begin

text \<open>
  Tests of \<open>src/db.rs\<close>, \<open>src/utils.rs\<close>, \<open>src/relayer/mod.rs\<close> and \<open>src/indexer/cache.rs\<close> as programs over
  the model, with the helper that prepares their database. A test returns a value when all its assertions hold and panics otherwise,
  so that "the test passes" is a theorem for every ledger, codec and choice of random numbers, and
  not a run. Values that the tests draw at random are arguments, and so is the name of a temporary
  file. Printing, measuring time and dropping a table at the end (\<open>clean_up\<close>) are left out.
\<close>

section \<open>Assertions\<close>

definition assert_true :: "bool \<Rightarrow> anyhow_error + unit" where
  "assert_true b = (if b then Inr () else Inl (Panic ''assertion failed''))"

text \<open>\<open>assert!(r.is_ok())\<close> followed by \<open>unwrap\<close>.\<close>

definition assert_ok :: "anyhow_error + 'a \<Rightarrow> anyhow_error + 'a" where
  "assert_ok r = map_err (\<lambda>_. Panic ''assertion failed'') r"

definition unwrap :: "anyhow_error + 'a \<Rightarrow> anyhow_error + 'a" where
  "unwrap r = map_err (\<lambda>_. Panic ''called unwrap on an Err value'') r"

lemma assertion_simps [simp]:
  "assert_true True = Inr ()" "assert_true False = Inl (Panic ''assertion failed'')"
  "assert_ok (Inr x) = Inr x" "unwrap (Inr x) = Inr x"
  by (simp_all add: assert_true_def assert_ok_def unwrap_def)

section \<open>The test database\<close>

text \<open>\<open>config[part]["configuration"][key].as_str().unwrap()\<close>\<close>

definition test_setting :: "toml \<Rightarrow> string \<Rightarrow> string \<Rightarrow> anyhow_error + string" where
  "test_setting config part key =
     bindE (config_section config part) (\<lambda>v.
     bindE (toml_index v key) (\<lambda>x. ok_or (Panic ''called unwrap on a None value'') (as_str x)))"

text \<open>\<open>files\<close> says which database files exist.\<close>

definition create_test_db_or_first_pull ::
  "('u, 'n, 'o) codec \<Rightarrow> 'c lru_ops \<Rightarrow> 'u forest \<Rightarrow> (nat \<Rightarrow> ('u, 'n, 'o) world) \<Rightarrow> sqlite \<Rightarrow> anyhow_error + toml \<Rightarrow>
   (string \<Rightarrow> anyhow_error + unit) \<Rightarrow> (string \<Rightarrow> db_file option) \<Rightarrow> string \<Rightarrow> 'c \<Rightarrow> bool \<Rightarrow> (anyhow_error + 'c sync_state) option" where
  "create_test_db_or_first_pull cd lr forest world sq read connect files tmp_path cache is_tmp =
     (case bindE (unwrap read) (\<lambda>config.
           bindE (test_setting config ''indexer'' ''full_node'') (\<lambda>node.
           bindE (if is_tmp then Inr tmp_path else test_setting config ''db'' ''db_path'') (\<lambda>db_path.
           bindE (initialize_db_pool sq (files db_path) ''./migrations'' db_path 16) (\<lambda>pool.
             Inr (node, file_tables pool))))) of
        Inl e \<Rightarrow> Some (Inl e)
      | Inr (node, d) \<Rightarrow>
          (let st = \<lparr>st_db = d, st_cache = cache, init_syncing_finished = False\<rparr>
           in if \<not> has_shard sq d 0 0
              then (case connect node of
                      Inl e \<Rightarrow> Some (Inl e)
                    | Inr _ \<Rightarrow>
                        (case sync_shards_from_full_node cd lr forest world (1024, 1024) True 0 st of
                           None \<Rightarrow> None
                         | Some (r, st', _) \<Rightarrow> Some (bindE r (\<lambda>_. Inr st'))))
              else Some (Inr st)))"

section \<open>Tests that read\<close>

definition get_one_shard_should_work :: "sqlite \<Rightarrow> db \<Rightarrow> anyhow_error + unit" where
  "get_one_shard_should_work sq pool =
     (let shard_index' = 0; utxo_index' = 0
      in bindE (assert_ok (get_one_shard sq pool shard_index' utxo_index')) (\<lambda>one_shard.
           assert_true (shard_index one_shard = shard_index')))"

definition has_shard_should_work :: "sqlite \<Rightarrow> db \<Rightarrow> anyhow_error + unit" where
  "has_shard_should_work sq pool =
     (let shard_index' = 0; utxo_index' = 0; invalid_utxo_index = - 1
      in bindE (assert_true (has_shard sq pool shard_index' utxo_index')) (\<lambda>_.
           assert_true (\<not> has_shard sq pool shard_index' invalid_utxo_index)))"

definition get_batched_shards_should_work :: "sqlite \<Rightarrow> db \<Rightarrow> u64 \<Rightarrow> u64 \<Rightarrow> anyhow_error + unit" where
  "get_batched_shards_should_work sq pool sample1 sample2 =
     (let (from_utxo_index, to_utxo_index) = (if sample2 < sample1 then (sample2, sample1) else (sample1, sample2))
      in bindE (assert_ok (get_batched_shards sq pool 0 from_utxo_index to_utxo_index)) (\<lambda>batched_shards.
           assert_true (length batched_shards = unat (to_utxo_index - from_utxo_index))))"

definition get_batched_shards_by_idxs_should_work ::
  "sqlite \<Rightarrow> db \<Rightarrow> u8 \<Rightarrow> i64 \<Rightarrow> i64 \<Rightarrow> (i64 list \<Rightarrow> i64 list) \<Rightarrow> anyhow_error + unit" where
  "get_batched_shards_by_idxs_should_work sq pool s sample1 sample2 shuffle =
     (let (from_utxo_index, to_utxo_index) = (if sample2 < sample1 then (sample2, sample1) else (sample1, sample2))
      in bindE (assert_true (to_utxo_index > from_utxo_index)) (\<lambda>_.
         let idxs1 = shuffle [from_utxo_index .. to_utxo_index];
             idxs = take (length idxs1 div 2) idxs1
         in bindE (assert_ok (get_batched_shards_by_idxs sq pool s idxs)) (\<lambda>batched_shards.
            bindE (assert_true (length batched_shards = length idxs)) (\<lambda>_.
              assert_true (list_all (\<lambda>item. utxo_index item \<in> set idxs) batched_shards)))))"

text \<open>The second argument is the result of \<open>get_check_point_from_node\<close>.\<close>

definition get_latest_check_point_should_work :: "sqlite \<Rightarrow> db \<Rightarrow> anyhow_error + checkpoint \<Rightarrow> anyhow_error + unit" where
  "get_latest_check_point_should_work sq pool from_node =
     bindE (unwrap (get_latest_check_point sq pool)) (\<lambda>ckp_from_db.
     bindE (unwrap from_node) (\<lambda>ckp_from_node.
     bindE (assert_true (sender_index ckp_from_db = sender_index ckp_from_node)) (\<lambda>_.
       assert_true (receiver_index ckp_from_db = receiver_index ckp_from_node))))"

section \<open>Tests that write\<close>

definition insert_one_shard_should_work ::
  "('u, 'n, 'o) codec \<Rightarrow> sqlite \<Rightarrow> db_file option \<Rightarrow> string \<Rightarrow> 'u \<Rightarrow> 'n \<Rightarrow> anyhow_error + unit" where
  "insert_one_shard_should_work cd sq file db_url u note =
     bindE (assert_ok (initialize_db_pool sq file ''./migrations'' db_url 16)) (\<lambda>pool.
     bindE (assert_ok (insert_one_shard cd sq (file_tables pool) 0 0 u note)) (\<lambda>d.
     bindE (assert_ok (get_one_shard sq d 0 0)) (\<lambda>shard.
       assert_true (\<lparr>shard_index = 0, utxo_index = 0, utxo = utxo_encode cd u, full_incoming_note = note_encode cd note\<rparr> = shard))))"

definition insert_nullifier_should_work ::
  "('u, 'n, 'o) codec \<Rightarrow> sqlite \<Rightarrow> db_file option \<Rightarrow> string \<Rightarrow> 'o \<Rightarrow> (u64 \<Rightarrow> 'o) \<Rightarrow> anyhow_error + unit" where
  "insert_nullifier_should_work cd sq file db_url on new_on =
     bindE (assert_ok (initialize_db_pool sq file ''./migrations'' db_url 16)) (\<lambda>pool.
     bindE (assert_ok (insert_one_nullifier cd sq (file_tables pool) 1 (replicate 32 1) on)) (\<lambda>d1.
     bindE (unwrap (get_one_nullifier cd sq d1 1)) (\<lambda>nc.
     bindE (assert_true (nc = (replicate 32 1, on))) (\<lambda>_.
     bindE (foldE (\<lambda>d i. assert_ok (insert_one_nullifier cd sq d i (replicate 32 (ucast i)) (new_on i))) d1
         [2, 3, 4, 5, 6]) (\<lambda>d2.
     bindE (assert_ok (get_batched_nullifier cd sq d2 2 6)) (\<lambda>batch_nc.
       assert_true (list_all (\<lambda>(i, nc). nc = (replicate 32 (ucast i), new_on i)) (zip [2, 3, 4, 5, 6] batch_nc))))))))"

definition to_le_bytes :: "nat \<Rightarrow> bytes" where
  "to_le_bytes n = map (\<lambda>i. word_of_nat (n div 256 ^ i)) [0 ..< 16]"

definition from_le_bytes :: "bytes \<Rightarrow> nat" where
  "from_le_bytes bs = (\<Sum>(i, b) \<leftarrow> enumerate 0 bs. unat b * 256 ^ i)"

definition total_reads :: "sqlite \<Rightarrow> db \<Rightarrow> bytes \<Rightarrow> anyhow_error + db" where
  "total_reads sq d new_total =
     bindE (assert_ok (update_or_insert_total_senders_receivers sq d new_total)) (\<lambda>d'.
     bindE (assert_ok (get_total_senders_receivers sq d')) (\<lambda>val.
     bindE (assert_true (val = new_total)) (\<lambda>_. Inr d')))"

definition check_and_update_total_senders_receivers_should_work :: "sqlite \<Rightarrow> db_file option \<Rightarrow> string \<Rightarrow> anyhow_error + unit" where
  "check_and_update_total_senders_receivers_should_work sq file db_url =
     bindE (assert_ok (initialize_db_pool sq file ''./migrations'' db_url 16)) (\<lambda>pool.
     let new_total = to_le_bytes 100 in
     bindE (total_reads sq (file_tables pool) new_total) (\<lambda>d1.
     bindE (total_reads sq d1 new_total) (\<lambda>d2.
     bindE (total_reads sq d2 (to_le_bytes (from_le_bytes new_total + 50))) (\<lambda>_.
       Inr ()))))"

section \<open>Tests of the configuration, the node and the cache keys\<close>

text \<open>The result of \<open>read_config\<close> and the connection to the node are arguments, as are the answers of the node.\<close>

definition deserialize_ws_server_config_should_be_ok :: "anyhow_error + toml \<Rightarrow> anyhow_error + unit" where
  "deserialize_ws_server_config_should_be_ok read =
     bindE (unwrap read) (\<lambda>content.
     bindE (config_section content ''server'') (\<lambda>v.
     bindE (assert_ok (parse_ws_server_config v)) (\<lambda>config.
     bindE (assert_true (max_request_body_size config = 10)) (\<lambda>_.
       assert_true (ping_interval config = 30)))))"

text \<open>\<open>expect\<close> on the result of \<open>create_ws_client\<close>\<close>

definition expect_client :: "anyhow_error + unit \<Rightarrow> anyhow_error + unit" where
  "expect_client r = map_err (\<lambda>_. Panic ''failed to create ws client.'') r"

definition get_node_role_should_work ::
  "anyhow_error + toml \<Rightarrow> (string \<Rightarrow> anyhow_error + unit) \<Rightarrow> jsonrpsee_error + string list \<Rightarrow> anyhow_error + unit" where
  "get_node_role_should_work read connect roles =
     bindE (unwrap read) (\<lambda>config.
     bindE (test_setting config ''indexer'' ''full_node'') (\<lambda>node.
     bindE (expect_client (connect node)) (\<lambda>_.
     bindE (is_full_node roles) (\<lambda>full. assert_true (\<not> full)))))"

definition pull_rpc_method_must_exist_in_full_node ::
  "anyhow_error + toml \<Rightarrow> (string \<Rightarrow> anyhow_error + unit) \<Rightarrow> jsonrpsee_error + string list \<Rightarrow> anyhow_error + unit" where
  "pull_rpc_method_must_exist_in_full_node read connect methods =
     bindE (unwrap read) (\<lambda>config.
     bindE (test_setting config ''indexer'' ''full_node'') (\<lambda>node.
     bindE (test_setting config ''indexer'' ''rpc_method'') (\<lambda>rpc_method.
     bindE (expect_client (connect node)) (\<lambda>_.
     bindE (unwrap (is_the_rpc_methods_existed methods rpc_method)) (\<lambda>existed. assert_true existed)))))"

definition full_node_must_be_started_first ::
  "anyhow_error + toml \<Rightarrow> (string \<Rightarrow> anyhow_error + unit) \<Rightarrow> jsonrpsee_error + string \<Rightarrow> jsonrpsee_error + string \<Rightarrow> anyhow_error + unit" where
  "full_node_must_be_started_first read connect first_answer second_answer =
     bindE (unwrap read) (\<lambda>config.
     bindE (test_setting config ''indexer'' ''full_node'') (\<lambda>node.
     bindE (expect_client (connect node)) (\<lambda>_.
     bindE (assert_ok (is_full_node_started first_answer second_answer)) (\<lambda>is_started. assert_true is_started))))"

definition test_key_test :: "anyhow_error + unit" where
  "test_key_test =
     bindE (assert_true (receiver_key 10 234523 = 1155736254374188059)) (\<lambda>_.
       assert_true (sender_key 234588 = 2305843009213928540))"

section \<open>Lemmas\<close>

text \<open>
  With the shipped configuration and a node that can be reached, the tests of the node pass exactly
  when the node is no full node, serves the pull method, and has produced a block in between; the
  first condition is about the node of the test environment and not about the indexer.
\<close>

lemma configuration_tests_pass:
  "deserialize_ws_server_config_should_be_ok (Inr shipped_config) = Inr ()" "test_key_test = Inr ()"
  using shipped_server_config by (auto simp: deserialize_ws_server_config_should_be_ok_def test_key_test_def test_key)

lemma node_tests_pass_iff:
  assumes "connect ''ws://127.0.0.1:9800'' = Inr ()"
  shows "get_node_role_should_work (Inr shipped_config) connect (Inr roles) = Inr () \<longleftrightarrow> ''Full'' \<notin> set roles"
    and "pull_rpc_method_must_exist_in_full_node (Inr shipped_config) connect (Inr methods) = Inr () \<longleftrightarrow>
      ''mantaPay_pull_ledger_diff'' \<in> set methods"
    and "full_node_must_be_started_first (Inr shipped_config) connect (Inr hash1) (Inr hash2) = Inr () \<longleftrightarrow> hash1 \<noteq> hash2"
proof -
  have setting: "test_setting shipped_config ''indexer'' ''full_node'' = Inr ''ws://127.0.0.1:9800''"
    "test_setting shipped_config ''indexer'' ''rpc_method'' = Inr ''mantaPay_pull_ledger_diff''"
    by (simp_all add: test_setting_def shipped_config_def config_section_def)
  show "get_node_role_should_work (Inr shipped_config) connect (Inr roles) = Inr () \<longleftrightarrow> ''Full'' \<notin> set roles"
    using assms by (simp add: get_node_role_should_work_def setting expect_client_def is_full_node_def assert_true_def list_ex_iff)
  show "pull_rpc_method_must_exist_in_full_node (Inr shipped_config) connect (Inr methods) = Inr () \<longleftrightarrow>
      ''mantaPay_pull_ledger_diff'' \<in> set methods"
    using assms by (simp add: pull_rpc_method_must_exist_in_full_node_def setting expect_client_def is_the_rpc_methods_existed_def
        assert_true_def list_ex_iff)
  show "full_node_must_be_started_first (Inr shipped_config) connect (Inr hash1) (Inr hash2) = Inr () \<longleftrightarrow> hash1 \<noteq> hash2"
    using assms by (auto simp: full_node_must_be_started_first_def setting expect_client_def is_full_node_started_def assert_true_def)
qed

lemma initialize_fresh:
  assumes "fault_free sq" and "\<forall>f. old = Some f \<longrightarrow> file_tables f = empty_db"
  shows "\<exists>f. initialize_db_pool sq old path url n = Inr f \<and> file_tables f = empty_db"
  using assms by (cases old) (simp_all add: initialize_db_pool_def db_simps)

lemma scan_one: "sqlite_ok sq \<Longrightarrow> mset xs = {#x#} \<Longrightarrow> scan_shards sq xs = [x]"
  using scan_at_most_one [of "scan_shards sq" xs] mset_eq_length [of xs "[x]"] by (auto simp: sqlite_ok_def)

lemma filter_eq_upt: "filter (\<lambda>j. j = k) [0 ..< n] = (if k < n then [k] else [])"
  by (induction n) auto

lemma get_one_shard_ledger:
  assumes "sqlite_ok sq" and "fault_free sq" and "holds_ledger cd L d" and "ledger_wf L" and "unat i < length (led_receivers L s)"
  shows "get_one_shard sq d s i = Inr (shard_row cd s (unat i) (led_receivers L s ! unat i))"
proof -
  have "unat i < 2 ^ 63"
    using ledger_wfD(1) [OF assms(4), of s] assms(5) by simp
  then have n: "as_i64 i = int (unat i)"
    by (rule as_i64_small)
  have "filter (\<lambda>j. j = unat i) [0 ..< length (led_receivers L s)] = [unat i]"
    using assms(5) by (simp add: filter_eq_upt)
  then have "filter (\<lambda>r. utxo_index r = as_i64 i) (shard_rows cd s (led_receivers L s)) =
      [shard_row cd s (unat i) (led_receivers L s ! unat i)]"
    unfolding shard_rows_def filter_map comp_def n shard_row_simps of_nat_eq_iff by simp
  then have "mset (filter (\<lambda>r. shard_index r = s \<and> utxo_index r = as_i64 i) (tbl_shards d)) =
      {#shard_row cd s (unat i) (led_receivers L s ! unat i)#}"
    using holds_shards_filter [OF assms(3), of s "\<lambda>r. utxo_index r = as_i64 i"] by simp
  from scan_one [OF assms(1) this] show ?thesis
    using assms(2) by (simp add: get_one_shard_def db_simps Let_def)
qed

lemma get_batched_shards_count:
  assumes "sqlite_ok sq" and "fault_free sq" and "holds_ledger cd L d" and "ledger_wf L"
    and "unat a \<le> unat b" and "unat b \<le> length (led_receivers L s)"
  shows "\<exists>rows. get_batched_shards sq d s a b = Inr rows \<and> length rows = unat b - unat a"
proof -
  let ?P = "\<lambda>r. as_i64 a \<le> utxo_index r \<and> utxo_index r < as_i64 b"
  have "unat b < 2 ^ 63"
    using ledger_wfD(1) [OF assms(4), of s] assms(6) by simp
  then have n: "as_i64 a = int (unat a)" "as_i64 b = int (unat b)"
    using assms(5) by (simp_all add: as_i64_small)
  have "filter ?P (shard_rows cd s (led_receivers L s)) =
      map (\<lambda>j. shard_row cd s j (led_receivers L s ! j)) (filter (\<lambda>j. unat a \<le> j \<and> j < unat b) [0 ..< length (led_receivers L s)])"
    unfolding shard_rows_def filter_map comp_def n shard_row_simps of_nat_le_iff of_nat_less_iff ..
  moreover have "length (filter (\<lambda>j. unat a \<le> j \<and> j < unat b) [0 ..< length (led_receivers L s)]) = unat b - unat a"
  proof -
    have "{j. j < length (led_receivers L s) \<and> unat a \<le> [0 ..< length (led_receivers L s)] ! j \<and>
        [0 ..< length (led_receivers L s)] ! j < unat b} = {unat a ..< unat b}"
      using assms(6) by auto
    then show ?thesis by (simp add: length_filter_conv_card)
  qed
  ultimately have "length (filter (\<lambda>r. shard_index r = s \<and> ?P r) (tbl_shards d)) = unat b - unat a"
    using mset_eq_length [OF holds_shards_filter [OF assms(3), of s ?P]] by simp
  then have "length (scan_shards sq (filter (\<lambda>r. shard_index r = s \<and> ?P r) (tbl_shards d))) = unat b - unat a"
    using assms(1) visits_each_once_props(3) [of "scan_shards sq"] by (simp add: sqlite_ok_def)
  then show ?thesis
    using assms(2) by (simp add: get_batched_shards_def db_simps)
qed

lemma word_of_int_idxs:
  assumes "\<forall>i \<in> set idxs. 0 \<le> i \<and> i < 2 ^ 63"
  shows "map as_i64 (map word_of_int idxs) = idxs" and "map unat (map word_of_int idxs :: u64 list) = map nat idxs"
proof -
  have w: "unat (word_of_int i :: u64) = nat i" if "i \<in> set idxs" for i
    using assms that by (fastforce simp: unat_eq_nat_uint uint_word_of_int_eq intro!: arg_cong [where f = nat] take_bit_int_eq_self)
  then show "map unat (map word_of_int idxs :: u64 list) = map nat idxs"
    by simp
  have "as_i64 (word_of_int i) = i" if "i \<in> set idxs" for i
  proof -
    have "nat i < 2 ^ 63" and "0 \<le> i"
      using assms that by (auto simp: nat_less_iff)
    then show ?thesis
      using w [OF that] as_i64_small [of "word_of_int i"] by simp
  qed
  then show "map as_i64 (map word_of_int idxs) = idxs"
    by (simp add: map_idI)
qed

lemma get_batched_shards_by_idxs_count:
  assumes "sqlite_ok sq" and "fault_free sq" and "holds_ledger cd L d" and "ledger_wf L"
    and "distinct idxs" and "\<forall>i \<in> set idxs. 0 \<le> i \<and> i < int (length (led_receivers L s))"
  shows "\<exists>rows. get_batched_shards_by_idxs sq d s idxs = Inr rows \<and> length rows = length idxs \<and>
    (\<forall>r \<in> set rows. utxo_index r \<in> set idxs)"
proof -
  have small: "\<forall>i \<in> set idxs. 0 \<le> i \<and> i < 2 ^ 63"
    using assms(6) ledger_wfD(1) [OF assms(4), of s] by fastforce
  note idxs = word_of_int_idxs [OF small]
  have "distinct (map word_of_int idxs :: u64 list)"
    using assms(5) by (metis distinct_map idxs(1))
  from get_batched_shards_by_idxs_ledger [OF assms(1-4) this, of s] obtain rows where
    rows: "get_batched_shards_by_idxs sq d s idxs = Inr rows"
    "mset rows = mset (map (\<lambda>i. shard_row cd s i (led_receivers L s ! i)) (filter (\<lambda>i. i < length (led_receivers L s)) (map nat idxs)))"
    unfolding idxs by blast
  have "filter (\<lambda>i. i < length (led_receivers L s)) (map nat idxs) = map nat idxs"
    using assms(6) by (auto simp: filter_id_conv)
  then have "length rows = length idxs"
    using mset_eq_length [OF rows(2)] by simp
  moreover have "\<forall>r \<in> set rows. utxo_index r \<in> set idxs"
    using mset_eq_setD [OF get_batched_shards_by_idxs_Inr [OF assms(1) rows(1)]] by auto
  ultimately show ?thesis using rows(1) by blast
qed

lemma sorted_scan_unique:
  assumes "sqlite_ok sq" and "sorted (map idx (scan_nullifier sq rows))" and "sorted (map idx rows)" and "distinct (map idx rows)"
  shows "scan_nullifier sq rows = rows"
proof -
  have m: "mset (scan_nullifier sq rows) = mset rows"
    using assms(1) by (simp add: sqlite_ok_def visits_each_once_def)
  then have "distinct (map idx (scan_nullifier sq rows))"
    using assms(4) by (metis mset_eq_imp_distinct_iff mset_map)
  moreover have "inj_on idx (set (scan_nullifier sq rows) \<union> set rows)"
    using assms(4) mset_eq_setD [OF m] by (simp add: distinct_map)
  ultimately show ?thesis
    using assms(2-4) mset_eq_setD [OF m] by (intro map_sorted_distinct_set_unique) auto
qed

section \<open>Properties\<close>

text \<open>
  C26. The reading tests of \<open>src/db.rs\<close> pass on every database that holds a ledger with at least two
  receivers in shard 0, for both values that \<open>get_batched_shards_should_work\<close> can draw. The ignored
  test \<open>get_batched_shards_by_idxs_should_work\<close>, on a shard with at least 50 receivers, passes exactly
  when the two indices it draws are different: its assertion fails on two equal ones.
\<close>

theorem reading_tests_pass:
  assumes "sqlite_ok sq" and "fault_free sq" and "holds_ledger cd L d" and "ledger_wf L"
    and "2 \<le> length (led_receivers L 0)" and "a < 2" and "b < 2"
    and "50 \<le> length (led_receivers L s)" and "0 \<le> i" "i < 50" "0 \<le> j" "j < 50" and "\<forall>xs. mset (shuffle xs) = mset xs"
  shows "get_one_shard_should_work sq d = Inr () \<and> has_shard_should_work sq d = Inr () \<and>
    get_batched_shards_should_work sq d a b = Inr () \<and>
    get_batched_shards_by_idxs_should_work sq d s i j shuffle = (if i = j then Inl (Panic ''assertion failed'') else Inr ())"
proof (intro conjI)
  show "get_one_shard_should_work sq d = Inr ()"
    using get_one_shard_ledger [OF assms(1-4), of 0 0] assms(5) by (force simp: get_one_shard_should_work_def)
  have "unat (- 1 :: u64) = 2 ^ 64 - 1"
    by (simp add: unsigned_minus_1_eq_mask mask_eq_exp_minus_1)
  then show "has_shard_should_work sq d = Inr ()"
    using has_shard_ledger [OF assms(1-4), of 0] ledger_wfD(1) [OF assms(4), of 0] assms(5)
    by (cases "led_receivers L 0") (auto simp: has_shard_should_work_def Let_def)
  have "unat a < 2" "unat b < 2"
    using assms(6,7) by (simp_all add: word_less_nat_alt)
  then have "\<exists>rows. get_batched_shards sq d 0 x y = Inr rows \<and> length rows = unat (y - x)"
    if "x \<in> {a, b}" "y \<in> {a, b}" "x \<le> y" for x y
    using get_batched_shards_count [OF assms(1-4), of x y 0] that assms(5) unat_sub [OF that(3)]
    by (fastforce simp: word_le_nat_alt)
  from this [of a b] this [of b a] show "get_batched_shards_should_work sq d a b = Inr ()"
    using less_imp_le [of b a] by (cases "b < a") (auto simp: get_batched_shards_should_work_def not_less)
  show "get_batched_shards_by_idxs_should_work sq d s i j shuffle = (if i = j then Inl (Panic ''assertion failed'') else Inr ())"
  proof (cases "i = j")
    case False
    define lo hi where "lo = min i j" and "hi = max i j"
    have swap: "(if j < i then (j, i) else (i, j)) = (lo, hi)" "lo < hi"
      using False by (auto simp: lo_def hi_def)
    define idxs where "idxs = take (length (shuffle [lo .. hi]) div 2) (shuffle [lo .. hi])"
    have m: "mset (shuffle [lo .. hi]) = mset [lo .. hi]"
      using assms(13) by blast
    then have "distinct (shuffle [lo .. hi])"
      by (metis distinct_upto mset_eq_imp_distinct_iff)
    then have "distinct idxs" by (simp add: idxs_def)
    moreover have "set idxs \<subseteq> {lo .. hi}"
      using set_take_subset mset_eq_setD [OF m] by (fastforce simp: idxs_def)
    then have "\<forall>k \<in> set idxs. 0 \<le> k \<and> k < int (length (led_receivers L s))"
      using assms(8-12) by (fastforce simp: lo_def hi_def)
    moreover have "length idxs = length (shuffle [lo .. hi]) div 2"
      by (simp add: idxs_def)
    ultimately show ?thesis
      using get_batched_shards_by_idxs_count [OF assms(1-4), of idxs s] False swap(2)
      by (auto simp: get_batched_shards_by_idxs_should_work_def swap(1) idxs_def [symmetric] Let_def list_all_iff)
  qed (simp add: get_batched_shards_by_idxs_should_work_def)
qed

text \<open>A ledger with \<open>n\<close> receivers in shard 0.\<close>

definition test_ledger :: "nat \<Rightarrow> (u8, u8, u8) ledger" where
  "test_ledger n = \<lparr>led_receivers = (\<lambda>s. if s = 0 then replicate n (1, 2) else []), led_senders = []\<rparr>"

definition test_db :: "nat \<Rightarrow> db" where
  "test_db n = \<lparr>tbl_shards = shard_rows byte_codec 0 (replicate n (1, 2)), tbl_nullifier = [], tbl_total = None\<rparr>"

lemma test_db_holds: "holds_ledger byte_codec (test_ledger n) (test_db n)" "n < 2 ^ 47 \<Longrightarrow> ledger_wf (test_ledger n)"
proof -
  have "filter (\<lambda>r. shard_index r = s) (shard_rows byte_codec 0 (replicate n (1, 2))) =
      (if s = 0 then shard_rows byte_codec 0 (replicate n (1, 2)) else [])" for s
    by (auto simp: shard_rows_def filter_map comp_def intro!: filter_True filter_False)
  then show "holds_ledger byte_codec (test_ledger n) (test_db n)"
    by (simp add: holds_ledger_def test_ledger_def test_db_def shard_rows_def nullifier_rows_def)
  show "n < 2 ^ 47 \<Longrightarrow> ledger_wf (test_ledger n)"
    by (simp add: ledger_wf_def test_ledger_def)
qed

theorem reading_tests_pass_witness:
  "get_batched_shards_should_work demo_sqlite (test_db 50) 1 0 = Inr () \<and>
   get_batched_shards_by_idxs_should_work demo_sqlite (test_db 50) 0 7 7 rev = Inl (Panic ''assertion failed'')"
  using reading_tests_pass [OF demo.engine test_db_holds, of 50 1 0 0 7 7 rev] by (simp add: test_ledger_def)

text \<open>
  The writing tests of \<open>src/db.rs\<close> pass on a new or empty database file, for every codec and every
  UTXO and note; the test of the nullifiers needs an engine that scans the rows in the order of
  their primary key, because it compares a result that no clause orders.
\<close>

lemma writing_tests_pass:
  assumes "scale_codec cd" and "sqlite_ok sq" and "fault_free sq" and "\<forall>f. old = Some f \<longrightarrow> file_tables f = empty_db"
    and "\<forall>rows. sorted (map idx (scan_nullifier sq rows))"
  shows "insert_one_shard_should_work cd sq old db_url u note = Inr () \<and>
    insert_nullifier_should_work cd sq old db_url on new_on = Inr () \<and>
    check_and_update_total_senders_receivers_should_work sq old db_url = Inr ()"
proof (intro conjI)
  obtain f where f: "initialize_db_pool sq old ''./migrations'' db_url 16 = Inr f" "file_tables f = empty_db"
    using initialize_fresh [OF assms(3,4)] by blast
  have one: "scan_shards sq [x] = [x]" for x
    using scan_one [OF assms(2), of "[x]" x] by simp
  then show "insert_one_shard_should_work cd sq old db_url u note = Inr ()"
    using assms(3) by (simp add: insert_one_shard_should_work_def f insert_one_shard_def get_one_shard_def db_simps Let_def empty_db_def
        as_i64_def)
  show "check_and_update_total_senders_receivers_should_work sq old db_url = Inr ()"
    using assms(3)
    by (simp add: check_and_update_total_senders_receivers_should_work_def f total_reads_def to_le_bytes_def
        update_or_insert_total_senders_receivers_def get_total_senders_receivers_def db_simps Let_def)
  have scan: "scan_nullifier sq rows = rows" if "sorted (map idx rows)" "distinct (map idx rows)" for rows
    by (rule sorted_scan_unique [OF assms(2) _ that]) (use assms(5) in blast)
  have row: "nullifier_of_row cd what \<lparr>idx = k, nullifier_commitment = commitment_encode cd (replicate 32 x),
      outgoing_note = outgoing_encode cd y\<rparr> = Inr (replicate 32 x, y)" for what k x y
    using scale_codec.commitment_bytes [OF assms(1)] scale_codec.outgoing_roundtrip [OF assms(1)]
    by (simp add: nullifier_of_row_def)
  have i64: "as_i64 1 = 1" "as_i64 2 = 2" "as_i64 3 = 3" "as_i64 4 = 4" "as_i64 5 = 5" "as_i64 6 = 6"
    by (simp_all add: as_i64_def)
  show "insert_nullifier_should_work cd sq old db_url on new_on = Inr ()"
    using assms(3)
    by (simp add: insert_nullifier_should_work_def f insert_one_nullifier_def insert_or_replace_nullifier get_one_nullifier_def
        get_batched_nullifier_def db_simps Let_def empty_db_def i64 scan row)
qed

lemma writing_tests_pass_sorting:
  "insert_nullifier_should_work byte_codec sorting_sqlite None ''tmp-utxo.db'' 0 (\<lambda>i. ucast i) = Inr ()"
  using writing_tests_pass [OF one_byte.scale_codec_axioms sorting_sqlite_ok(1,2), of None] sorting_sqlite_ok by simp

text \<open>
  C25. The test of the checkpoints passes: with the shipped configuration, a node that can be reached and
  whose chain does not change, no faults, and a new database, \<open>create_test_db_or_first_pull\<close> returns a
  database that holds the whole chain, and the checkpoint that \<open>get_latest_check_point\<close> computes from
  it is the one that \<open>get_check_point_from_node\<close> finds by walking over the node.
\<close>

theorem checkpoint_test_passes:
  assumes "lru_crate lr" and "live_world forest world (\<lambda>_. C) bound" and "sqlite_ok sq" and "fault_free sq"
    and "read = Inr shipped_config" and "connect ''ws://127.0.0.1:9800'' = Inr ()"
    and "\<forall>f. files tmp_path = Some f \<longrightarrow> file_tables f = empty_db" and "\<forall>k. lru_peek lr cache k = None"
  shows "\<exists>st from_node. create_test_db_or_first_pull cd lr forest world sq read connect files tmp_path cache True = Some (Inr st) \<and>
    holds_ledger cd C (st_db st) \<and>
    get_check_point_from_node forest (\<lambda>t. order_of (world t)) (Inr (\<lambda>t. node_of (world t))) = Some from_node \<and>
    get_latest_check_point_should_work sq (st_db st) from_node = Inr ()"
proof -
  have node: "test_setting shipped_config ''indexer'' ''full_node'' = Inr ''ws://127.0.0.1:9800''"
    by (simp add: test_setting_def shipped_config_def config_section_def)
  obtain f where f: "initialize_db_pool sq (files tmp_path) ''./migrations'' tmp_path 16 = Inr f" "file_tables f = empty_db"
    using initialize_fresh [OF assms(4,7)] by blast
  define st0 where "st0 = \<lparr>st_db = empty_db, st_cache = cache, init_syncing_finished = False\<rparr>"
  have "represents cd lr empty_ledger st0"
    using assms(8) by (simp add: represents_def st0_def empty_db_holds cache_coherent_def)
  from call_completes [where mc = "(1024, 1024)" and t = 0 and refresh = True, OF assms(1,2) _ _ this empty_ledger_le]
  obtain st t' where st: "sync_shards_from_full_node cd lr forest world (1024, 1024) True 0 st0 = Some (Inr (), st, Suc t')"
    "represents cd lr C st" by auto
  have holds: "holds_ledger cd C (st_db st)"
    using st(2) by (simp add: represents_def)
  have wf: "ledger_wf C"
    using honest_world.chain_wf [of forest world "\<lambda>_. C" 0] assms(2) by (simp add: live_world_def)
  have "\<not> has_shard sq empty_db 0 0"
    using has_shard_ledger [OF assms(3,4) empty_db_holds, of 0 0] by (simp add: ledger_wf_def empty_ledger_def)
  then have created: "create_test_db_or_first_pull cd lr forest world sq read connect files tmp_path cache True = Some (Inr st)"
    using st(1) assms(5,6) by (simp add: create_test_db_or_first_pull_def node f st0_def Let_def)
  have walk: "get_check_point_from_node forest (\<lambda>t. order_of (world t)) (Inr (\<lambda>t. node_of (world t))) = Some (Inr (checkpoint_of C))"
    using get_check_point_from_node_correct [OF assms(2)] by simp
  have "get_latest_check_point sq (st_db st) = Inr (checkpoint_of C)"
    by (rule get_latest_check_point_ledger [OF assms(4) holds wf])
  then show ?thesis
    using created holds walk by (simp add: get_latest_check_point_should_work_def)
qed

theorem checkpoint_test_passes_witness:
  "\<exists>st from_node. create_test_db_or_first_pull byte_codec recency_lru demo_forest (\<lambda>_. serving_world demo_sqlite rev demo_ledger)
      demo_sqlite (Inr shipped_config) (\<lambda>_. Inr ()) (\<lambda>_. None) ''tmp-utxo.db'' (lru_new recency_lru 8) True = Some (Inr st) \<and>
    holds_ledger byte_codec demo_ledger (st_db st) \<and>
    get_latest_check_point_should_work demo_sqlite (st_db st) from_node = Inr ()"
  using checkpoint_test_passes [OF recency.lru_crate_axioms demo_node.live.live_world_axioms demo.engine refl,
      of "\<lambda>_. Inr ()" "\<lambda>_. None" "''tmp-utxo.db''" "lru_new recency_lru 8" byte_codec]
  by (auto simp: recency.new_empty)

end
