(* ===== verification/Sync_Tests.thy ===== *)
theory Sync_Tests
  imports Repository_Tests
begin

text \<open>
  Tests of \<open>src/indexer/sync.rs\<close> as programs over the model, like those of theory \<open>Repository_Tests\<close>. They
  submit extrinsics and read the storage of the node through a second client, the \<open>manta_xt\<close> crate:
  its client, the decoding and the submission of a transfer post, and the storage are parameters. The
  background job runs while such a test sleeps; what the test sees of it is the database at its two
  reads, which is given by the ledgers that the tables hold then.
\<close>

section \<open>Minting coins\<close>

text \<open>\<open>config[part]["configuration"][key].as_integer().unwrap()\<close>\<close>

definition test_integer :: "toml \<Rightarrow> string \<Rightarrow> string \<Rightarrow> anyhow_error + int" where
  "test_integer config part key =
     bindE (config_section config part) (\<lambda>v.
     bindE (toml_index v key) (\<lambda>x. ok_or (Panic ''called unwrap on a None value'') (as_integer x)))"

text \<open>The client for the indexer: \<open>connect\<close> gets the port from which the address is formatted.\<close>

definition indexer_client :: "anyhow_error + toml \<Rightarrow> (int \<Rightarrow> anyhow_error + unit) \<Rightarrow> anyhow_error + unit" where
  "indexer_client read connect =
     bindE (unwrap read) (\<lambda>config.
     bindE (test_integer config ''indexer'' ''port'') (\<lambda>port.
       map_err (\<lambda>_. Panic ''Failed to create client.'') (connect port)))"

text \<open>\<open>&contents[start..start + coin_size]\<close>, decoded\<close>

definition coin_size :: nat where "coin_size = 552"

definition coin_at :: "(bytes \<Rightarrow> anyhow_error + 'post) \<Rightarrow> bytes \<Rightarrow> nat \<Rightarrow> anyhow_error + 'post" where
  "coin_at decode contents start =
     (if start + coin_size \<le> length contents then unwrap (decode (take coin_size (drop start contents)))
      else Inl (Panic ''range end index out of range''))"

text \<open>One batch: five coins from \<open>start\<close> on, then the extrinsic.\<close>

definition mint_batch ::
  "(bytes \<Rightarrow> anyhow_error + 'post) \<Rightarrow> ('post list \<Rightarrow> anyhow_error + unit) \<Rightarrow> bytes \<Rightarrow> nat \<times> 'post list list \<Rightarrow>
   anyhow_error + nat \<times> 'post list list" where
  "mint_batch decode submit contents st =
     (case st of (start, sent) \<Rightarrow>
        bindE (foldE (\<lambda>(start, batch) _.
            bindE (coin_at decode contents start) (\<lambda>post. Inr (start + coin_size, batch @ [post]))) (start, []) [0 ..< 5]) (\<lambda>(start', batch).
        bindE (unwrap (submit batch)) (\<lambda>_.
          Inr (start', sent @ [batch]))))"

definition mint_private_coins ::
  "anyhow_error + toml \<Rightarrow> (int \<Rightarrow> anyhow_error + unit) \<Rightarrow> anyhow_error + (anyhow_error + bytes) \<Rightarrow> anyhow_error + unit \<Rightarrow>
   (bytes \<Rightarrow> anyhow_error + 'post) \<Rightarrow> ('post list \<Rightarrow> anyhow_error + unit) \<Rightarrow> anyhow_error + 'post list list" where
  "mint_private_coins read connect file signer decode submit =
     bindE (indexer_client read connect) (\<lambda>_.
     bindE (unwrap file) (\<lambda>buf_reader.
     bindE (unwrap buf_reader) (\<lambda>contents.
     bindE (unwrap signer) (\<lambda>_.
     if contents = [] then Inl (Panic ''attempt to subtract with overflow'')
     else let batch_size = 5; off_set = 1; coin_count = (length contents - off_set) div coin_size
          in bindE (foldE (\<lambda>st m. mint_batch decode submit contents st) (off_set, []) [0 ..< coin_count div batch_size]) (\<lambda>(start, sent).
               Inr sent)))))"

definition mint_one_coin ::
  "anyhow_error + toml \<Rightarrow> (int \<Rightarrow> anyhow_error + unit) \<Rightarrow> anyhow_error + (anyhow_error + bytes) \<Rightarrow> anyhow_error + unit \<Rightarrow>
   (bytes \<Rightarrow> anyhow_error + 'post) \<Rightarrow> ('post \<Rightarrow> anyhow_error + unit) \<Rightarrow> anyhow_error + 'post" where
  "mint_one_coin read connect file signer decode submit =
     bindE (indexer_client read connect) (\<lambda>_.
     bindE (unwrap file) (\<lambda>buf_reader.
     bindE (unwrap buf_reader) (\<lambda>contents.
     bindE (unwrap signer) (\<lambda>_.
     bindE (coin_at decode contents 1) (\<lambda>post.
     bindE (unwrap (submit post)) (\<lambda>_. Inr post))))))"

section \<open>Comparing with the storage of the node\<close>

definition fetch_item :: "(u8 \<Rightarrow> u64 \<Rightarrow> anyhow_error + ('u \<times> 'n) option) \<Rightarrow> u8 \<Rightarrow> u64 \<Rightarrow> anyhow_error + 'u \<times> 'n" where
  "fetch_item fetch s i = bindE (unwrap (fetch s i)) (\<lambda>item. ok_or (Panic ''called unwrap on a None value'') item)"

definition sample_shards :: "(u8 \<times> u64) list" where
  "sample_shards = [(31, 0), (123, 0), (60, 1), (167, 2), (136, 1)]"

text \<open>\<open>&shards.get(&shard_index).as_ref().unwrap()[utxo_index as usize]\<close>\<close>

definition reconstructed_at :: "('u, 'n) shard_map \<Rightarrow> u8 \<Rightarrow> u64 \<Rightarrow> anyhow_error + 'u \<times> 'n" where
  "reconstructed_at shards s i =
     bindE (ok_or (Panic ''called unwrap on a None value'') (map_of shards s)) (\<lambda>items.
       if unat i < length items then Inr (items ! unat i) else Inl (Panic ''index out of bounds''))"

definition reconstruct_shards_should_be_correct ::
  "('u, 'n, 'o) codec \<Rightarrow> 'u forest \<Rightarrow> ('u, 'n, 'o) full_node \<Rightarrow> anyhow_error + toml \<Rightarrow> (string \<Rightarrow> anyhow_error + unit) \<Rightarrow>
   (string \<Rightarrow> anyhow_error + unit) \<Rightarrow> (u8 \<Rightarrow> u64 \<Rightarrow> anyhow_error + ('u \<times> 'n) option) \<Rightarrow> anyhow_error + unit" where
  "reconstruct_shards_should_be_correct cd forest node read connect connect_api fetch =
     bindE (unwrap read) (\<lambda>config.
     bindE (test_setting config ''indexer'' ''full_node'') (\<lambda>url.
     bindE (unwrap (connect url)) (\<lambda>_.
     bindE (unwrap (synchronize_ledger node checkpoint_default (1024 * 6) (1024 * 6))) (\<lambda>resp.
     bindE (unwrap (reconstruct_shards_from_pull_response forest resp)) (\<lambda>shards.
     bindE (map_err (\<lambda>_. Panic ''Failed to create client.'') (connect_api url)) (\<lambda>_.
       foldE (\<lambda>_ (shard_index, utxo_index).
         bindE (fetch_item fetch shard_index utxo_index) (\<lambda>(onchain_utxo, onchain_note).
         bindE (reconstructed_at shards shard_index utxo_index) (\<lambda>reconstructed.
         bindE (assert_true (utxo_encode cd onchain_utxo = utxo_encode cd (fst reconstructed))) (\<lambda>_.
           assert_true (note_encode cd onchain_note = note_encode cd (snd reconstructed)))))) () sample_shards))))))"

text \<open>The new items of one shard, and the loop over the shards, which counts them.\<close>

definition check_new_item ::
  "('u, 'n, 'o) codec \<Rightarrow> 'u \<Rightarrow> 'n \<Rightarrow> (u8 \<Rightarrow> u64 \<Rightarrow> anyhow_error + ('u \<times> 'n) option) \<Rightarrow> u8 \<Rightarrow> u64 \<Rightarrow> anyhow_error + unit" where
  "check_new_item cd default_utxo default_note fetch s i =
     bindE (fetch_item fetch s i) (\<lambda>(u, note).
     bindE (assert_true (utxo_encode cd u \<noteq> utxo_encode cd default_utxo)) (\<lambda>_.
       assert_true (note_encode cd note \<noteq> note_encode cd default_note)))"

definition count_new_items ::
  "(u8 \<Rightarrow> u64 \<Rightarrow> anyhow_error + unit) \<Rightarrow> checkpoint \<Rightarrow> checkpoint \<Rightarrow> anyhow_error + u64" where
  "count_new_items check last_check_point current_check_point =
     foldE (\<lambda>count s.
       let last' = receiver_index last_check_point s; current = receiver_index current_check_point s
       in bindE (assert_true (current \<ge> last')) (\<lambda>_.
            if current > last'
            then bindE (foldE (\<lambda>_ i. check s i) () (range_u64 last' current)) (\<lambda>_. Inr (count + (current - last')))
            else Inr count)) 0 all_u8"

text \<open>\<open>before\<close> and \<open>after\<close> are the database at the two reads, \<open>minted\<close> the result of \<open>mint_private_coins\<close>.\<close>

definition incremental_synchronization_should_work ::
  "('u, 'n, 'o) codec \<Rightarrow> sqlite \<Rightarrow> 'u \<Rightarrow> 'n \<Rightarrow> (u8 \<Rightarrow> u64 \<Rightarrow> anyhow_error + ('u \<times> 'n) option) \<Rightarrow> db \<Rightarrow>
   anyhow_error + 'post list list \<Rightarrow> db \<Rightarrow> anyhow_error + unit" where
  "incremental_synchronization_should_work cd sq default_utxo default_note fetch before minted after =
     bindE (unwrap (get_latest_check_point sq before)) (\<lambda>last_check_point.
     bindE minted (\<lambda>_.
     bindE (unwrap (get_latest_check_point sq after)) (\<lambda>current_check_point.
     bindE (count_new_items (check_new_item cd default_utxo default_note fetch) last_check_point current_check_point) (\<lambda>count.
     bindE (assert_true (unat count = 10)) (\<lambda>_.
       assert_true (count \<ge> 1))))))"

section \<open>Lemmas: minting\<close>

text \<open>The coin with a number.\<close>

definition coin :: "bytes \<Rightarrow> nat \<Rightarrow> bytes" where
  "coin contents j = take coin_size (drop (1 + j * coin_size) contents)"

lemma coin_at_number:
  assumes "j < (length contents - 1) div coin_size" and "decode (coin contents j) = Inr (post j)"
  shows "coin_at decode contents (1 + j * coin_size) = Inr (post j)"
proof -
  have "Suc j * coin_size \<le> (length contents - 1) div coin_size * coin_size"
    using assms(1) by (intro mult_le_mono1) simp
  also have "\<dots> \<le> length contents - 1" by simp
  finally have "1 + j * coin_size + coin_size \<le> length contents"
    by (cases contents) (simp_all add: coin_size_def)
  then show ?thesis
    using assms(2) by (simp add: coin_at_def coin_def)
qed

lemma mint_batch_ok:
  assumes "5 * m + 5 \<le> (length contents - 1) div coin_size"
    and "\<And>j. j < (length contents - 1) div coin_size \<Longrightarrow> decode (coin contents j) = Inr (post j)" and "\<And>b. submit b = Inr ()"
  shows "mint_batch decode submit contents (1 + 5 * m * coin_size, sent) =
    Inr (1 + 5 * Suc m * coin_size, sent @ [map post [5 * m ..< 5 * m + 5]])"
proof -
  have "foldE (\<lambda>(start, batch) _. bindE (coin_at decode contents start) (\<lambda>post. Inr (start + coin_size, batch @ [post])))
      (1 + 5 * m * coin_size, []) [0 ..< n] = Inr (1 + (5 * m + n) * coin_size, map post [5 * m ..< 5 * m + n])" if "n \<le> 5" for n
    using that
  proof (induction n)
    case (Suc n)
    then have "coin_at decode contents (1 + (5 * m + n) * coin_size) = Inr (post (5 * m + n))"
      using coin_at_number [of "5 * m + n" contents decode post] assms(1,2) by simp
    then show ?case
      using Suc by (simp add: foldE_append)
  qed simp
  from this [of 5] show ?thesis
    using assms(3) by (simp add: mint_batch_def algebra_simps)
qed

text \<open>All coins of the file are sent, five at a time and in order, up to a rest of fewer than five.\<close>

lemma mint_private_coins_ok:
  assumes "indexer_client read connect = Inr ()" and "contents \<noteq> []" and "signer = Inr ()"
    and "\<And>j. j < (length contents - 1) div coin_size \<Longrightarrow> decode (coin contents j) = Inr (post j)" and "\<And>b. submit b = Inr ()"
  shows "mint_private_coins read connect (Inr (Inr contents)) signer decode submit =
    Inr (map (\<lambda>m. map post [5 * m ..< 5 * m + 5]) [0 ..< (length contents - 1) div coin_size div 5])"
proof -
  have "foldE (\<lambda>st m. mint_batch decode submit contents st) (1, []) [0 ..< n] =
      Inr (1 + 5 * n * coin_size, map (\<lambda>m. map post [5 * m ..< 5 * m + 5]) [0 ..< n])"
    if "n \<le> (length contents - 1) div coin_size div 5" for n
    using that
  proof (induction n)
    case (Suc n)
    then have "5 * n + 5 \<le> (length contents - 1) div coin_size"
      by linarith
    from mint_batch_ok [of n contents decode post submit, OF this assms(4,5)] show ?case
      using Suc by (simp add: foldE_append)
  qed simp
  then show ?thesis
    using assms(1-3) by (simp add: mint_private_coins_def)
qed

section \<open>Lemmas: new items\<close>

lemma count_new_items_sum:
  assumes "\<And>s. receiver_index ckp s \<le> receiver_index ckp' s"
    and "\<And>s i. i \<in> set (range_u64 (receiver_index ckp s) (receiver_index ckp' s)) \<Longrightarrow> check s i = Inr ()"
  shows "count_new_items check ckp ckp' =
    Inr (word_of_nat (\<Sum>s \<leftarrow> all_u8. unat (receiver_index ckp' s) - unat (receiver_index ckp s)))"
proof -
  let ?n = "\<lambda>s. unat (receiver_index ckp' s) - unat (receiver_index ckp s)"
  have diff: "receiver_index ckp' s - receiver_index ckp s = word_of_nat (?n s)" for s
    by (simp flip: unat_sub [OF assms(1)])
  have "foldE (\<lambda>_ i. check s i) () (range_u64 (receiver_index ckp s) (receiver_index ckp' s)) = Inr ()" for s
    using foldE_total [of "range_u64 (receiver_index ckp s) (receiver_index ckp' s)" "\<lambda>_ i. check s i" "\<lambda>_ _. ()"] assms(2) by simp
  then have "count_new_items check ckp ckp' = Inr (fold (\<lambda>s count. count + word_of_nat (?n s)) all_u8 0)"
    unfolding count_new_items_def using assms(1)
    by (intro foldE_total) (auto simp: Let_def diff not_less dest: antisym [OF assms(1)])
  moreover have "fold (\<lambda>s count. count + word_of_nat (?n s)) ss c = c + word_of_nat (\<Sum>s \<leftarrow> ss. ?n s)" for ss and c :: u64
    by (induction ss arbitrary: c) (simp_all add: add.assoc)
  ultimately show ?thesis by simp
qed

lemma length_all_u8: "length all_u8 = 256"
  by (simp add: all_u8_def)

lemma sum_all_u8_le: "(\<And>s. f s \<le> b) \<Longrightarrow> (\<Sum>s \<leftarrow> all_u8. f s) \<le> 256 * (b :: nat)"
  using sum_list_mono [of all_u8 f "\<lambda>_. b"] by (simp add: sum_list_triv length_all_u8)

section \<open>When the tests pass\<close>

text \<open>
  The test of the incremental synchronisation: from the file of 5521 bytes \<open>mint_private_coins\<close> submits
  its ten coins in two batches, in order. When the tables held a ledger at the first read and a longer
  one at the second, the storage of the node has the receivers of the latter, and no new item is a
  default value, the test passes exactly when ten receivers were added in between, however they are
  distributed over the shards; otherwise it fails at an assertion.
\<close>

lemma incremental_test_passes_iff:
  assumes "indexer_client read connect = Inr ()" and "length contents = 5521"
    and "\<And>j. j < 10 \<Longrightarrow> decode (coin contents j) = Inr (post j)" and "\<And>b. submit b = Inr ()"
    and "fault_free sq" and "holds_ledger cd L before" and "holds_ledger cd L' after" and "ledger_le L L'" and "ledger_wf L'"
    and "\<forall>s i. unat i < length (led_receivers L' s) \<longrightarrow> fetch s i = Inr (Some (led_receivers L' s ! unat i))"
    and "\<forall>s. \<forall>(u, v) \<in> set (drop (length (led_receivers L s)) (led_receivers L' s)).
      utxo_encode cd u \<noteq> utxo_encode cd default_utxo \<and> note_encode cd v \<noteq> note_encode cd default_note"
  shows "mint_private_coins read connect (Inr (Inr contents)) (Inr ()) decode submit = Inr [map post [0 ..< 5], map post [5 ..< 10]] \<and>
    incremental_synchronization_should_work cd sq default_utxo default_note fetch before
      (mint_private_coins read connect (Inr (Inr contents)) (Inr ()) decode submit) after =
    (if (\<Sum>s \<leftarrow> all_u8. length (led_receivers L' s) - length (led_receivers L s)) = 10 then Inr ()
     else Inl (Panic ''assertion failed''))"
proof -
  have "[0 ..< 2] = [0, Suc 0]" by (simp add: upt_rec)
  moreover have "contents \<noteq> []" using assms(2) by auto
  ultimately have minted: "mint_private_coins read connect (Inr (Inr contents)) (Inr ()) decode submit = Inr [map post [0 ..< 5], map post [5 ..< 10]]"
    using mint_private_coins_ok [of read connect contents "Inr ()" decode post submit] assms(1-4)
    by (auto simp: coin_size_def)
  have wf: "ledger_wf L"
    by (rule ledger_wf_le [OF assms(8,9)])
  note len = unat_checkpoint_of [OF wf] unat_checkpoint_of [OF assms(9)]
  have le: "length (led_receivers L s) \<le> length (led_receivers L' s)" for s
    using assms(8) by (simp add: ledger_le_def prefix_length_le)
  have "check_new_item cd default_utxo default_note fetch s i = Inr ()"
    if "i \<in> set (range_u64 (receiver_index (checkpoint_of L) s) (receiver_index (checkpoint_of L') s))" for s i
  proof -
    have i: "length (led_receivers L s) \<le> unat i" "unat i < length (led_receivers L' s)"
      using that map_unat_range_u64 [of "receiver_index (checkpoint_of L) s" "receiver_index (checkpoint_of L') s"]
      by (metis atLeastLessThan_iff image_eqI len(1,3) list.set_map set_upt)+
    obtain u v where item: "led_receivers L' s ! unat i = (u, v)" by fastforce
    have "led_receivers L' s ! unat i \<in> set (drop (length (led_receivers L s)) (led_receivers L' s))"
      using i by (auto simp: in_set_conv_nth intro!: exI [of _ "unat i - length (led_receivers L s)"])
    then show ?thesis
      using assms(10) i(2) assms(11) by (fastforce simp: item check_new_item_def fetch_item_def)
  qed
  then have "count_new_items (check_new_item cd default_utxo default_note fetch) (checkpoint_of L) (checkpoint_of L') =
      Inr (word_of_nat (\<Sum>s \<leftarrow> all_u8. length (led_receivers L' s) - length (led_receivers L s)))"
    using count_new_items_sum [of "checkpoint_of L" "checkpoint_of L'"] le by (simp add: len word_le_nat_alt)
  moreover have "(\<Sum>s \<leftarrow> all_u8. length (led_receivers L' s) - length (led_receivers L s)) \<le> 256 * 2 ^ 47"
    using ledger_wfD(1) [OF assms(9)] by (intro sum_all_u8_le) (meson diff_le_self le_trans less_imp_le)
  ultimately show ?thesis
    using minted get_latest_check_point_ledger [OF assms(5,6) wf] get_latest_check_point_ledger [OF assms(5,7,9)]
    by (auto simp: incremental_synchronization_should_work_def word_le_nat_alt unat_of_nat)
qed

lemma test_indexer_client: "indexer_client (Inr shipped_config) (\<lambda>_. Inr ()) = Inr ()"
  by (simp add: indexer_client_def test_integer_def shipped_config_def config_section_def)

lemma incremental_test_passes_ten:
  "incremental_synchronization_should_work byte_codec demo_sqlite 0 0 (\<lambda>s i. Inr (Some (1, 2))) (test_db 40)
    (mint_private_coins (Inr shipped_config) (\<lambda>_. Inr ()) (Inr (Inr (replicate 5521 7))) (Inr ()) (\<lambda>bs. Inr bs) (\<lambda>_. Inr ()))
    (test_db 50) = Inr ()"
proof -
  let ?n = "\<lambda>s. length (led_receivers (test_ledger 50) s) - length (led_receivers (test_ledger 40) s)"
  have "?n = (\<lambda>s. if s = 0 then 10 else 0)"
    by (auto simp: test_ledger_def)
  then have ten: "(\<Sum>s \<leftarrow> all_u8. ?n s) = 10"
    by (simp add: sum_list_distinct_conv_sum_set)
  have le: "ledger_le (test_ledger 40) (test_ledger 50)"
    by (auto simp: ledger_le_def test_ledger_def prefix_def intro!: exI [of _ "replicate 10 (1, 2)"] simp flip: replicate_add)
  have wf: "ledger_wf (test_ledger 50)"
    by (rule test_db_holds(2)) simp
  have stored: "\<forall>s i. unat (i :: u64) < length (led_receivers (test_ledger 50) s) \<longrightarrow>
      Inr (Some (1, 2)) = Inr (Some (led_receivers (test_ledger 50) s ! unat i))"
    by (simp add: test_ledger_def)
  have new: "\<forall>s. \<forall>(u, v) \<in> set (drop (length (led_receivers (test_ledger 40) s)) (led_receivers (test_ledger 50) s)).
      utxo_encode byte_codec u \<noteq> utxo_encode byte_codec 0 \<and> note_encode byte_codec v \<noteq> note_encode byte_codec 0"
    by (auto simp: test_ledger_def byte_codec_def)
  have size: "length (replicate 5521 (7 :: u8)) = 5521" by simp
  from conjunct2 [OF incremental_test_passes_iff [where decode = "\<lambda>bs. Inr bs" and submit = "\<lambda>_. Inr ()",
      OF test_indexer_client size refl refl demo.engine(2) test_db_holds(1) test_db_holds(1) le wf stored new]] ten
  show ?thesis by simp
qed

text \<open>
  The test of the reconstruction: with the shipped configuration, clients that connect and a storage that
  has the receivers of the chain it passes when the first response of the node reaches the five
  items that the test looks at; the limit of 6144 that it asks for is cut to 4096.
\<close>

lemma reconstruct_test_passes:
  assumes "live_world forest world chain bound" and "connect ''ws://127.0.0.1:9800'' = Inr ()"
    and "connect_api ''ws://127.0.0.1:9800'' = Inr ()"
    and "node_of (world t) PULL_LEDGER_DIFF_METHODS (checkpoint_default, 4096, 4096) = Inr resp"
    and "\<forall>(s, i) \<in> set sample_shards. unat i < length (filter (\<lambda>r. tree_index forest (fst r) = Some s) (receivers resp))"
    and "\<And>s i. unat i < length (led_receivers (chain t) s) \<Longrightarrow> fetch s i = Inr (Some (led_receivers (chain t) s ! unat i))"
  shows "reconstruct_shards_should_be_correct cd forest (node_of (world t)) (Inr shipped_config) connect connect_api fetch = Inr ()"
proof -
  let ?g = "\<lambda>s. filter (\<lambda>r. tree_index forest (fst r) = Some s) (receivers resp)"
  have resp: "node_of (world t) PULL_LEDGER_DIFF_METHODS (checkpoint_of empty_ledger, 4096, 4096) = Inr resp"
    using assms(4) by (simp add: checkpoint_of_empty)
  have "ledger_le (extend_ledger forest resp empty_ledger) (chain t)"
    using honest_world.on_chain [where L = empty_ledger and chain = chain and world = world, OF _ empty_ledger_le resp] assms(1)
    by (simp add: live_world_def)
  then have "prefix (?g s) (led_receivers (chain t) s)" for s
    by (simp add: ledger_le_def extend_ledger_def empty_ledger_def)
  then have same: "?g s ! k = led_receivers (chain t) s ! k \<and> k < length (led_receivers (chain t) s)" if "k < length (?g s)" for s k
  proof -
    obtain zs where "led_receivers (chain t) s = ?g s @ zs"
      using \<open>\<And>s. prefix (?g s) (led_receivers (chain t) s)\<close> by (auto simp: prefix_def)
    then show ?thesis using that by (simp add: nth_append)
  qed
  have "\<forall>r \<in> set (receivers resp). tree_index forest (fst r) \<noteq> None"
    using live_world.converts [where L = empty_ledger, OF assms(1) empty_ledger_le resp] by blast
  then obtain shards where shards: "reconstruct_shards_from_pull_response forest resp = Inr shards"
    using reconstruct_push_all [OF live_world.hash_parameters [OF assms(1)], of resp] by simp
  define body :: "unit \<Rightarrow> u8 \<times> u64 \<Rightarrow> anyhow_error + unit" where "body = (\<lambda>_ (s, i). bindE (fetch_item fetch s i) (\<lambda>(u, v).
      bindE (reconstructed_at shards s i) (\<lambda>r. bindE (assert_true (utxo_encode cd u = utxo_encode cd (fst r))) (\<lambda>_.
        assert_true (note_encode cd v = note_encode cd (snd r))))))"
  have body: "body () (s, i) = Inr ()" if "unat i < length (?g s)" for s i
  proof -
    have "map_of shards s = Some (?g s)"
      using that reconstruct_entries(2) [OF shards, of s] by (auto simp: Let_def)
    then show ?thesis
      using same [OF that] assms(6) that by (simp add: body_def fetch_item_def reconstructed_at_def split_beta)
  qed
  have loop: "foldE body () xs = Inr ()" if "\<forall>(s, i) \<in> set xs. unat i < length (?g s)" for xs
    using that by (induction xs) (auto simp: body)
  have "synchronize_ledger (node_of (world t)) checkpoint_default (1024 * 6) (1024 * 6) = Inr resp"
    using assms(4) by (simp add: synchronize_ledger_def MAX_RECEIVERS_def MAX_SENDERS_def min_def)
  moreover have "test_setting shipped_config ''indexer'' ''full_node'' = Inr ''ws://127.0.0.1:9800''"
    by (simp add: test_setting_def shipped_config_def config_section_def)
  ultimately show ?thesis
    unfolding reconstruct_shards_should_be_correct_def body_def [symmetric]
    using shards assms(2,3) loop [OF assms(5)] by (simp flip: body_def)
qed

end
