(* ===== verification/Indexer_Main.thy ===== *)
theory Indexer_Main
  imports Sync_Job Service
begin

text \<open>
  \<open>src/main.rs\<close> and \<open>src/cli.rs\<close>: the process from its start to its graceful exit.

  The process starts the service, which spawns the synchronisation job, waits for the shutdown
  flag, stops the server and waits until every holder of the channel's sender has dropped it. The
  only holder that is left when \<open>start_service\<close> has returned is the job, which drops its sender when
  its loop ends, or when a panic unwinds its task: \<open>main\<close> returns in both cases, and does not look at
  the result of the task. The shutdown flag is read by three loops; \<open>env_shutdown\<close>, \<open>main_shutdown\<close> and
  \<open>job_shutdown\<close> are what their polls read. The parsing of the arguments and the logger are
  parameters.
\<close>

section \<open>Command line\<close>

datatype commands = PullUtxo | InsertUtxo

record indexer_cli =
  config_path :: string
  migrations_path :: string
  cli_command :: "commands option"

definition indexer_cli_default :: indexer_cli where
  "indexer_cli_default = \<lparr>config_path = ''./conf'', migrations_path = ''./migrations'', cli_command = None\<rparr>"

section \<open>The process\<close>

record main_env =
  init_logger :: "string \<Rightarrow> anyhow_error + unit"
  register_signal :: "string \<Rightarrow> anyhow_error + unit"
  service_of :: service_env
  main_shutdown :: "nat \<Rightarrow> bool"
  job_shutdown :: "nat \<Rightarrow> bool"
  stop_server :: "anyhow_error + unit"

text \<open>The part of \<open>main\<close> up to the running service. The static \<open>RPC_METHODS\<close> is not set yet.\<close>

definition boot :: "main_env \<Rightarrow> indexer_cli \<Rightarrow> (anyhow_error + server_settings) option" where
  "boot env args =
     (case bindE (init_logger env (config_path args @ ''/log.yaml'')) (\<lambda>_.
           bindE (register_signal env ''SIGINT'') (\<lambda>_.
           bindE (register_signal env ''SIGTERM'') (\<lambda>_.
             register_signal env ''SIGQUIT''))) of
        Inl e \<Rightarrow> Some (Inl e)
      | Inr _ \<Rightarrow> start_service (service_of env) (once_new ''RPC_METHODS'') (migrations_path args))"

text \<open>What the spawned job starts from: the tables of the pool and the empty cache.\<close>

definition job_start :: "'c lru_ops \<Rightarrow> server_settings \<Rightarrow> 'c sync_state" where
  "job_start lr settings =
     \<lparr>st_db = file_tables (srv_db_file settings), st_cache = LEDGER_LRU lr, init_syncing_finished = False\<rparr>"

text \<open>The process ends with its result and, on a graceful exit, with the job that it waited for.\<close>

definition main ::
  "('u, 'n, 'o) codec \<Rightarrow> 'c lru_ops \<Rightarrow> 'u forest \<Rightarrow> (nat \<Rightarrow> ('u, 'n, 'o) world) \<Rightarrow> main_env \<Rightarrow> indexer_cli \<Rightarrow>
   ((anyhow_error + unit) \<times> 'c job_state option) option" where
  "main cd lr forest world env args =
     (case boot env args of
        None \<Rightarrow> None
      | Some (Inl e) \<Rightarrow> Some (Inl e, None)
      | Some (Inr settings) \<Rightarrow>
          (case poll_until (main_shutdown env) 0 of
             None \<Rightarrow> None
           | Some _ \<Rightarrow>
               (case stop_server env of
                  Inl e \<Rightarrow> Some (Inl e, None)
                | Inr _ \<Rightarrow>
                    (case start_sync_ledger_job cd lr forest world (sync_max_count settings) (sync_frequency settings)
                            (job_shutdown env) (job_start lr settings) of
                       None \<Rightarrow> None
                     | Some (_, job) \<Rightarrow> Some (Inr (), Some job)))))"

section \<open>Properties\<close>

lemma boot_Some_Inr:
  assumes "boot env args = Some (Inr settings)"
  shows "start_service (service_of env) (once_new ''RPC_METHODS'') (migrations_path args) = Some (Inr settings)"
  using assms by (simp add: boot_def split: sum.splits)

lemma start_service_max_count:
  assumes "start_service env statics path = Some (Inr settings)"
  shows "sync_max_count settings = (MAX_RECEIVERS, MAX_SENDERS)"
  using start_service_Inr [OF assms] prepare_service_Inr(3) by fastforce

lemma job_start_represents:
  assumes "lru_crate lr" and "holds_ledger cd L (file_tables (srv_db_file settings))"
  shows "represents cd lr L (job_start lr settings)"
  using assms empty_cache_coherent [OF assms(1), of "1024 * 1024 * 16" cd L]
  by (simp add: represents_def job_start_def LEDGER_LRU_def)

text \<open>
  C11. The process exits gracefully: once the service runs on tables that hold a part of the chain,
  with a node that answers and no faults, and once the shutdown flag is seen up by the loop of
  \<open>main\<close> and by the job, \<open>main\<close> returns without an error. It returns only after the job has ended,
  and the job ended after a complete synchronisation: the tables then hold the whole chain as of
  the last request, the one before the final value of the clock.
\<close>

theorem main_exits_gracefully:
  assumes "lru_crate lr" and "live_world forest world chain bound"
    and "boot env args = Some (Inr settings)"
    and "holds_ledger cd L (file_tables (srv_db_file settings))" and "ledger_le L (chain 0)"
    and "main_shutdown env m" and "stop_server env = Inr ()"
    and "job_shutdown env n" and "\<forall>j < n. \<not> job_shutdown env j"
  shows "\<exists>job t. main cd lr forest world env args = Some (Inr (), Some job) \<and>
    job_clock job = Suc t \<and> represents cd lr (chain t) (job_sync job) \<and> sync_error_count job = 0 \<and>
    slept job = replicate (Suc n) (sync_frequency settings)"
proof -
  have mc: "sync_max_count settings = (MAX_RECEIVERS, MAX_SENDERS)"
    by (rule start_service_max_count [OF boot_Some_Inr [OF assms(3)]])
  then have pos: "0 < fst (sync_max_count settings)" "0 < snd (sync_max_count settings)"
    by (simp_all add: MAX_RECEIVERS_def MAX_SENDERS_def)
  obtain j where wait: "poll_until (main_shutdown env) 0 = Some j"
    using poll_until_returns [of "main_shutdown env" 0 m] assms(6) by auto
  obtain job t where
    "start_sync_ledger_job cd lr forest world (sync_max_count settings) (sync_frequency settings)
      (job_shutdown env) (job_start lr settings) = Some (Inr (), job)" "job_clock job = Suc t"
    "represents cd lr (chain t) (job_sync job)" "sync_error_count job = 0"
    "slept job = replicate (Suc n) (sync_frequency settings)"
    using job_live [OF assms(1,2) pos job_start_represents [OF assms(1,4)] assms(5,8,9)] by blast
  then show ?thesis
    using assms(3,7) wait by (auto simp: main_def)
qed

definition demo_main_env :: main_env where
  "demo_main_env = \<lparr>init_logger = (\<lambda>_. Inr ()), register_signal = (\<lambda>_. Inr ()), service_of = demo_service_env,
     main_shutdown = (\<lambda>k. 4 \<le> k), job_shutdown = (\<lambda>k. 1 \<le> k), stop_server = Inr ()\<rparr>"

lemma demo_boot:
  "\<exists>settings. boot demo_main_env indexer_cli_default = Some (Inr settings) \<and> file_tables (srv_db_file settings) = empty_db"
proof -
  obtain settings where s: "start_service demo_service_env (once_new ''RPC_METHODS'') ''./migrations'' = Some (Inr settings)"
    using demo_start by blast
  then show ?thesis
    using start_service_db_file [OF s] demo.engine(2)
    by (simp add: boot_def demo_main_env_def indexer_cli_default_def demo_service_env_def)
qed

theorem main_exits_gracefully_witness:
  "\<exists>job. main byte_codec recency_lru demo_forest (\<lambda>_. serving_world demo_sqlite rev demo_ledger) demo_main_env
      indexer_cli_default = Some (Inr (), Some job) \<and>
    represents byte_codec recency_lru demo_ledger (job_sync job)"
proof -
  obtain settings where boot: "boot demo_main_env indexer_cli_default = Some (Inr settings)"
    and db: "file_tables (srv_db_file settings) = empty_db"
    using demo_boot by blast
  have "holds_ledger byte_codec empty_ledger (file_tables (srv_db_file settings))"
    by (simp add: db empty_db_holds)
  from main_exits_gracefully [OF recency.lru_crate_axioms demo_node.live.live_world_axioms boot this empty_ledger_le,
      of 4 1]
  show ?thesis by (auto simp: demo_main_env_def)
qed

end
