(* ===== verification/Monitoring.thy ===== *)
theory Monitoring
  imports Prelude
begin

text \<open>
  \<open>src/monitoring.rs\<close>: the counters and gauges that the middleware keeps. The registry of
  \<open>prometheus\<close> is the record of their values; a labelled family is a function of its labels, and
  the histogram keeps the list of its observations, from which the exported buckets are counted.
  Logging is left out. The elapsed time of a call
  is an argument.
\<close>

section \<open>Metric names\<close>

definition MANTA_INDEXER_MONITORING_NAMESPACE :: string where
  "MANTA_INDEXER_MONITORING_NAMESPACE = ''manta_indexer''"

record opts =
  opt_namespace :: string
  opt_subsystem :: string
  opt_name :: string
  opt_help :: string

definition indexer_relay_opts :: "string \<Rightarrow> string \<Rightarrow> opts" where
  "indexer_relay_opts name help = \<lparr>opt_namespace = MANTA_INDEXER_MONITORING_NAMESPACE, opt_subsystem = ''relay'',
     opt_name = name, opt_help = help\<rparr>"

record histogram_opts =
  common_opts :: opts
  buckets :: "nat list"

definition indexer_relay_histogram_opts :: "string \<Rightarrow> string \<Rightarrow> nat list \<Rightarrow> histogram_opts" where
  "indexer_relay_histogram_opts name help bucket = \<lparr>common_opts = \<lparr>opt_namespace = MANTA_INDEXER_MONITORING_NAMESPACE,
     opt_subsystem = ''relay'', opt_name = name, opt_help = help\<rparr>, buckets = bucket\<rparr>"

definition indexer_ledger_opts :: "string \<Rightarrow> string \<Rightarrow> opts" where
  "indexer_ledger_opts name help = \<lparr>opt_namespace = MANTA_INDEXER_MONITORING_NAMESPACE, opt_subsystem = ''ledger'',
     opt_name = name, opt_help = help\<rparr>"

definition indexer_ledger_histogram_opts :: "string \<Rightarrow> string \<Rightarrow> nat list \<Rightarrow> histogram_opts" where
  "indexer_ledger_histogram_opts name help bucket = \<lparr>common_opts = \<lparr>opt_namespace = MANTA_INDEXER_MONITORING_NAMESPACE,
     opt_subsystem = ''ledger'', opt_name = name, opt_help = help\<rparr>, buckets = bucket\<rparr>"

text \<open>\<open>linear_buckets\<close> of \<open>prometheus\<close>; the bounds of the response times are whole numbers of milliseconds.\<close>

definition linear_buckets :: "nat \<Rightarrow> nat \<Rightarrow> nat \<Rightarrow> nat list" where
  "linear_buckets start width n = map (\<lambda>i. start + i * width) [0 ..< n]"

definition RELAY_RESPONSE_TIME :: histogram_opts where
  "RELAY_RESPONSE_TIME = indexer_relay_histogram_opts ''response_time'' ''stat the relaying response time'' (linear_buckets 0 20 100)"

text \<open>The name under which a metric is registered: its parts joined by underscores.\<close>

definition fq_name :: "opts \<Rightarrow> string" where
  "fq_name ops = opt_namespace ops @ ''_'' @ opt_subsystem ops @ ''_'' @ opt_name ops"

text \<open>The metrics that the sources register.\<close>

definition registered_metrics :: "opts list" where
  "registered_metrics = [
     indexer_relay_opts ''total_relay_count'' ''counting the total received relay request'',
     common_opts RELAY_RESPONSE_TIME,
     indexer_relay_opts ''conn_on_the_way'' ''stat current ws connection number'',
     indexer_relay_opts ''req_on_the_way'' ''stat current ws request on the way'',
     indexer_relay_opts ''relaying_sub_channel_num''
       ''count the amount of channel existed now to relay subscribe data from indexer to dapp'',
     indexer_ledger_opts ''sync_error_count'' ''syncing error counter'']"

section \<open>The middleware\<close>

record metrics =
  conn_num :: u64
  conn_on_the_way :: int
  req_on_the_way :: "string \<Rightarrow> int"
  total_relay_count :: "string \<Rightarrow> bool \<Rightarrow> nat"
  response_time :: "string \<Rightarrow> nat list"

definition no_metrics :: metrics where
  "no_metrics = \<lparr>conn_num = 0, conn_on_the_way = 0, req_on_the_way = (\<lambda>_. 0), total_relay_count = (\<lambda>_ _. 0),
     response_time = (\<lambda>_. [])\<rparr>"

datatype method_kind = Unknown_Kind | Known_Kind

definition on_connect :: "metrics \<Rightarrow> metrics" where
  "on_connect mt = mt\<lparr>conn_num := conn_num mt + 1, conn_on_the_way := conn_on_the_way mt + 1\<rparr>"

definition on_call :: "string \<Rightarrow> method_kind \<Rightarrow> metrics \<Rightarrow> metrics" where
  "on_call name kind mt = mt\<lparr>req_on_the_way := (req_on_the_way mt)(name := req_on_the_way mt name + 1)\<rparr>"

definition on_result :: "string \<Rightarrow> bool \<Rightarrow> nat \<Rightarrow> metrics \<Rightarrow> metrics" where
  "on_result name success elapsed mt = mt\<lparr>
     total_relay_count := (total_relay_count mt)(name := (total_relay_count mt name)(success := total_relay_count mt name success + 1)),
     response_time := (response_time mt)(name := response_time mt name @ [elapsed]),
     req_on_the_way := (req_on_the_way mt)(name := req_on_the_way mt name - 1)\<rparr>"

definition on_disconnect :: "metrics \<Rightarrow> metrics" where
  "on_disconnect mt = mt\<lparr>conn_num := conn_num mt - 1, conn_on_the_way := conn_on_the_way mt - 1\<rparr>"

datatype ws_event = Connect | Call string method_kind | Result string bool nat | Disconnect

fun ws_step :: "ws_event \<Rightarrow> metrics \<Rightarrow> metrics" where
  "ws_step Connect mt = on_connect mt"
| "ws_step (Call name kind) mt = on_call name kind mt"
| "ws_step (Result name success elapsed) mt = on_result name success elapsed mt"
| "ws_step Disconnect mt = on_disconnect mt"

section \<open>Properties\<close>

text \<open>
  What an exported bucket counts: the observations up to its bound. The registration of a histogram
  demands strictly growing bounds.
\<close>

definition bucket_count :: "metrics \<Rightarrow> string \<Rightarrow> nat \<Rightarrow> nat" where
  "bucket_count mt name bound = length (filter (\<lambda>t. t \<le> bound) (response_time mt name))"

lemma response_buckets_grow: "sorted_wrt (<) (buckets RELAY_RESPONSE_TIME)"
  by (simp add: RELAY_RESPONSE_TIME_def indexer_relay_histogram_opts_def linear_buckets_def sorted_wrt_map)

lemma registered_names_distinct: "distinct (map fq_name registered_metrics)"
  by (simp add: registered_metrics_def fq_name_def indexer_relay_opts_def indexer_ledger_opts_def
      RELAY_RESPONSE_TIME_def indexer_relay_histogram_opts_def MANTA_INDEXER_MONITORING_NAMESPACE_def)

definition fast_results_of :: "string \<Rightarrow> nat \<Rightarrow> ws_event list \<Rightarrow> nat" where
  "fast_results_of name bound evs = length (filter (\<lambda>e. case e of Result n _ t \<Rightarrow> n = name \<and> t \<le> bound | _ \<Rightarrow> False) evs)"


definition calls_of :: "string \<Rightarrow> ws_event list \<Rightarrow> nat" where
  "calls_of name evs = length (filter (\<lambda>e. case e of Call n _ \<Rightarrow> n = name | _ \<Rightarrow> False) evs)"

definition results_of :: "string \<Rightarrow> bool \<Rightarrow> ws_event list \<Rightarrow> nat" where
  "results_of name success evs = length (filter (\<lambda>e. case e of Result n s _ \<Rightarrow> n = name \<and> s = success | _ \<Rightarrow> False) evs)"

text \<open>
  C36. What the metrics count, after any sequence of middleware events in any interleaving: the
  gauge of connections is the number of connects minus the number of disconnects, and the atomic
  counter is the same modulo \<open>2 ^ 64\<close>; per method the gauge of requests is the number of calls
  minus the number of results, the counter of each status is the number of its results, and there
  is one response time per result; the bucket of each bound counts the results that took at most
  as many milliseconds.
\<close>

theorem metrics_count_events:
  "let mt = fold ws_step evs no_metrics;
       conns = int (length (filter (\<lambda>e. e = Connect) evs)) - int (length (filter (\<lambda>e. e = Disconnect) evs))
   in conn_on_the_way mt = conns \<and> conn_num mt = word_of_int conns \<and>
     (\<forall>name. req_on_the_way mt name = int (calls_of name evs) - int (results_of name True evs) - int (results_of name False evs)
        \<and> (\<forall>success. total_relay_count mt name success = results_of name success evs)
        \<and> length (response_time mt name) = results_of name True evs + results_of name False evs
        \<and> (\<forall>bound. bucket_count mt name bound = fast_results_of name bound evs))"
proof (induction evs rule: rev_induct)
  case Nil
  then show ?case by (simp add: no_metrics_def calls_of_def results_of_def bucket_count_def fast_results_of_def)
next
  case (snoc e evs)
  then show ?case
    by (cases e)
      (auto simp: Let_def on_connect_def on_call_def on_result_def on_disconnect_def calls_of_def results_of_def
        bucket_count_def fast_results_of_def)
qed

end
