(* ===== verification/Spec2Isabelle.thy ===== *)
theory Spec2Isabelle
  imports Client_Progress Pool_Worker Sync_Tests Indexer_Main Monitoring
begin

text \<open>
  A verification development of the Manta indexer, a service that keeps a copy of the shielded
  ledger of a Manta full node, answers the pull requests of wallets from that copy, and relays all
  other RPC methods to the node.

  \<^bold>\<open>The program.\<close> The full node holds, in 256 shards, sequences of receivers (pairs of a UTXO and an
  incoming note) and one sequence of senders (pairs of a nullifier commitment and an outgoing note).
  A background job (\<open>src/indexer/sync.rs\<close>) asks the node for what is new since a checkpoint, stores
  it in three SQLite tables (\<open>src/db.rs\<close>, \<open>migrations/0_schema.sql\<close>) in one transaction per response,
  and puts it into an LRU cache (\<open>src/indexer/cache.rs\<close>). The RPC methods of the indexer
  (\<open>src/indexer/mod.rs\<close>, \<open>src/indexer/pull.rs\<close>) answer from the cache and, for what it does not hold,
  from the tables. The relay (\<open>src/relayer\<close>) forwards the other methods through one client, and
  subscriptions through a pool of clients. \<open>src/service.rs\<close>, \<open>src/utils.rs\<close> and \<open>src/main.rs\<close> read the
  configuration, start the parts and end the process; \<open>src/monitoring.rs\<close> counts.

  \<^bold>\<open>Theories.\<close>
  \<^item> \<open>Prelude\<close>: machine integers and casts (\<open>usize\<close> and \<open>u64\<close> are \<open>64 word\<close>, arithmetic wraps), results
    and the operator \<open>?\<close> (\<open>bindE\<close>), loops with early return (\<open>foldE\<close>), hash maps as grouping
    structures whose iteration order is a parameter (\<open>visits_each_once\<close>), list and multiset lemmas.
  \<^item> \<open>Ledger_Types\<close>: \<open>src/errors.rs\<close>, \<open>src/types.rs\<close>, \<open>src/constants.rs\<close>, the types of the ledger
    protocol, and the codec. SCALE and base64 are the parameter \<open>codec\<close>; locale \<open>scale_codec\<close> states
    that decoding inverts encoding; interpretation \<open>one_byte\<close>.
  \<^item> \<open>Cache\<close>: keys, batch operations and the sharded cache of \<open>src/indexer/cache.rs\<close>. The \<open>lru\<close> crate
    is the parameter \<open>lru_ops\<close> with the locale \<open>lru_crate\<close> (interpretation \<open>recency\<close>, a bounded
    recency list); what the indexer relies on is the locale \<open>batch_cache\<close>, provided by the single
    and by the sharded cache (sublocales, interpretation \<open>recency_sharded\<close>).
  \<^item> \<open>Db\<close>, \<open>Db_Properties\<close>: every query of \<open>src/db.rs\<close> on a record of three tables; the
    indexes that the schema declares are data (\<open>shards_indexes\<close>, \<open>nullifier_indexes\<close>), and \<open>INSERT OR REPLACE\<close>
    deletes the rows that conflict with the new one on a unique index. What SQL leaves
    open is the parameter \<open>sqlite\<close>: faults, the order of rows, a spare row id. \<open>holds_ledger\<close> relates
    tables to an abstract ledger. Locale \<open>keyed_table\<close>, interpretations \<open>nullifier_table\<close> and
    \<open>total_table\<close>.
  \<^item> \<open>Pull\<close>, \<open>Pull_Spec\<close>: \<open>src/indexer/pull.rs\<close>. Locale \<open>read_through\<close> (look up a range, query the rest,
    write it back) is used for each shard and for the senders. Locale \<open>ledger_view\<close> collects what holds
    of batches on a ledger whatever the engine does; \<open>pull_env\<close> extends it by an engine without faults;
    interpretation \<open>demo\<close>. The specification of a request is the greedy distribution of its limit over
    the shards.
  \<^item> \<open>Sync\<close>, \<open>Sync_Spec\<close>, \<open>Full_Node\<close>, \<open>Sync_Job\<close>, \<open>Local_Walk\<close>: \<open>src/indexer/sync.rs\<close>. The world of a
    round (engine, node, iteration order) is a parameter. Locale \<open>honest_world\<close> says what a node
    promises, \<open>live_world\<close> when it makes progress; a node that serves a ledger (locale \<open>serving\<close>)
    provides both, interpretation \<open>demo_node\<close>. Locale \<open>walk_env\<close>, interpretation \<open>demo_walk\<close>, for the
    walk of a client over the local database.
  \<^item> \<open>Indexer_Api\<close>: the two RPC methods of \<open>src/indexer/mod.rs\<close>.
  \<^item> \<open>Indexer_System\<close>: the running system as a step relation: synchronisation rounds with any outcome
    and requests as atomic steps. Locale \<open>pull_store\<close>, interpretation \<open>demo_store\<close>: requests under faults.
  \<^item> \<open>Pull_Programs\<close>, \<open>Interleaving\<close>, \<open>Concurrent_System\<close>: the same system at the granularity of single
    accesses. A request is the tree of its queries and cache operations, each an \<open>await\<close> of the source;
    the job commits a round and then refreshes the cache batch by batch. Programs are judged in the
    rely-guarantee style (\<open>prog_ok\<close>); locale \<open>request_env\<close>, interpretation \<open>demo_requests\<close>. The postcondition
    \<open>delivers\<close> says that an answer is taken from the slices of the ledger behind its first cursor, and \<open>complete\<close>
    that it holds whatever was stored there, within its limits, when the request arrived.
  \<^item> \<open>Client_Sessions\<close>, \<open>Client_Progress\<close>: a wallet that follows the cursors of its answers through the
    interleaved system, and how many requests it needs until nothing is missing.
  \<^item> \<open>Relay\<close>, \<open>Sub_Client_Pool\<close>, \<open>Pool_Worker\<close>: \<open>src/relayer/relay_server.rs\<close> and
    \<open>src/relayer/sub_client_pool.rs\<close>. The handlers of the relay have the types of their parameters and results;
    the conversions of \<open>serde\<close> (record \<open>serde\<close>) and the client of \<open>jsonrpsee\<close> (\<open>rpc_client\<close>) are parameters. The pool has a step relation with atomic calls of \<open>subscribe\<close>, and one
    in which calls overlap and wait for jobs of the worker thread; when the calls of one connection do not
    overlap, the second refines the first.
  \<^item> \<open>Monitoring\<close>: the metrics of \<open>src/monitoring.rs\<close> with the buckets of the histogram, and the middleware.
  \<^item> \<open>Utils\<close>, \<open>Service\<close>, \<open>Indexer_Main\<close>: \<open>src/utils.rs\<close>, \<open>src/service.rs\<close>, \<open>src/relayer/mod.rs\<close>,
    \<open>src/main.rs\<close>, \<open>src/cli.rs\<close> and \<open>bin/load_ledger_locally.rs\<close>, with the shipped \<open>conf/config.toml\<close>.
  \<^item> \<open>Repository_Tests\<close>, \<open>Sync_Tests\<close>: tests of the repository as programs over the model, with the second
    client of the node, its storage and the submission of extrinsics as parameters.

  \<^bold>\<open>State.\<close> The tables are the record \<open>db\<close>, the cache is an abstract state of type \<open>'c\<close>, both together
  with the flag of the first synchronisation are the record \<open>sync_state\<close>; the job, the pool, the
  metrics and the system have records of their own. Operations take the state and return it, also
  when they fail; an error is the left side of a sum, a panic is the error value \<open>Panic\<close>.

  \<^bold>\<open>What is shown.\<close> Cache keys of different items differ up to the 48-bit field; the sharded cache
  answers like the single one. A pull request returns exactly the greedy distribution of the
  receivers and the slice of the senders, for every content of a coherent cache and every scan
  order; its flag and cursor are characterised, including the cases in which they mislead. A
  synchronisation round extends the stored ledger by the response and keeps cache and checkpoint in
  step with it; a call is safe under all faults and, with a live node, returns with the whole chain;
  the job ends at a shutdown, and so does the process; its counters are the numbers of its successful
  and failed calls, and a panic of a call ends it. In the running system every response comes
  from the chain; this holds for atomic steps and for every interleaving of single accesses. In the interleaved
  system an answer lies on the chain behind its cursor and, when no query of it failed, it is complete with respect to what
  was stored at its arrival; a wallet that follows the cursors gets every receiver once
  and no sender twice. What is on the chain reaches a wallet:
  after a completed call of the synchronisation, following the cursors of a known number of requests
  gives every receiver and every sender (\<open>chain_reaches_wallet\<close> below, which composes the parts). The
  pool of subscription clients with its worker keeps its invariant for any overlap of calls, it refines the pool with
  atomic calls when those of one connection do not overlap, and the worker
  answers every call in the order of the jobs. The queries of the database module,
  the relay, the pool, the metrics and the start of the service satisfy their contracts, and the
  shipped configuration starts the service. The tests of the database module pass for all ledgers,
  codecs and random choices, up to two assumptions of theirs that the theorems state, and it is
  characterised when those of the synchronisation pass.

  \<^bold>\<open>Bounds and termination.\<close> No definition uses fuel: loops over data are structural recursions, and
  loops that may run forever are partial functions into \<open>option\<close>, whose return is a theorem. The
  measure of the synchronisation loop is the part of the chain that is still missing. \<open>ledger_wf\<close>
  bounds a shard by \<open>2 ^ 47\<close> items, so that a range that starts inside it stays below the 48 bits of
  a cache key, and the senders by \<open>2 ^ 32\<close>, because the sources read their number as a \<open>u32\<close>.

  \<^bold>\<open>Abstractions.\<close> The statements of a transaction become visible at its commit, and a round reads the
  tables that only the job writes; so a round up to its commit is one step of the interleaving. A
  commit that reports an error has not changed the tables. The counter \<open>cached_values\<close>, an \<open>i32\<close> in the source, is a natural number.
  The channel of the worker takes a job
  whenever the worker lives, as \<open>futures\<close> documents for a new sender. When calls of one connection overlap
  the pool can replace a client (\<open>overlapping_calls_replace_client\<close>); the flag \<open>serial\<close> of the step relation says
  whether they may. A panic of a call ends the job; the step relations of the running system
  allow further rounds after it, which only adds behaviours. The two walks that measure time return
  their last checkpoint instead of a duration.

  \<^bold>\<open>Not modelled.\<close> Logging and its configuration, elapsed times, the tokio runtime (\<open>build_tokio_runtime\<close>
  is never called), the file system and the parsers behind \<open>read_config\<close>, the sockets behind
  \<open>create_ws_client\<close>, \<open>build.rs\<close>, \<open>src/lib.rs\<close> (module declarations), the benchmarks under \<open>benches\<close>, the
  tests that measure time, and the test of what the cache holds after a synchronisation, which depends
  on its capacity.
  \<open>pallet_manta_pay\<close>, \<open>manta_pay\<close>, \<open>sqlx\<close>, \<open>jsonrpsee\<close> and \<open>prometheus\<close> are outside the repository.
\<close>

section \<open>From the node to the wallet\<close>

text \<open>
  C2. What is on the chain reaches the wallet, through all parts of the indexer: with a live node a call of
  the synchronisation ends without an error, and a wallet that then follows the cursors of the dense
  method from the default checkpoint, with any limits, any coherent cache that the call has left and
  without a look at the flag, gets every receiver and every sender that was on the chain at the last
  request of the call, each exactly once. The number of its requests is known: it is enough that
  \<open>k\<close> times the limits, at most 4096 each, covers the chain.
\<close>

theorem chain_reaches_wallet:
  assumes "scale_codec cd" and "lru_crate lr" and "live_world forest world chain bound"
    and "represents cd lr L st" and "ledger_le L (chain t)" and "0 < fst mc" and "0 < snd mc"
    and "\<forall>t q resp. node_of (world t) PULL_LEDGER_DIFF_METHODS q = Inr resp \<longrightarrow> length (senders_receivers_total resp) = 16"
    and "sqlite_ok sq" and "fault_free sq"
    and "(\<Sum>s \<leftarrow> all_u8. length (led_receivers bound s)) \<le> k * min (unat mr) 4096"
    and "length (led_senders bound) \<le> k * min (unat ms) 4096" and "k \<le> 2 ^ 36"
  shows "\<exists>st' t' rs ss ckp c'. sync_shards_from_full_node cd lr forest world mc refresh t st = Some (Inr (), st', Suc t') \<and> t \<le> t' \<and>
    follow_cursor show_error cd lr sq (st_db st') mr ms k checkpoint_default (st_cache st') = Some (rs, ss, ckp, c') \<and>
    mset rs = (\<Sum>s \<in> UNIV. mset (led_receivers (chain t') s)) \<and> mset ss = mset (led_senders (chain t')) \<and>
    (\<forall>s. unat (receiver_index ckp s) = length (led_receivers (chain t') s))"
proof -
  obtain st' t' where call: "sync_shards_from_full_node cd lr forest world mc refresh t st = Some (Inr (), st', Suc t')" "t \<le> t'"
    and rep: "represents cd lr (chain t') st'" and tot: "total_from world (st_db st')"
    using call_completes [OF assms(2,3,6,7,4,5)] by blast
  have holds: "holds_ledger cd (chain t') (st_db st')" and coherent: "cache_coherent cd lr (chain t') (st_cache st')"
    using rep by (simp_all add: represents_def)
  obtain total where total: "tbl_total (st_db st') = Some total" "length total = 16"
    using tot assms(8) unfolding total_from_def by blast
  have wf: "ledger_wf (chain t')"
    using honest_world.chain_wf [of forest world chain t'] assms(3) by (simp add: live_world_def)
  have le: "length (led_receivers (chain t') s) \<le> length (led_receivers bound s)"
    "length (led_senders (chain t')) \<le> length (led_senders bound)" for s
    using live_world.bounded [OF assms(3), of t'] by (simp_all add: ledger_le_def prefix_length_le)
  then have "(\<Sum>s \<leftarrow> all_u8. length (led_receivers (chain t') s)) \<le> k * min (unat mr) 4096"
    using sum_list_mono [of all_u8 "\<lambda>s. length (led_receivers (chain t') s)" "\<lambda>s. length (led_receivers bound s)"] assms(11) by simp
  from client_catches_up [OF assms(1,2) wf assms(9,10) holds coherent total this le_trans [OF le(2) assms(12)] assms(13)]
  show ?thesis using call by fast
qed

theorem chain_reaches_wallet_witness:
  "\<exists>st' t' rs ss ckp c'. sync_shards_from_full_node byte_codec recency_lru demo_forest
      (\<lambda>_. serving_world demo_sqlite rev demo_ledger) (2, 2) True 0 fresh_state = Some (Inr (), st', Suc t') \<and>
    follow_cursor (\<lambda>_. []) byte_codec recency_lru demo_sqlite (st_db st') 2 1 2 checkpoint_default (st_cache st') = Some (rs, ss, ckp, c') \<and>
    mset rs = (\<Sum>s \<in> UNIV. mset (led_receivers demo_ledger s)) \<and> mset ss = mset (led_senders demo_ledger)"
proof -
  have total: "\<forall>t q resp. node_of (serving_world demo_sqlite rev demo_ledger) PULL_LEDGER_DIFF_METHODS q = Inr resp \<longrightarrow>
      length (senders_receivers_total resp) = 16"
    by (auto simp: serving_world_def serve_def)
  have "length (led_senders demo_ledger) \<le> 2 * min (unat (1 :: u64)) 4096" "(0 :: u64) < fst (2, 2 :: u64)" "(0 :: u64) < snd (2 :: u64, 2)"
    by (simp_all add: demo_ledger_def)
  moreover have "(\<Sum>s \<leftarrow> all_u8. length (led_receivers demo_ledger s)) \<le> 2 * min (unat (2 :: u64)) 4096"
    using demo_receivers_count by simp
  ultimately show ?thesis
    using chain_reaches_wallet [where t = 0 and mc = "(2, 2)" and k = 2 and mr = 2 and ms = 1 and refresh = True and show_error = "\<lambda>_. []",
        OF one_byte.scale_codec_axioms recency.lru_crate_axioms demo_node.live.live_world_axioms fresh_state_represents empty_ledger_le _ _
          total demo.engine] by fastforce
qed

end
